(* ===== verification/Prelude.thy ===== *)
theory Prelude
  imports Main "HOL-Library.Word" "HOL-Library.Sublist" "HOL-Library.Multiset"
begin

text \<open>
  What every component of the development shares: error codes and the faults that end a
  C++ handler early, the ledger of asynchronous operations an Asio object has outstanding,
  runs and reachable states of a handler-driven state machine, and the number formatting of
  \<^verbatim>\<open>std::to_string\<close> and \<^verbatim>\<open>std::ostream\<close>.
\<close>

section \<open>Rule collections\<close>

named_theorems model_defs \<open>definitions of operations, unfolded by the component proofs\<close>
named_theorems flow_simps \<open>what an operation adds to the messages written and waiting\<close>

section \<open>Error codes and faults\<close>

text \<open>
  The values of \<^verbatim>\<open>error_code\<close> the sources compare against by name, and one constructor
  for every other error. A default-constructed \<^verbatim>\<open>error_code\<close> (false in a condition) is
  \<open>None\<close>.
\<close>

datatype error =
    operation_aborted
  | connection_aborted
  | basic_fault
  | websocket_closed
  | protocol_error
  | other_error nat

type_synonym error_code = "error option"

text \<open>
  A handler that does not return normally ends in one of these: a failed \<^verbatim>\<open>assert\<close>, a
  \<^verbatim>\<open>std::bad_function_call\<close>, a \<^verbatim>\<open>system_error\<close> or another exception, a call of
  \<^verbatim>\<open>std::exit\<close>, or an expression whose behaviour the language leaves undefined.
\<close>

datatype fault =
    Assertion string
  | Bad_function_call
  | System_error error
  | Exception string
  | Exit_called nat
  | Undefined string

type_synonym 'a result = "fault + 'a"

text \<open>Statement sequencing: the second statement runs unless the first one faulted.\<close>

definition and_then :: "'a result \<Rightarrow> ('a \<Rightarrow> 'b result) \<Rightarrow> 'b result" where
  "and_then r f = (case r of Inl x \<Rightarrow> Inl x | Inr a \<Rightarrow> f a)"

lemma and_then_simps [simp]:
  "and_then (Inl x) f = Inl x"
  "and_then (Inr a) f = f a"
  by (simp_all add: and_then_def)

lemma and_then_Inr: "and_then r f = Inr b \<longleftrightarrow> (\<exists>a. r = Inr a \<and> f a = Inr b)"
  by (cases r) auto

lemma and_then_Inl:
  "and_then r f = Inl x \<longleftrightarrow> r = Inl x \<or> (\<exists>a. r = Inr a \<and> f a = Inl x)"
  by (cases r) auto

definition check :: "bool \<Rightarrow> string \<Rightarrow> 'a \<Rightarrow> 'a result" where
  "check b what a = (if b then Inr a else Inl (Assertion what))"

lemma check_Inr [simp]: "check b what a = Inr c \<longleftrightarrow> b \<and> c = a"
  by (auto simp: check_def)

lemma check_Inl [simp]: "check b what a = Inl x \<longleftrightarrow> \<not> b \<and> x = Assertion what"
  by (auto simp: check_def)

lemma check_True [simp]: "check True what a = Inr a"
  by (simp add: check_def)

lemma check_False [simp]: "check False what a = Inl (Assertion what)"
  by (simp add: check_def)

section \<open>The ledger of asynchronous operations\<close>

text \<open>
  An Asio or Beast object is seen through the operations started on it: \<open>pending\<close> are the
  ones whose completion handler has not run yet, \<open>started\<close> is the history of all of them,
  in the order of the calls. An initiating function adds to both; the completion of an
  operation takes it out of \<open>pending\<close> before its handler runs.
\<close>

record 'o io =
  pending :: "'o list"
  started :: "'o list"

definition initiate :: "'o \<Rightarrow> ('o, 'z) io_scheme \<Rightarrow> ('o, 'z) io_scheme" where
  "initiate x s = s\<lparr>pending := pending s @ [x], started := started s @ [x]\<rparr>"

definition settle :: "'o \<Rightarrow> ('o, 'z) io_scheme \<Rightarrow> ('o, 'z) io_scheme" where
  "settle x s = s\<lparr>pending := remove1 x (pending s)\<rparr>"

text \<open>A synchronous call on the object (a cancel, a close): it leaves a trace and nothing pending.\<close>

definition perform :: "'o \<Rightarrow> ('o, 'z) io_scheme \<Rightarrow> ('o, 'z) io_scheme" where
  "perform x s = s\<lparr>started := started s @ [x]\<rparr>"

lemma io_simps [simp]:
  "pending (perform x s) = pending s"
  "started (perform x s) = started s @ [x]"
  "io.more (perform x s) = io.more s"
  "pending (initiate x s) = pending s @ [x]"
  "started (initiate x s) = started s @ [x]"
  "pending (settle x s) = remove1 x (pending s)"
  "started (settle x s) = started s"
  "io.more (initiate x s) = io.more s"
  "io.more (settle x s) = io.more s"
  by (simp_all add: initiate_def settle_def perform_def)

section \<open>Runs and reachable states\<close>

text \<open>
  A component is driven by events (calls of its public functions and completions of its
  operations); \<open>step\<close> is the handler for each of them and \<open>enabled\<close> says which events the
  surrounding program and the I/O layer may deliver.
\<close>

inductive reachable :: "('s \<Rightarrow> 'e \<Rightarrow> bool) \<Rightarrow> ('s \<Rightarrow> 'e \<Rightarrow> 's result) \<Rightarrow> 's \<Rightarrow> 's \<Rightarrow> bool"
  for enabled step s0 where
  reachable_start: "reachable enabled step s0 s0"
| reachable_step: "reachable enabled step s0 s \<Longrightarrow> enabled s e \<Longrightarrow> step s e = Inr t \<Longrightarrow>
    reachable enabled step s0 t"

fun run :: "('s \<Rightarrow> 'e \<Rightarrow> bool) \<Rightarrow> ('s \<Rightarrow> 'e \<Rightarrow> 's result) \<Rightarrow> 's \<Rightarrow> 'e list \<Rightarrow> 's option" where
  "run enabled step s [] = Some s"
| "run enabled step s (e # es) =
     (if enabled s e then
        case step s e of Inl _ \<Rightarrow> None | Inr t \<Rightarrow> run enabled step t es
      else None)"

lemma run_Cons_Some:
  "run enabled step s (e # es) = Some u \<longleftrightarrow>
     enabled s e \<and> (\<exists>t. step s e = Inr t \<and> run enabled step t es = Some u)"
  by (auto split: sum.splits)

text \<open>Induction over a run that ends in \<open>t\<close>, and what follows for properties every step keeps.\<close>

lemma run_induct [consumes 1, case_names Nil Cons]:
  assumes "run enabled step s es = Some t"
    and "P t []"
    and "\<And>s e es u. enabled s e \<Longrightarrow> step s e = Inr u \<Longrightarrow> run enabled step u es = Some t \<Longrightarrow> P u es \<Longrightarrow> P s (e # es)"
  shows "P s es"
  using assms(1)
proof (induction es arbitrary: s)
  case Nil
  with assms(2) show ?case by simp
next
  case (Cons e es)
  then show ?case using assms(3) by (auto simp: run_Cons_Some simp del: run.simps)
qed

lemma run_keeps:
  assumes "run enabled step s es = Some t" "P s"
    and "\<And>s e u. e \<in> set es \<Longrightarrow> enabled s e \<Longrightarrow> step s e = Inr u \<Longrightarrow> P s \<Longrightarrow> P u"
  shows "P t"
  using assms by (induction rule: run_induct) auto

lemma run_append:
  "run enabled step s (es @ fs) = Option.bind (run enabled step s es) (\<lambda>t. run enabled step t fs)"
  by (induction es arbitrary: s) (auto split: sum.splits)

lemma run_reachable_from:
  "reachable enabled step s0 s \<Longrightarrow> run enabled step s es = Some t \<Longrightarrow> reachable enabled step s0 t"
  by (erule run_keeps) (auto intro: reachable_step)

lemma run_reachable: "run enabled step s0 es = Some t \<Longrightarrow> reachable enabled step s0 t"
  by (rule run_reachable_from [OF reachable_start])

text \<open>The invariant rule: one obligation for the start, one for each enabled step.\<close>

lemma reachable_invariant [consumes 1, case_names start step]:
  assumes "reachable enabled step s0 s"
    and "P s0"
    and "\<And>s e t. reachable enabled step s0 s \<Longrightarrow> P s \<Longrightarrow> enabled s e \<Longrightarrow> step s e = Inr t \<Longrightarrow> P t"
  shows "P s"
  using assms(1) by (induction rule: reachable.induct) (auto intro: assms(2,3))

section \<open>Lists\<close>

lemma filter_remove1_miss [simp]: "\<not> P x \<Longrightarrow> filter P (remove1 x xs) = filter P xs"
  by (induction xs) auto

lemma filter_remove1_hit: "P x \<Longrightarrow> filter P (remove1 x xs) = remove1 x (filter P xs)"
  by (induction xs) auto

lemma remove1_singleton_subset: "set xs \<subseteq> {x} \<Longrightarrow> length xs \<le> 1 \<Longrightarrow> remove1 x xs = []"
  by (cases xs) auto

lemma count_list_remove1:
  "count_list (remove1 x xs) y = (if x = y then count_list xs y - 1 else count_list xs y)"
  by (induction xs) (auto simp: count_list_0_iff)

lemma count_list_pos [simp]: "0 < count_list xs x \<longleftrightarrow> x \<in> set xs"
  by (metis count_list_0_iff gr0I less_irrefl)

lemma prefix_appendI: "xs @ ys = zs \<Longrightarrow> prefix xs zs"
  by (auto simp: prefix_def)

lemma sum_list_map_update:
  fixes f :: "'a \<Rightarrow> 'b::comm_monoid_add"
  shows "i < length xs \<Longrightarrow> sum_list (map f (xs[i := y])) + f (xs ! i) = sum_list (map f xs) + f y"
proof (induction xs arbitrary: i)
  case Nil
  then show ?case by simp
next
  case (Cons x xs)
  then show ?case by (cases i) (auto simp: ac_simps)
qed

section \<open>Numbers as text\<close>

text \<open>
  The digits \<^verbatim>\<open>std::to_string\<close> and \<^verbatim>\<open>operator<<\<close> print for a non-negative number,
  in base 10 or (after \<^verbatim>\<open>std::hex\<close>) in lower-case base 16.
\<close>

definition digit_char :: "nat \<Rightarrow> char" where
  "digit_char d = (if d < 10 then char_of (48 + d) else char_of (87 + d))"

definition digit_value :: "char \<Rightarrow> nat" where
  "digit_value c = (let n = of_char c :: nat in if n < 58 then n - 48 else n - 87)"

fun show_base :: "nat \<Rightarrow> nat \<Rightarrow> string" where
  "show_base b n =
     (if b < 2 \<or> n < b then [digit_char n] else show_base b (n div b) @ [digit_char (n mod b)])"

declare show_base.simps [simp del]

abbreviation to_string :: "nat \<Rightarrow> string" where
  "to_string n \<equiv> show_base 10 n"

abbreviation to_hex :: "nat \<Rightarrow> string" where
  "to_hex n \<equiv> show_base 16 n"

definition read_base :: "nat \<Rightarrow> string \<Rightarrow> nat" where
  "read_base b s = foldl (\<lambda>a c. a * b + digit_value c) 0 s"

lemma digit_value_char: "d < 16 \<Longrightarrow> digit_value (digit_char d) = d"
  by (auto simp: digit_value_def digit_char_def Let_def)

lemma show_base_not_empty [simp]: "show_base b n \<noteq> []"
  by (subst show_base.simps) simp

lemma read_show_base: "2 \<le> b \<Longrightarrow> b \<le> 16 \<Longrightarrow> read_base b (show_base b n) = n"
proof (induction b n rule: show_base.induct)
  case (1 b n)
  show ?case
  proof (cases "n < b")
    case True
    with "1.prems" show ?thesis
      by (simp add: show_base.simps [of b n] read_base_def digit_value_char)
  next
    case False
    with "1.prems" have "read_base b (show_base b (n div b)) = n div b"
      by (intro "1.IH") auto
    moreover have "n mod b < 16"
      using "1.prems" mod_less_divisor [of b n] by linarith
    ultimately show ?thesis
      using False "1.prems"
      by (simp add: show_base.simps [of b n] read_base_def digit_value_char)
  qed
qed

text \<open>Signed counts, as \<^verbatim>\<open>std::chrono::seconds::count()\<close> prints them.\<close>

definition show_int :: "int \<Rightarrow> string" where
  "show_int i = (if i < 0 then ''-'' @ to_string (nat (- i)) else to_string (nat i))"

text \<open>The character of the escape sequence for a line feed, as a string.\<close>

definition newline :: string where
  "newline = [char_of (10 :: nat)]"

end
