(* ===== verification/Async_Queue.thy ===== *)
theory Async_Queue
  imports Prelude
begin

text \<open>
  \<^verbatim>\<open>lib/util/detail/async_queue_impl.hpp\<close> and \<^verbatim>\<open>lib/util/async_queue.hpp\<close>: an
  asynchronous queue with at most one waiting consumer. Its operations are functions
  dispatched to the queue's default executor; that executor is a list of tasks, and the
  closures posted to the consumer's executor are recorded in order. \<open>async_pop\<close> runs its
  first two assignments on the caller's thread, so the interleaving of those with the
  executor is modelled too.
\<close>

section \<open>State and operations\<close>

datatype waiting_state = Not_waiting | Waiting

datatype 'v aq_task = Push_task 'v | Stop_task | Complete_task

text \<open>
  \<open>aq_handler\<close> is \<^verbatim>\<open>handler_\<close> (\<open>None\<close> when empty or moved from); a post is the
  closure given to \<^verbatim>\<open>net::post\<close>: the handler moved into it and its two arguments.
\<close>

record ('h, 'v) async_queue =
  aq_state :: waiting_state
  aq_handler :: "'h option"
  aq_values :: "'v list"
  aq_ec :: error_code
  aq_tasks :: "'v aq_task list"
  aq_posts :: "('h option \<times> error_code \<times> 'v) list"

definition aq_construct :: "('h, 'v) async_queue" where
  "aq_construct = \<lparr>aq_state = Not_waiting, aq_handler = None, aq_values = [], aq_ec = None,
     aq_tasks = [], aq_posts = []\<rparr>"

text \<open>\<open>dflt\<close> is the value-initialised \<^verbatim>\<open>value_type()\<close> passed along with an error.\<close>

definition aq_maybe_complete :: "'v \<Rightarrow> ('h, 'v) async_queue \<Rightarrow> ('h, 'v) async_queue" where
  "aq_maybe_complete dflt q =
     (if aq_values q = [] \<and> aq_ec q = None then q
      else if aq_state q \<noteq> Waiting then q\<lparr>aq_state := Not_waiting\<rparr>
      else if aq_ec q \<noteq> None then
        q\<lparr>aq_state := Not_waiting, aq_handler := None,
          aq_posts := aq_posts q @ [(aq_handler q, aq_ec q, dflt)], aq_ec := None\<rparr>
      else
        q\<lparr>aq_state := Not_waiting, aq_handler := None,
          aq_posts := aq_posts q @ [(aq_handler q, None, hd (aq_values q))],
          aq_values := tl (aq_values q)\<rparr>)"

fun aq_run_task :: "'v \<Rightarrow> 'v aq_task \<Rightarrow> ('h, 'v) async_queue \<Rightarrow> ('h, 'v) async_queue" where
  "aq_run_task dflt (Push_task v) q =
     aq_maybe_complete dflt (q\<lparr>aq_values := aq_values q @ [v]\<rparr>)"
| "aq_run_task dflt Stop_task q =
     aq_maybe_complete dflt (q\<lparr>aq_ec := Some operation_aborted, aq_values := []\<rparr>)"
| "aq_run_task dflt Complete_task q = aq_maybe_complete dflt q"

text \<open>
  \<^verbatim>\<open>net::dispatch\<close>: a call from inside the executor runs the function at once, any other
  call queues it.
\<close>

definition aq_dispatch ::
    "bool \<Rightarrow> 'v \<Rightarrow> 'v aq_task \<Rightarrow> ('h, 'v) async_queue \<Rightarrow> ('h, 'v) async_queue" where
  "aq_dispatch inside dflt t q =
     (if inside then aq_run_task dflt t q else q\<lparr>aq_tasks := aq_tasks q @ [t]\<rparr>)"

definition aq_push :: "bool \<Rightarrow> 'v \<Rightarrow> 'v \<Rightarrow> ('h, 'v) async_queue \<Rightarrow> ('h, 'v) async_queue" where
  "aq_push inside dflt v q = aq_dispatch inside dflt (Push_task v) q"

definition aq_stop :: "bool \<Rightarrow> 'v \<Rightarrow> ('h, 'v) async_queue \<Rightarrow> ('h, 'v) async_queue" where
  "aq_stop inside dflt q = aq_dispatch inside dflt Stop_task q"

text \<open>The three statements of \<^verbatim>\<open>initiate\<close>, on the caller's thread.\<close>

definition aq_store_handler :: "'h \<Rightarrow> ('h, 'v) async_queue \<Rightarrow> ('h, 'v) async_queue" where
  "aq_store_handler h q = q\<lparr>aq_handler := Some h\<rparr>"

definition aq_arm :: "('h, 'v) async_queue \<Rightarrow> ('h, 'v) async_queue" where
  "aq_arm q = q\<lparr>aq_state := Waiting\<rparr>"

definition aq_async_pop :: "bool \<Rightarrow> 'v \<Rightarrow> 'h \<Rightarrow> ('h, 'v) async_queue \<Rightarrow> ('h, 'v) async_queue result" where
  "aq_async_pop inside dflt h q =
     and_then (check (aq_state q = Not_waiting) ''state_ == not_waiting'' q) (\<lambda>q.
       Inr (aq_dispatch inside dflt Complete_task (aq_arm (aq_store_handler h q))))"

text \<open>One turn of the default executor: the front task, if any.\<close>

definition aq_exec :: "'v \<Rightarrow> ('h, 'v) async_queue \<Rightarrow> ('h, 'v) async_queue" where
  "aq_exec dflt q =
     (case aq_tasks q of
        [] \<Rightarrow> q
      | t # ts \<Rightarrow> aq_run_task dflt t (q\<lparr>aq_tasks := ts\<rparr>))"

lemmas aq_defs [model_defs] =
  aq_construct_def aq_maybe_complete_def aq_dispatch_def aq_push_def aq_stop_def
  aq_store_handler_def aq_arm_def aq_async_pop_def aq_exec_def

section \<open>The owning handle\<close>

text \<open>
  \<^verbatim>\<open>basic_async_queue\<close> holds an \<^verbatim>\<open>intrusive_ptr\<close> to the implementation; a
  moved-from handle holds null. The implementations live in a store indexed by pointers.
\<close>

type_synonym ('h, 'v) aq_store = "nat \<Rightarrow> ('h, 'v) async_queue"

text \<open>The constructor allocates an implementation, here at \<open>p\<close>.\<close>

definition baq_construct :: "nat \<Rightarrow> ('h, 'v) aq_store \<Rightarrow> nat option \<times> ('h, 'v) aq_store" where
  "baq_construct p m = (Some p, m(p := aq_construct))"

definition baq_move :: "nat option \<Rightarrow> nat option \<times> nat option" where
  "baq_move other = (other, None)"

definition baq_destroy :: "bool \<Rightarrow> 'v \<Rightarrow> nat option \<Rightarrow> ('h, 'v) aq_store \<Rightarrow> ('h, 'v) aq_store" where
  "baq_destroy inside dflt impl m =
     (case impl of None \<Rightarrow> m | Some p \<Rightarrow> m(p := aq_stop inside dflt (m p)))"

text \<open>\<open>this\<close> and \<open>other\<close> after the assignment: a temporary takes \<open>other\<close>, is swapped with
  \<open>this\<close>, and its destructor runs.\<close>

definition baq_assign ::
    "bool \<Rightarrow> 'v \<Rightarrow> nat option \<Rightarrow> nat option \<Rightarrow> ('h, 'v) aq_store \<Rightarrow>
       nat option \<times> nat option \<times> ('h, 'v) aq_store" where
  "baq_assign inside dflt this other m =
     (let (tmp, other') = baq_move other; (this', tmp') = (tmp, this)
      in (this', other', baq_destroy inside dflt tmp' m))"

definition baq_assign_self ::
    "bool \<Rightarrow> 'v \<Rightarrow> nat option \<Rightarrow> ('h, 'v) aq_store \<Rightarrow> nat option \<times> ('h, 'v) aq_store" where
  "baq_assign_self inside dflt this m =
     (let (tmp, this1) = baq_move this; (this', tmp') = (tmp, this1)
      in (this', baq_destroy inside dflt tmp' m))"

definition baq_push :: "bool \<Rightarrow> 'v \<Rightarrow> 'v \<Rightarrow> nat option \<Rightarrow> ('h, 'v) aq_store \<Rightarrow> ('h, 'v) aq_store result" where
  "baq_push inside dflt v impl m =
     (case impl of
        None \<Rightarrow> Inl (Undefined ''null impl_'')
      | Some p \<Rightarrow> Inr (m(p := aq_push inside dflt v (m p))))"

definition baq_stop :: "bool \<Rightarrow> 'v \<Rightarrow> nat option \<Rightarrow> ('h, 'v) aq_store \<Rightarrow> ('h, 'v) aq_store result" where
  "baq_stop inside dflt impl m =
     (case impl of
        None \<Rightarrow> Inl (Undefined ''null impl_'')
      | Some p \<Rightarrow> Inr (m(p := aq_stop inside dflt (m p))))"

definition baq_async_pop ::
    "bool \<Rightarrow> 'v \<Rightarrow> 'h \<Rightarrow> nat option \<Rightarrow> ('h, 'v) aq_store \<Rightarrow> ('h, 'v) aq_store result" where
  "baq_async_pop inside dflt h impl m =
     (case impl of
        None \<Rightarrow> Inl (Undefined ''null impl_'')
      | Some p \<Rightarrow> and_then (aq_async_pop inside dflt h (m p)) (\<lambda>q. Inr (m(p := q))))"

section \<open>Interleaving with the caller\<close>

text \<open>
  The consumer's thread inside \<open>async_pop\<close> (before it, after storing the handler, after
  setting the state), producers that push or stop from other threads, and the executor
  running tasks, in any order.
\<close>

datatype pop_phase = Outside | Handler_stored | Armed

datatype ('h, 'v) aq_event =
    Pop_begin 'h
  | Pop_arm
  | Pop_dispatch
  | Push_call 'v
  | Stop_call
  | Exec

type_synonym ('h, 'v) aq_config = "('h, 'v) async_queue \<times> pop_phase"

fun aq_enabled :: "('h, 'v) aq_config \<Rightarrow> ('h, 'v) aq_event \<Rightarrow> bool" where
  "aq_enabled (q, pc) (Pop_begin h) = (pc = Outside \<and> aq_state q = Not_waiting)"
| "aq_enabled (q, pc) Pop_arm = (pc = Handler_stored)"
| "aq_enabled (q, pc) Pop_dispatch = (pc = Armed)"
| "aq_enabled (q, pc) (Push_call v) = True"
| "aq_enabled (q, pc) Stop_call = True"
| "aq_enabled (q, pc) Exec = (aq_tasks q \<noteq> [])"

fun aq_step :: "'v \<Rightarrow> ('h, 'v) aq_config \<Rightarrow> ('h, 'v) aq_event \<Rightarrow> ('h, 'v) aq_config result" where
  "aq_step dflt (q, pc) (Pop_begin h) =
     and_then (check (aq_state q = Not_waiting) ''state_ == not_waiting'' q)
       (\<lambda>q. Inr (aq_store_handler h q, Handler_stored))"
| "aq_step dflt (q, pc) Pop_arm = Inr (aq_arm q, Armed)"
| "aq_step dflt (q, pc) Pop_dispatch = Inr (aq_dispatch False dflt Complete_task q, Outside)"
| "aq_step dflt (q, pc) (Push_call v) = Inr (aq_push False dflt v q, pc)"
| "aq_step dflt (q, pc) Stop_call = Inr (aq_stop False dflt q, pc)"
| "aq_step dflt (q, pc) Exec = Inr (aq_exec dflt q, pc)"

abbreviation aq_init :: "('h, 'v) aq_config" where
  "aq_init \<equiv> (aq_construct, Outside)"

text \<open>Running \<open>async_pop\<close> without interleaving is the composition of its three steps.\<close>

lemma aq_async_pop_phases:
  "aq_state q = Not_waiting \<Longrightarrow>
   run aq_enabled (aq_step dflt) (q, Outside) [Pop_begin h, Pop_arm, Pop_dispatch] =
     Some (projr (aq_async_pop False dflt h q), Outside)"
  by (simp add: aq_defs)

section \<open>Invariants\<close>

definition aq_inv :: "('h, 'v) aq_config \<Rightarrow> bool" where
  "aq_inv c = (case c of (q, pc) \<Rightarrow>
     (pc = Handler_stored \<longrightarrow> aq_state q = Not_waiting \<and> aq_handler q \<noteq> None) \<and>
     (aq_state q = Waiting \<longrightarrow> aq_handler q \<noteq> None) \<and>
     (aq_state q = Not_waiting \<longrightarrow> pc \<noteq> Handler_stored \<longrightarrow> aq_handler q = None) \<and>
     (pc = Outside \<longrightarrow> aq_state q = Waiting \<longrightarrow> aq_values q \<noteq> [] \<or> aq_ec q \<noteq> None \<longrightarrow>
        Complete_task \<in> set (aq_tasks q)))"

lemma aq_inv_init: "aq_inv aq_init"
  by (simp add: aq_inv_def aq_construct_def)

lemma aq_run_task_frame [simp]:
  "aq_tasks (aq_run_task dflt t q) = aq_tasks q"
  by (cases t) (simp_all add: aq_maybe_complete_def)

lemma aq_run_task_idle:
  "aq_state q = Not_waiting \<Longrightarrow>
     aq_state (aq_run_task dflt t q) = Not_waiting \<and> aq_handler (aq_run_task dflt t q) = aq_handler q"
  by (cases t) (auto simp: aq_maybe_complete_def)

text \<open>A task run while a consumer waits either completes the consumer, or leaves nothing to deliver.\<close>

lemma aq_run_task_waiting:
  assumes "aq_state q = Waiting"
  shows "(aq_state (aq_run_task dflt t q) = Not_waiting \<and> aq_handler (aq_run_task dflt t q) = None) \<or>
    (aq_state (aq_run_task dflt t q) = Waiting \<and> aq_handler (aq_run_task dflt t q) = aq_handler q \<and>
     aq_values (aq_run_task dflt t q) = [] \<and> aq_ec (aq_run_task dflt t q) = None)"
  using assms by (cases t) (auto simp: aq_maybe_complete_def)

lemma aq_inv_exec: "aq_inv (q, pc) \<Longrightarrow> aq_inv (aq_exec dflt q, pc)"
proof (cases "aq_tasks q")
  case (Cons t ts)
  assume inv: "aq_inv (q, pc)"
  show ?thesis
  proof (cases "aq_state q")
    case Not_waiting
    with inv Cons aq_run_task_idle [of "q\<lparr>aq_tasks := ts\<rparr>" dflt t] show ?thesis
      by (auto simp: aq_inv_def aq_exec_def)
  next
    case Waiting
    with inv Cons aq_run_task_waiting [of "q\<lparr>aq_tasks := ts\<rparr>" dflt t] show ?thesis
      by (auto simp: aq_inv_def aq_exec_def)
  qed
qed (simp add: aq_exec_def)

lemma aq_inv_step: "aq_inv c \<Longrightarrow> aq_enabled c e \<Longrightarrow> aq_step dflt c e = Inr d \<Longrightarrow> aq_inv d"
proof (cases c)
  case (Pair q pc)
  assume "aq_inv c" "aq_enabled c e" "aq_step dflt c e = Inr d"
  with Pair show ?thesis
    by (cases e) (auto simp: aq_inv_exec, auto simp: aq_inv_def aq_defs and_then_Inr)
qed

lemma aq_reachable_inv: "reachable aq_enabled (aq_step dflt) aq_init c \<Longrightarrow> aq_inv c"
  by (induction rule: reachable_invariant) (auto intro: aq_inv_init aq_inv_step)

section \<open>What is delivered\<close>

fun pops :: "('h, 'v) aq_event list \<Rightarrow> 'h list" where
  "pops [] = []"
| "pops (Pop_begin h # es) = h # pops es"
| "pops (_ # es) = pops es"

fun pushes :: "('h, 'v) aq_event list \<Rightarrow> 'v list" where
  "pushes [] = []"
| "pushes (Push_call v # es) = v # pushes es"
| "pushes (_ # es) = pushes es"

definition aq_outstanding :: "('h, 'v) async_queue \<Rightarrow> 'h option list" where
  "aq_outstanding q = (case aq_handler q of None \<Rightarrow> [] | Some h \<Rightarrow> [Some h])"

definition aq_consumers :: "('h, 'v) async_queue \<Rightarrow> 'h option list" where
  "aq_consumers q = map fst (aq_posts q) @ aq_outstanding q"

definition aq_delivered :: "('h, 'v) async_queue \<Rightarrow> 'v list" where
  "aq_delivered q = map (snd \<circ> snd) (filter (\<lambda>p. fst (snd p) = None) (aq_posts q))"

fun task_values :: "'v aq_task list \<Rightarrow> 'v list" where
  "task_values [] = []"
| "task_values (Push_task v # ts) = v # task_values ts"
| "task_values (_ # ts) = task_values ts"

lemma task_values_append [simp]: "task_values (ts @ us) = task_values ts @ task_values us"
  by (induction ts rule: task_values.induct) auto

lemma task_values_Cons: "task_values (t # ts) = task_values [t] @ task_values ts"
  by (cases t) auto

text \<open>Everything handed to the queue so far: delivered, held, or still to be executed.\<close>

definition aq_stream :: "('h, 'v) async_queue \<Rightarrow> 'v list" where
  "aq_stream q = aq_delivered q @ aq_values q @ task_values (aq_tasks q)"

lemma aq_maybe_complete_keeps:
  "aq_delivered (aq_maybe_complete dflt q) @ aq_values (aq_maybe_complete dflt q) =
     aq_delivered q @ aq_values q"
  by (auto simp: aq_maybe_complete_def aq_delivered_def)

lemma aq_delivered_frame [simp]:
  "aq_delivered (q\<lparr>aq_values := vs\<rparr>) = aq_delivered q"
  "aq_delivered (q\<lparr>aq_tasks := ts\<rparr>) = aq_delivered q"
  "aq_delivered (q\<lparr>aq_ec := x\<rparr>) = aq_delivered q"
  "aq_delivered (q\<lparr>aq_handler := h\<rparr>) = aq_delivered q"
  "aq_delivered (q\<lparr>aq_state := w\<rparr>) = aq_delivered q"
  by (simp_all add: aq_delivered_def)

lemma aq_run_task_keeps:
  "aq_delivered (aq_run_task dflt t q) @ aq_values (aq_run_task dflt t q) =
     aq_delivered q @ (if t = Stop_task then [] else aq_values q @ task_values [t])"
  by (cases t) (simp_all add: aq_maybe_complete_keeps)

lemma aq_exec_stream_exact:
  assumes "Stop_task \<notin> set (aq_tasks q)"
  shows "aq_stream (aq_exec dflt q) = aq_stream q"
proof (cases "aq_tasks q")
  case (Cons t ts)
  with assms have "t \<noteq> Stop_task" by auto
  with Cons aq_run_task_keeps [of dflt t "q\<lparr>aq_tasks := ts\<rparr>"] show ?thesis
    by (simp add: aq_stream_def aq_exec_def task_values_Cons [of t ts] flip: append_assoc)
qed (simp add: aq_exec_def)

lemma aq_exec_stream: "subseq (aq_stream (aq_exec dflt q)) (aq_stream q)"
proof (cases "aq_tasks q")
  case (Cons t ts)
  show ?thesis
  proof (cases "t = Stop_task")
    case True
    have "aq_stream (aq_exec dflt q) = aq_delivered q @ task_values ts"
      using True Cons aq_run_task_keeps [of dflt t "q\<lparr>aq_tasks := ts\<rparr>"]
        aq_run_task_frame [of dflt t "q\<lparr>aq_tasks := ts\<rparr>"]
      by (simp add: aq_stream_def aq_exec_def del: aq_run_task_frame aq_run_task.simps flip: append_assoc)
    moreover have "subseq (aq_delivered q @ task_values ts) (aq_delivered q @ (aq_values q @ task_values ts))"
      by (intro list_emb_append_mono list_emb_append2) simp_all
    ultimately show ?thesis
      using True Cons by (simp add: aq_stream_def)
  next
    case False
    then show ?thesis
      using Cons aq_run_task_keeps [of dflt t "q\<lparr>aq_tasks := ts\<rparr>"]
      by (simp add: aq_stream_def aq_exec_def task_values_Cons [of t ts] flip: append_assoc)
  qed
qed (simp add: aq_exec_def)

lemma aq_exec_tasks: "set (aq_tasks (aq_exec dflt q)) \<subseteq> set (aq_tasks q)"
  by (cases "aq_tasks q") (auto simp: aq_exec_def)

lemma pushes_Cons: "pushes (e # es) = pushes [e] @ pushes es"
  by (cases e) auto

lemma pops_Cons: "pops (e # es) = pops [e] @ pops es"
  by (cases e) auto

lemma aq_step_stream:
  assumes "aq_step dflt (q, pc) e = Inr (q', pc')"
  shows "subseq (aq_stream q') (aq_stream q @ pushes [e])"
  using assms aq_exec_stream [of dflt q]
  by (cases e) (auto simp: aq_stream_def aq_defs and_then_Inr subseq_append')

lemma aq_step_stream_exact:
  assumes "aq_step dflt (q, pc) e = Inr (q', pc')" "e \<noteq> Stop_call" "Stop_task \<notin> set (aq_tasks q)"
  shows "aq_stream q' = aq_stream q @ pushes [e] \<and> Stop_task \<notin> set (aq_tasks q')"
  using assms aq_exec_stream_exact [of q dflt] aq_exec_tasks [of dflt q]
  by (cases e) (auto simp: aq_stream_def aq_dispatch_def aq_push_def aq_stop_def aq_arm_def
      aq_store_handler_def and_then_Inr)

lemma aq_run_stream:
  "run aq_enabled (aq_step dflt) (q, pc) es = Some (q', pc') \<Longrightarrow>
     subseq (aq_stream q') (aq_stream q @ pushes es)"
proof (induction es arbitrary: q pc)
  case Nil
  then show ?case by simp
next
  case (Cons e es)
  then obtain q1 pc1 where 1: "aq_step dflt (q, pc) e = Inr (q1, pc1)"
    "run aq_enabled (aq_step dflt) (q1, pc1) es = Some (q', pc')"
    by (auto simp: run_Cons_Some simp del: run.simps)
  have "subseq (aq_stream q1 @ pushes es) ((aq_stream q @ pushes [e]) @ pushes es)"
    using aq_step_stream [OF 1(1)] by (rule list_emb_append_mono) simp
  with Cons.IH [OF 1(2)] show ?case
    by (subst pushes_Cons) (metis append_assoc subseq_order.order_trans)
qed

lemma aq_run_stream_exact:
  "run aq_enabled (aq_step dflt) (q, pc) es = Some (q', pc') \<Longrightarrow> Stop_call \<notin> set es \<Longrightarrow>
     Stop_task \<notin> set (aq_tasks q) \<Longrightarrow> aq_stream q' = aq_stream q @ pushes es"
proof (induction es arbitrary: q pc)
  case Nil
  then show ?case by simp
next
  case (Cons e es)
  then obtain q1 pc1 where 1: "aq_step dflt (q, pc) e = Inr (q1, pc1)"
    "run aq_enabled (aq_step dflt) (q1, pc1) es = Some (q', pc')"
    by (auto simp: run_Cons_Some simp del: run.simps)
  have "aq_stream q1 = aq_stream q @ pushes [e]" "Stop_task \<notin> set (aq_tasks q1)"
    using aq_step_stream_exact [OF 1(1)] Cons.prems by auto
  with Cons.IH [OF 1(2)] Cons.prems(2) show ?case
    by (subst pushes_Cons) simp
qed

text \<open>Consumers: each one is either posted, once, or outstanding.\<close>

lemma aq_maybe_complete_consumers:
  "aq_state q = Waiting \<longrightarrow> aq_handler q \<noteq> None \<Longrightarrow>
     aq_consumers (aq_maybe_complete dflt q) = aq_consumers q"
  by (auto simp: aq_maybe_complete_def aq_consumers_def aq_outstanding_def split: option.splits)

lemma aq_consumers_frame [simp]:
  "aq_consumers (q\<lparr>aq_values := vs\<rparr>) = aq_consumers q"
  "aq_consumers (q\<lparr>aq_tasks := ts\<rparr>) = aq_consumers q"
  "aq_consumers (q\<lparr>aq_ec := x\<rparr>) = aq_consumers q"
  "aq_consumers (q\<lparr>aq_state := w\<rparr>) = aq_consumers q"
  by (simp_all add: aq_consumers_def aq_outstanding_def)

lemma aq_run_task_consumers:
  "aq_state q = Waiting \<longrightarrow> aq_handler q \<noteq> None \<Longrightarrow> aq_consumers (aq_run_task dflt t q) = aq_consumers q"
  by (cases t) (simp_all add: aq_maybe_complete_consumers)

lemma aq_step_consumers:
  assumes "aq_inv (q, pc)" "aq_enabled (q, pc) e" "aq_step dflt (q, pc) e = Inr (q', pc')"
  shows "aq_consumers q' = aq_consumers q @ map Some (pops [e])"
proof (cases e)
  case Exec
  then obtain t ts where "aq_tasks q = t # ts" using assms(2) by (cases "aq_tasks q") auto
  with Exec assms(1,3) show ?thesis
    using aq_run_task_consumers [of "q\<lparr>aq_tasks := ts\<rparr>" dflt t] by (auto simp: aq_exec_def aq_inv_def)
next
  case (Pop_begin h)
  with assms have "aq_handler q = None" by (auto simp: aq_inv_def)
  with Pop_begin assms show ?thesis
    by (auto simp: aq_defs and_then_Inr aq_consumers_def aq_outstanding_def)
qed (use assms in \<open>auto simp: aq_defs and_then_Inr\<close>)

lemma aq_run_consumers:
  "run aq_enabled (aq_step dflt) (q, pc) es = Some (q', pc') \<Longrightarrow> aq_inv (q, pc) \<Longrightarrow>
     aq_consumers q' = aq_consumers q @ map Some (pops es)"
proof (induction es arbitrary: q pc)
  case Nil
  then show ?case by simp
next
  case (Cons e es)
  then obtain q1 pc1 where 1: "aq_enabled (q, pc) e" "aq_step dflt (q, pc) e = Inr (q1, pc1)"
    "run aq_enabled (aq_step dflt) (q1, pc1) es = Some (q', pc')"
    by (auto simp: run_Cons_Some simp del: run.simps)
  from Cons.IH [OF 1(3) aq_inv_step [OF Cons.prems(2) 1(1,2)]]
    aq_step_consumers [OF Cons.prems(2) 1(1,2)]
  show ?case by (subst pops_Cons) simp
qed

lemma aq_start [simp]:
  "aq_stream aq_construct = []" "aq_consumers aq_construct = []" "aq_tasks aq_construct = []"
  by (simp_all add: aq_stream_def aq_delivered_def aq_construct_def aq_consumers_def aq_outstanding_def)

section \<open>Properties\<close>

text \<open>
  C3. Exactly-once completion under every interleaving of the consumer's calls, the producers
  and the executor: the handlers posted so far, in order, followed by the one still waiting
  (if any), are exactly the handlers passed to \<open>async_pop\<close>; no handler is posted twice and
  no post carries an empty handler.
\<close>

theorem aq_each_pop_completes_once:
  assumes "run aq_enabled (aq_step dflt) aq_init es = Some (q, pc)"
  shows "map fst (aq_posts q) @ aq_outstanding q = map Some (pops es)"
  using aq_run_consumers [OF assms aq_inv_init] by (simp flip: aq_consumers_def)

theorem aq_each_pop_completes_once_witness:
  "\<exists>q pc. run aq_enabled (aq_step CHR ''0'') aq_init
      [Push_call CHR ''a'', Pop_begin (1::nat), Exec, Pop_arm, Pop_dispatch, Stop_call, Exec, Exec] = Some (q, pc) \<and>
    map fst (aq_posts q) @ aq_outstanding q = [Some 1]"
proof -
  have r: "run aq_enabled (aq_step CHR ''0'') aq_init
      [Push_call CHR ''a'', Pop_begin (1::nat), Exec, Pop_arm, Pop_dispatch, Stop_call, Exec, Exec] =
    Some (\<lparr>aq_state = Not_waiting, aq_handler = None, aq_values = [], aq_ec = Some operation_aborted,
        aq_tasks = [], aq_posts = [(Some 1, None, CHR ''a'')]\<rparr>, Outside)"
    by (simp add: aq_defs)
  show ?thesis using r aq_each_pop_completes_once [OF r]
    by (intro exI [where x = "\<lparr>aq_state = Not_waiting, aq_handler = None, aq_values = [],
        aq_ec = Some operation_aborted, aq_tasks = [], aq_posts = [(Some 1, None, CHR ''a'')]\<rparr>"] exI [where x = Outside])
      (simp del: run.simps)
qed

text \<open>
  C18. Delivery is first-in first-out without duplication: the values delivered so far are a
  subsequence of the values pushed, in the order of the pushes; and as long as \<open>stop\<close> is not
  called nothing is lost, every pushed value being delivered, held by the queue or in a task
  still to run.
\<close>

theorem aq_fifo:
  assumes "run aq_enabled (aq_step dflt) aq_init es = Some (q, pc)"
  shows "subseq (aq_delivered q) (pushes es) \<and>
    (Stop_call \<notin> set es \<longrightarrow>
       pushes es = aq_delivered q @ aq_values q @ task_values (aq_tasks q))"
proof -
  have "subseq (aq_delivered q) (aq_stream q)"
    unfolding aq_stream_def by (rule list_emb_prefix) simp
  also have "subseq (aq_stream q) (pushes es)"
    using aq_run_stream [OF assms] by simp
  finally have "subseq (aq_delivered q) (pushes es)" .
  then show ?thesis
    using aq_run_stream_exact [OF assms] by (auto simp flip: aq_stream_def)
qed

theorem aq_fifo_witness:
  "pushes [Push_call CHR ''a'', Push_call CHR ''b'', Exec, Exec, Pop_begin (1::nat), Pop_arm, Pop_dispatch, Exec]
     = [CHR ''a''] @ [CHR ''b''] @ []"
proof -
  have r: "run aq_enabled (aq_step CHR ''0'') aq_init
      [Push_call CHR ''a'', Push_call CHR ''b'', Exec, Exec, Pop_begin (1::nat), Pop_arm, Pop_dispatch, Exec] =
    Some (\<lparr>aq_state = Not_waiting, aq_handler = None, aq_values = [CHR ''b''], aq_ec = None,
        aq_tasks = [], aq_posts = [(Some 1, None, CHR ''a'')]\<rparr>, Outside)"
    by (simp add: aq_defs)
  from aq_fifo [OF r] show ?thesis by (simp add: aq_delivered_def)
qed

text \<open>
  C19. No lost wake-up: in every reachable configuration in which the consumer has left
  \<open>async_pop\<close>, still waits, and the executor has no task left, the queue has neither a
  value nor an error to deliver.
\<close>

theorem aq_no_lost_wakeup:
  assumes "reachable aq_enabled (aq_step dflt) aq_init (q, Outside)"
    and "aq_state q = Waiting" and "aq_tasks q = []"
  shows "aq_values q = [] \<and> aq_ec q = None"
  using aq_reachable_inv [OF assms(1)] assms(2,3) by (auto simp: aq_inv_def)

theorem aq_no_lost_wakeup_witness:
  "\<exists>q. run aq_enabled (aq_step CHR ''0'') aq_init
      [Push_call CHR ''a'', Exec, Pop_begin (1::nat), Pop_arm, Pop_dispatch, Exec,
       Pop_begin 2, Pop_arm, Pop_dispatch, Exec] = Some (q, Outside) \<and>
     aq_state q = Waiting \<and> aq_tasks q = [] \<and> aq_values q = [] \<and> aq_ec q = None"
proof -
  have r: "run aq_enabled (aq_step CHR ''0'') aq_init
      [Push_call CHR ''a'', Exec, Pop_begin (1::nat), Pop_arm, Pop_dispatch, Exec,
       Pop_begin 2, Pop_arm, Pop_dispatch, Exec] =
    Some (\<lparr>aq_state = Waiting, aq_handler = Some 2, aq_values = [], aq_ec = None,
        aq_tasks = [], aq_posts = [(Some 1, None, CHR ''a'')]\<rparr>, Outside)"
    by (simp add: aq_defs)
  show ?thesis using r aq_no_lost_wakeup [OF run_reachable [OF r]]
    by (intro exI [where x = "\<lparr>aq_state = Waiting, aq_handler = Some 2, aq_values = [], aq_ec = None,
        aq_tasks = [], aq_posts = [(Some 1, None, CHR ''a'')]\<rparr>"]) (simp del: run.simps)
qed

text \<open>
  \<open>stop\<close> aborts one consumer, not all later ones: with a consumer waiting, it posts
  \<open>operation_aborted\<close> to it and clears the error, so the next \<open>async_pop\<close> waits again and
  a value pushed afterwards is delivered normally.
\<close>

theorem aq_stop_aborts_one_pop:
  assumes "aq_state q = Waiting" "aq_ec q = None" "aq_values q = []"
  shows "aq_posts (aq_stop True dflt q) = aq_posts q @ [(aq_handler q, Some operation_aborted, dflt)] \<and>
    (\<exists>q2. aq_async_pop True dflt h (aq_stop True dflt q) = Inr q2 \<and>
       aq_state q2 = Waiting \<and> aq_posts q2 = aq_posts (aq_stop True dflt q) \<and>
       aq_posts (aq_push True dflt v q2) = aq_posts q2 @ [(Some h, None, v)])"
  using assms by (simp add: aq_defs)

theorem aq_stop_aborts_one_pop_witness:
  "map (fst \<circ> snd) (aq_posts (aq_stop True CHR ''0''
     (projr (aq_async_pop True CHR ''0'' (1::nat) aq_construct)))) = [Some operation_aborted]"
proof -
  let ?q = "projr (aq_async_pop True CHR ''0'' (1::nat) aq_construct)"
  have "aq_state ?q = Waiting" "aq_ec ?q = None" "aq_values ?q = []" "aq_posts ?q = []"
    by (simp_all add: aq_defs)
  with aq_stop_aborts_one_pop [of ?q "CHR ''0''"] show ?thesis by simp
qed

text \<open>
  Assigning one owning handle to another stops the queue the target owned and no other,
  and assigning a handle to itself changes nothing.
\<close>

theorem baq_assign_stops_old_queue:
  "baq_assign inside dflt this other m =
     (other, None, case this of None \<Rightarrow> m | Some p \<Rightarrow> m(p := aq_stop inside dflt (m p))) \<and>
   baq_assign_self inside dflt this m = (this, m)"
  by (simp add: baq_assign_def baq_assign_self_def baq_move_def baq_destroy_def)

end
