(* ===== verification/Poly_Handler.thy ===== *)
theory Poly_Handler
  imports Prelude
begin

text \<open>
  \<^verbatim>\<open>lib/util/poly_handler.hpp\<close>: the move-only, call-once polymorphic completion handler
  with a small-buffer optimisation. The model keeps the storage union and the vtable pointer
  as the code has them, and counts the constructions and destructions of the stored callable,
  so that both what the handler does and what it does with object lifetimes can be stated.
  The interface \<open>one_shot_function\<close> is what the asynchronous queue relies on.
\<close>

section \<open>Storage and vtables\<close>

text \<open>An object of the erased type \<^verbatim>\<open>Actual\<close>, within its lifetime.\<close>

datatype 'f actual = Holding 'f | Moved_from

text \<open>
  The union \<^verbatim>\<open>sbo_storage\<close>: \<open>Raw\<close> bytes, an object in \<^verbatim>\<open>short_\<close>, or the
  \<^verbatim>\<open>unique_ptr\<close> \<^verbatim>\<open>long_\<close> (null or owning a heap block that holds an object).
\<close>

datatype 'f sbo_storage = Raw | Short "'f actual" | Long "'f actual option"

definition sizeof_sbo_storage :: nat where
  "sizeof_sbo_storage = 6 * 8"

text \<open>Objects of type \<^verbatim>\<open>Actual\<close> constructed in, and destroyed in, some storage.\<close>

record census =
  ctors :: nat
  dtors :: nat

definition constructed :: "census \<Rightarrow> census" where
  "constructed w = w\<lparr>ctors := Suc (ctors w)\<rparr>"

definition destructed :: "census \<Rightarrow> census" where
  "destructed w = w\<lparr>dtors := Suc (dtors w)\<rparr>"

lemma census_simps [simp]:
  "ctors (constructed w) = Suc (ctors w)" "dtors (constructed w) = dtors w"
  "dtors (destructed w) = Suc (dtors w)" "ctors (destructed w) = ctors w"
  by (simp_all add: constructed_def destructed_def)

text \<open>The vtable for callables that fit into \<^verbatim>\<open>short_\<close>.\<close>

fun small_destroy :: "'f sbo_storage \<Rightarrow> census \<Rightarrow> ('f sbo_storage \<times> census) result" where
  "small_destroy (Short x) w = Inr (Raw, destructed w)"
| "small_destroy _ w = Inl (Undefined ''~Actual() outside its lifetime'')"

definition small_move_construct_value :: "'f \<Rightarrow> census \<Rightarrow> 'f sbo_storage \<times> census" where
  "small_move_construct_value f w = (Short (Holding f), constructed w)"

fun small_move_construct ::
    "'f sbo_storage \<Rightarrow> census \<Rightarrow> ('f sbo_storage \<times> 'f sbo_storage \<times> census) result" where
  "small_move_construct (Short x) w = Inr (Short x, Short Moved_from, constructed w)"
| "small_move_construct _ w = Inl (Undefined ''move from a dead object'')"

fun small_invoke ::
    "('f \<Rightarrow> 'a \<Rightarrow> 'r) \<Rightarrow> 'a \<Rightarrow> 'f sbo_storage \<Rightarrow> census \<Rightarrow> ('r \<times> 'f sbo_storage \<times> census) result"
where
  "small_invoke ap args (Short (Holding f)) w =
     and_then (small_destroy (Short Moved_from) w) (\<lambda>(st, w'). Inr (ap f args, st, w'))"
| "small_invoke ap args _ w = Inl (Undefined ''call of a dead object'')"

text \<open>
  The vtable for larger callables. \<^verbatim>\<open>invoke\<close> moves the callable out and then resets the
  \<^verbatim>\<open>unique_ptr\<close>, which frees the block; \<^verbatim>\<open>destroy\<close> then finds it null.
\<close>

fun big_destroy :: "'f sbo_storage \<Rightarrow> census \<Rightarrow> ('f sbo_storage \<times> census) result" where
  "big_destroy (Long (Some x)) w = Inr (Raw, destructed w)"
| "big_destroy (Long None) w = Inr (Raw, w)"
| "big_destroy _ w = Inl (Undefined ''long_ is not the active member'')"

definition big_move_construct_value :: "'f \<Rightarrow> census \<Rightarrow> 'f sbo_storage \<times> census" where
  "big_move_construct_value f w = (Long (Some (Holding f)), constructed w)"

fun big_move_construct ::
    "'f sbo_storage \<Rightarrow> census \<Rightarrow> ('f sbo_storage \<times> 'f sbo_storage \<times> census) result" where
  "big_move_construct (Long p) w = Inr (Long p, Long None, w)"
| "big_move_construct _ w = Inl (Undefined ''long_ is not the active member'')"

fun big_invoke ::
    "('f \<Rightarrow> 'a \<Rightarrow> 'r) \<Rightarrow> 'a \<Rightarrow> 'f sbo_storage \<Rightarrow> census \<Rightarrow> ('r \<times> 'f sbo_storage \<times> census) result"
where
  "big_invoke ap args (Long (Some (Holding f))) w =
     and_then (big_destroy (Long None) w) (\<lambda>(st, w'). Inr (ap f args, st, w'))"
| "big_invoke ap args _ w = Inl (Undefined ''call of a dead object'')"

datatype vtable = Small | Big

fun vt_destroy :: "vtable \<Rightarrow> 'f sbo_storage \<Rightarrow> census \<Rightarrow> ('f sbo_storage \<times> census) result" where
  "vt_destroy Small = small_destroy"
| "vt_destroy Big = big_destroy"

fun vt_move_construct ::
    "vtable \<Rightarrow> 'f sbo_storage \<Rightarrow> census \<Rightarrow> ('f sbo_storage \<times> 'f sbo_storage \<times> census) result" where
  "vt_move_construct Small = small_move_construct"
| "vt_move_construct Big = big_move_construct"

fun vt_invoke ::
    "vtable \<Rightarrow> ('f \<Rightarrow> 'a \<Rightarrow> 'r) \<Rightarrow> 'a \<Rightarrow> 'f sbo_storage \<Rightarrow> census \<Rightarrow>
       ('r \<times> 'f sbo_storage \<times> census) result" where
  "vt_invoke Small = small_invoke"
| "vt_invoke Big = big_invoke"

section \<open>The handler\<close>

record 'f poly_handler =
  storage :: "'f sbo_storage"
  kind :: "vtable option"

definition ph_empty :: "'f poly_handler" where
  "ph_empty = \<lparr>storage = Raw, kind = None\<rparr>"

definition ph_make :: "nat \<Rightarrow> 'f \<Rightarrow> census \<Rightarrow> 'f poly_handler \<times> census" where
  "ph_make sizeof_actual f w =
     (if sizeof_actual > sizeof_sbo_storage then
        let (st, w') = big_move_construct_value f w in (\<lparr>storage = st, kind = Some Big\<rparr>, w')
      else
        let (st, w') = small_move_construct_value f w in (\<lparr>storage = st, kind = Some Small\<rparr>, w'))"

text \<open>The move constructor: the new handler, what is left of the source, and the census.\<close>

definition ph_move ::
    "'f poly_handler \<Rightarrow> census \<Rightarrow> ('f poly_handler \<times> 'f poly_handler \<times> census) result" where
  "ph_move other w =
     (case kind other of
        None \<Rightarrow> Inr (\<lparr>storage = Raw, kind = None\<rparr>, other\<lparr>kind := None\<rparr>, w)
      | Some k \<Rightarrow>
          and_then (vt_move_construct k (storage other) w)
            (\<lambda>(st, src, w'). Inr (\<lparr>storage = st, kind = Some k\<rparr>,
                                 \<lparr>storage = src, kind = None\<rparr>, w')))"

definition ph_destroy :: "'f poly_handler \<Rightarrow> census \<Rightarrow> ('f poly_handler \<times> census) result" where
  "ph_destroy h w =
     (case kind h of
        None \<Rightarrow> Inr (h, w)
      | Some k \<Rightarrow> and_then (vt_destroy k (storage h) w) (\<lambda>(st, w'). Inr (h\<lparr>storage := st\<rparr>, w')))"

text \<open>Move assignment, for two distinct handlers: destroy the target, then move-construct it.\<close>

definition ph_assign ::
    "'f poly_handler \<Rightarrow> 'f poly_handler \<Rightarrow> census \<Rightarrow>
       ('f poly_handler \<times> 'f poly_handler \<times> census) result" where
  "ph_assign target other w = and_then (ph_destroy target w) (\<lambda>(_, w'). ph_move other w')"

text \<open>
  The same code when target and source are one object, \<^verbatim>\<open>h = std::move(h)\<close>: there is no test for
  it, so the handler is destroyed and then move-constructed from what the destructor left. When it
  holds a callable, that is a dead object. When it is empty, the storage is not touched; the pointer
  \<^verbatim>\<open>kind_\<close>, a scalar the destructor leaves alone, is taken to be read as null still.
\<close>

definition ph_assign_self ::
    "'f poly_handler \<Rightarrow> census \<Rightarrow> ('f poly_handler \<times> census) result" where
  "ph_assign_self h w =
     and_then (ph_destroy h w) (\<lambda>(h', w').
     and_then (ph_move h' w') (\<lambda>(g, _, w''). Inr (g, w'')))"

definition ph_call ::
    "('f \<Rightarrow> 'a \<Rightarrow> 'r) \<Rightarrow> 'a \<Rightarrow> 'f poly_handler \<Rightarrow> census \<Rightarrow> ('r \<times> 'f poly_handler \<times> census) result"
where
  "ph_call ap args h w =
     (case kind h of
        Some k \<Rightarrow> and_then (vt_invoke k ap args (storage h) w)
                    (\<lambda>(r, st, w'). Inr (r, \<lparr>storage = st, kind = None\<rparr>, w'))
      | None \<Rightarrow> Inl Bad_function_call)"

definition ph_has_value :: "'f poly_handler \<Rightarrow> bool" where
  "ph_has_value h \<longleftrightarrow> kind h \<noteq> None"

lemmas ph_defs [model_defs] =
  ph_empty_def ph_make_def ph_move_def ph_destroy_def ph_assign_def ph_assign_self_def
  ph_call_def ph_has_value_def small_move_construct_value_def big_move_construct_value_def

section \<open>Abstraction: an optional callable\<close>

text \<open>
  What a handler stands for: no callable, or one. Well-formed handlers store a callable, not
  a moved-from object, in the union member their vtable reads.
\<close>

fun ph_held :: "'f poly_handler \<Rightarrow> 'f option" where
  "ph_held \<lparr>storage = Short (Holding f), kind = Some Small\<rparr> = Some f"
| "ph_held \<lparr>storage = Long (Some (Holding f)), kind = Some Big\<rparr> = Some f"
| "ph_held h = None"

definition ph_wf :: "'f poly_handler \<Rightarrow> bool" where
  "ph_wf h \<longleftrightarrow> (kind h = None \<or> ph_held h \<noteq> None)"

lemma ph_held_None: "kind h = None \<Longrightarrow> ph_held h = None"
  by (cases h) auto

lemma ph_cases:
  assumes "ph_wf h"
  obtains (empty) st where "h = \<lparr>storage = st, kind = None\<rparr>"
    | (small) f where "h = \<lparr>storage = Short (Holding f), kind = Some Small\<rparr>"
    | (big) f where "h = \<lparr>storage = Long (Some (Holding f)), kind = Some Big\<rparr>"
  using assms by (cases h rule: ph_held.cases) (auto simp: ph_wf_def)

text \<open>
  The same as a typing of the storage by the vtable: which union member is active and holds an
  object. Nothing is known of the storage of an empty handler.
\<close>

inductive storage_typed :: "vtable option \<Rightarrow> 'f sbo_storage \<Rightarrow> bool" where
  typed_empty: "storage_typed None st"
| typed_small: "storage_typed (Some Small) (Short (Holding f))"
| typed_big: "storage_typed (Some Big) (Long (Some (Holding f)))"

declare storage_typed.intros [intro!]

inductive_cases typed_smallE [elim!]: "storage_typed (Some Small) st"
inductive_cases typed_bigE [elim!]: "storage_typed (Some Big) st"

definition ph_typed :: "'f poly_handler \<Rightarrow> bool" where
  "ph_typed h \<longleftrightarrow> storage_typed (kind h) (storage h)"

lemma ph_typed_wf: "ph_typed h \<longleftrightarrow> ph_wf h"
proof
  assume "ph_typed h"
  then show "ph_wf h"
    by (cases h; cases "kind h"; cases "the (kind h)") (auto simp: ph_typed_def ph_wf_def)
next
  assume "ph_wf h"
  then show "ph_typed h" by (cases rule: ph_cases) (auto simp: ph_typed_def)
qed

section \<open>The interface: a callable that can be called once\<close>

text \<open>
  What a client relies on. \<open>held\<close> is the abstraction function; every operation is
  total on well-formed handlers, except that calling an empty one throws and that assigning a
  filled one to itself is undefined.
\<close>

locale one_shot_function =
  fixes empty :: "'h"
    and create :: "nat \<Rightarrow> 'f \<Rightarrow> 'w \<Rightarrow> 'h \<times> 'w"
    and assign :: "'h \<Rightarrow> 'h \<Rightarrow> 'w \<Rightarrow> ('h \<times> 'h \<times> 'w) result"
    and assign_self :: "'h \<Rightarrow> 'w \<Rightarrow> ('h \<times> 'w) result"
    and call :: "'h \<Rightarrow> 'w \<Rightarrow> ('f \<times> 'h \<times> 'w) result"
    and destroy :: "'h \<Rightarrow> 'w \<Rightarrow> ('h \<times> 'w) result"
    and held :: "'h \<Rightarrow> 'f option"
    and invar :: "'h \<Rightarrow> bool"
  assumes empty_law: "invar empty \<and> held empty = None"
    and create_law: "create n f w = (h, w') \<Longrightarrow> invar h \<and> held h = Some f"
    and assign_law: "invar g \<Longrightarrow> invar h \<Longrightarrow>
      \<exists>g' h' w'. assign g h w = Inr (g', h', w') \<and> invar g' \<and> invar h' \<and>
        held g' = held h \<and> held h' = None"
    and assign_self_law: "invar h \<Longrightarrow>
      (case held h of
         None \<Rightarrow> \<exists>h' w'. assign_self h w = Inr (h', w') \<and> invar h' \<and> held h' = None
       | Some f \<Rightarrow> \<exists>what. assign_self h w = Inl (Undefined what))"
    and call_law: "invar h \<Longrightarrow>
      (case held h of
         None \<Rightarrow> call h w = Inl Bad_function_call
       | Some f \<Rightarrow> \<exists>h' w'. call h w = Inr (f, h', w') \<and> invar h' \<and> held h' = None)"
    and destroy_law: "invar h \<Longrightarrow> \<exists>x. destroy h w = Inr x"

text \<open>
  A client program over a row of handler variables: store a callable in a variable (construct
  a temporary, move-assign it, destroy it), move one variable into another or into itself, call a
  variable and catch \<^verbatim>\<open>std::bad_function_call\<close>. The calls made are recorded in order.
\<close>

datatype 'f ph_command =
    Store nat nat 'f
  | Transfer nat nat
  | Invoke nat

fun ph_exec ::
    "(nat \<Rightarrow> 'f \<Rightarrow> 'w \<Rightarrow> 'h \<times> 'w) \<Rightarrow> ('h \<Rightarrow> 'h \<Rightarrow> 'w \<Rightarrow> ('h \<times> 'h \<times> 'w) result) \<Rightarrow>
     ('h \<Rightarrow> 'w \<Rightarrow> ('h \<times> 'w) result) \<Rightarrow>
     ('h \<Rightarrow> 'w \<Rightarrow> ('f \<times> 'h \<times> 'w) result) \<Rightarrow> ('h \<Rightarrow> 'w \<Rightarrow> ('h \<times> 'w) result) \<Rightarrow>
     'f ph_command \<Rightarrow> 'h list \<times> 'w \<times> 'f list \<Rightarrow> ('h list \<times> 'w \<times> 'f list) result"
where
  "ph_exec mk asg slf app del (Store i n f) (hs, w, log) =
     (if i < length hs then
        (let (tmp, w1) = mk n f w in
         and_then (asg (hs ! i) tmp w1) (\<lambda>(h, tmp', w2).
         and_then (del tmp' w2) (\<lambda>(_, w3). Inr (hs[i := h], w3, log))))
      else Inr (hs, w, log))"
| "ph_exec mk asg slf app del (Transfer i j) (hs, w, log) =
     (if i < length hs \<and> j < length hs then
        (if i = j then
           and_then (slf (hs ! i) w) (\<lambda>(h, w'). Inr (hs[i := h], w', log))
         else
           and_then (asg (hs ! i) (hs ! j) w) (\<lambda>(g, h, w'). Inr (hs[i := g, j := h], w', log)))
      else Inr (hs, w, log))"
| "ph_exec mk asg slf app del (Invoke i) (hs, w, log) =
     (if i < length hs then
        (case app (hs ! i) w of
           Inl x \<Rightarrow> if x = Bad_function_call then Inr (hs, w, log) else Inl x
         | Inr (f, h, w') \<Rightarrow> Inr (hs[i := h], w', log @ [f]))
      else Inr (hs, w, log))"

fun ph_client ::
    "(nat \<Rightarrow> 'f \<Rightarrow> 'w \<Rightarrow> 'h \<times> 'w) \<Rightarrow> ('h \<Rightarrow> 'h \<Rightarrow> 'w \<Rightarrow> ('h \<times> 'h \<times> 'w) result) \<Rightarrow>
     ('h \<Rightarrow> 'w \<Rightarrow> ('h \<times> 'w) result) \<Rightarrow>
     ('h \<Rightarrow> 'w \<Rightarrow> ('f \<times> 'h \<times> 'w) result) \<Rightarrow> ('h \<Rightarrow> 'w \<Rightarrow> ('h \<times> 'w) result) \<Rightarrow>
     'f ph_command list \<Rightarrow> 'h list \<times> 'w \<times> 'f list \<Rightarrow> ('h list \<times> 'w \<times> 'f list) result"
where
  "ph_client mk asg slf app del [] s = Inr s"
| "ph_client mk asg slf app del (c # cs) s =
     and_then (ph_exec mk asg slf app del c s) (ph_client mk asg slf app del cs)"

text \<open>
  The reference: variables that hold at most one callable, with no storage behind them. A program
  means the same whatever the sizes of the callables are, and a variable moved into itself keeps
  what it holds.
\<close>

fun opt_exec :: "'f ph_command \<Rightarrow> 'f option list \<times> 'f list \<Rightarrow> 'f option list \<times> 'f list" where
  "opt_exec (Store i n f) (vs, log) = (vs[i := Some f], log)"
| "opt_exec (Transfer i j) (vs, log) =
     (if i < length vs \<and> j < length vs \<and> i \<noteq> j then (vs[i := vs ! j, j := None], log) else (vs, log))"
| "opt_exec (Invoke i) (vs, log) =
     (if i < length vs then
        (case vs ! i of None \<Rightarrow> (vs, log) | Some f \<Rightarrow> (vs[i := None], log @ [f]))
      else (vs, log))"

fun opt_client :: "'f ph_command list \<Rightarrow> 'f option list \<times> 'f list \<Rightarrow> 'f option list \<times> 'f list" where
  "opt_client [] s = s"
| "opt_client (c # cs) s = opt_client cs (opt_exec c s)"

text \<open>A program that, when run on the reference, moves a filled variable into itself.\<close>

fun self_move :: "'f ph_command \<Rightarrow> 'f option list \<Rightarrow> bool" where
  "self_move (Transfer i j) vs \<longleftrightarrow> i = j \<and> i < length vs \<and> vs ! i \<noteq> None"
| "self_move _ vs \<longleftrightarrow> False"

fun self_moves :: "'f ph_command list \<Rightarrow> 'f option list \<times> 'f list \<Rightarrow> bool" where
  "self_moves [] s \<longleftrightarrow> False"
| "self_moves (c # cs) s \<longleftrightarrow> self_move c (fst s) \<or> self_moves cs (opt_exec c s)"

fun stored_by :: "'f ph_command \<Rightarrow> 'f list" where
  "stored_by (Store i n f) = [f]"
| "stored_by _ = []"

abbreviation stored :: "'f ph_command list \<Rightarrow> 'f list" where
  "stored cs \<equiv> concat (map stored_by cs)"

text \<open>On the reference, no callable is called twice.\<close>

definition opt_bag :: "'f option \<Rightarrow> 'f multiset" where
  "opt_bag v = (case v of None \<Rightarrow> {#} | Some f \<Rightarrow> {#f#})"

lemma opt_bag_simps [simp]: "opt_bag None = {#}" "opt_bag (Some f) = {#f#}"
  by (simp_all add: opt_bag_def)

abbreviation opt_bags :: "'f option list \<Rightarrow> 'f multiset" where
  "opt_bags vs \<equiv> sum_list (map opt_bag vs)"

lemma opt_bags_update:
  "i < length vs \<Longrightarrow> opt_bags (vs[i := v]) + opt_bag (vs ! i) = opt_bags vs + opt_bag v"
  by (rule sum_list_map_update)

lemma opt_exec_bags:
  assumes "opt_exec c (vs, log) = (vs', log')"
  shows "mset log' + opt_bags vs' \<subseteq># mset log + opt_bags vs + mset (stored_by c)"
proof (cases c)
  case (Store i n f)
  have "opt_bags (vs[i := Some f]) \<subseteq># opt_bags vs + {#f#}"
  proof (cases "i < length vs")
    case True
    then show ?thesis
      using opt_bags_update [of i vs "Some f"] by (metis mset_subset_eq_add_left opt_bag_simps(2))
  qed (simp add: list_update_beyond)
  with assms Store show ?thesis by (auto simp: ac_simps)
next
  case (Transfer i j)
  show ?thesis
  proof (cases "i < length vs \<and> j < length vs \<and> i \<noteq> j")
    case True
    have "opt_bags (vs[i := vs ! j, j := None]) + opt_bag (vs ! i) + opt_bag (vs ! j) =
        opt_bags vs + opt_bag (vs ! j)"
      using True opt_bags_update [of i vs "vs ! j"] opt_bags_update [of j "vs[i := vs ! j]" None]
      by (simp add: ac_simps)
    then have "opt_bags (vs[i := vs ! j, j := None]) \<subseteq># opt_bags vs"
      by (metis add_right_cancel mset_subset_eq_add_left)
    with assms Transfer True show ?thesis by auto
  qed (use assms Transfer in auto)
next
  case (Invoke i)
  show ?thesis
  proof (cases "i < length vs \<and> vs ! i \<noteq> None")
    case True
    then obtain f where "vs ! i = Some f" by auto
    with True opt_bags_update [of i vs None] assms Invoke show ?thesis by auto
  qed (use assms Invoke in \<open>auto split: if_splits\<close>)
qed

lemma opt_client_bags:
  "opt_client cs (vs, log) = (vs', log') \<Longrightarrow>
   mset log' + opt_bags vs' \<subseteq># mset log + opt_bags vs + mset (stored cs)"
proof (induction cs arbitrary: vs log)
  case Nil
  then show ?case by simp
next
  case (Cons c cs)
  obtain vs1 log1 where 1: "opt_exec c (vs, log) = (vs1, log1)" by (cases "opt_exec c (vs, log)")
  have "mset log' + opt_bags vs' \<subseteq># mset log1 + opt_bags vs1 + mset (stored cs)"
    using Cons.IH [of vs1 log1] Cons.prems 1 by (simp del: opt_exec.simps)
  with subset_mset.add_right_mono [OF opt_exec_bags [OF 1], of "mset (stored cs)"]
  have "mset log' + opt_bags vs' \<subseteq># mset log + opt_bags vs + mset (stored_by c) + mset (stored cs)"
    by (rule subset_mset.order_trans [rotated])
  then show ?case by (simp add: ac_simps)
qed

context one_shot_function
begin

definition bag :: "'h \<Rightarrow> 'f multiset" where
  "bag h = (case held h of None \<Rightarrow> {#} | Some f \<Rightarrow> {#f#})"

abbreviation good :: "'h list \<Rightarrow> bool" where
  "good hs \<equiv> (\<forall>h \<in> set hs. invar h)"

abbreviation exec :: "'f ph_command \<Rightarrow> 'h list \<times> 'w \<times> 'f list \<Rightarrow> ('h list \<times> 'w \<times> 'f list) result" where
  "exec \<equiv> ph_exec create assign assign_self call destroy"

abbreviation client :: "'f ph_command list \<Rightarrow> 'h list \<times> 'w \<times> 'f list \<Rightarrow> ('h list \<times> 'w \<times> 'f list) result"
where
  "client \<equiv> ph_client create assign assign_self call destroy"

lemma good_update: "good hs \<Longrightarrow> invar h \<Longrightarrow> good (hs[i := h])"
  using set_update_subset_insert by fastforce

text \<open>
  Seen through \<open>held\<close>, a command does what the reference does, unless it moves a filled variable
  into itself.
\<close>

lemma exec_held_Store:
  assumes "good hs" "i < length hs"
  shows "\<exists>hs' w' log'. exec (Store i n f) (hs, w, log) = Inr (hs', w', log') \<and>
    good hs' \<and> (map held hs', log') = opt_exec (Store i n f) (map held hs, log)"
proof -
  obtain tmp w1 where mk: "create n f w = (tmp, w1)" by (cases "create n f w")
  have "invar (hs ! i)" using assms by simp
  then obtain h tmp' w2 where asg: "assign (hs ! i) tmp w1 = Inr (h, tmp', w2)"
    and h: "invar h" "invar tmp'" "held h = Some f"
    using assign_law [of "hs ! i" tmp w1] create_law [OF mk] by auto
  obtain x w3 where ds: "destroy tmp' w2 = Inr (x, w3)"
    using destroy_law [OF h(2), of w2] by (metis surj_pair)
  show ?thesis using assms(2) mk asg ds h good_update [OF assms(1) h(1)] by (simp add: map_update)
qed

lemma exec_held_Transfer:
  assumes "good hs" "i < length hs" "j < length hs" "i \<noteq> j"
  shows "\<exists>hs' w' log'. exec (Transfer i j) (hs, w, log) = Inr (hs', w', log') \<and>
    good hs' \<and> (map held hs', log') = opt_exec (Transfer i j) (map held hs, log)"
proof -
  have "invar (hs ! i)" "invar (hs ! j)" using assms by simp_all
  then obtain g h w' where asg: "assign (hs ! i) (hs ! j) w = Inr (g, h, w')"
    and gh: "invar g" "invar h" "held g = held (hs ! j)" "held h = None"
    using assign_law by metis
  show ?thesis
    using assms asg gh good_update [OF good_update [OF assms(1) gh(1)] gh(2)] by (simp add: map_update)
qed

lemma exec_held_self:
  assumes "good hs" "i < length hs" "held (hs ! i) = None"
  shows "\<exists>hs' w' log'. exec (Transfer i i) (hs, w, log) = Inr (hs', w', log') \<and>
    good hs' \<and> (map held hs', log') = opt_exec (Transfer i i) (map held hs, log)"
proof -
  have inv: "invar (hs ! i)" using assms by simp
  with assign_self_law [OF this, of w] assms(3)
  obtain h w' where h: "assign_self (hs ! i) w = Inr (h, w')" "invar h" "held h = None" by auto
  have "(map held hs)[i := None] = map held hs"
    using assms(2,3) by (metis length_map list_update_id nth_map)
  then show ?thesis using assms h good_update [OF assms(1) h(2)] by (simp add: map_update)
qed

lemma exec_held_Invoke:
  assumes "good hs" "i < length hs"
  shows "\<exists>hs' w' log'. exec (Invoke i) (hs, w, log) = Inr (hs', w', log') \<and>
    good hs' \<and> (map held hs', log') = opt_exec (Invoke i) (map held hs, log)"
proof (cases "held (hs ! i)")
  case None
  have "invar (hs ! i)" using assms by simp
  from call_law [OF this, of w] None assms show ?thesis by simp
next
  case (Some f)
  have "invar (hs ! i)" using assms by simp
  from call_law [OF this, of w] Some
  obtain h w' where h: "call (hs ! i) w = Inr (f, h, w')" "invar h" "held h = None" by auto
  with Some assms(2) good_update [OF assms(1) h(2)] show ?thesis by (simp add: map_update)
qed

lemma exec_held:
  assumes "good hs" "\<not> self_move c (map held hs)"
  shows "\<exists>hs' w' log'. exec c (hs, w, log) = Inr (hs', w', log') \<and>
    good hs' \<and> (map held hs', log') = opt_exec c (map held hs, log)"
proof (cases c)
  case (Store i n f)
  with assms(1) exec_held_Store [OF assms(1)] show ?thesis
    by (cases "i < length hs") (blast, simp add: list_update_beyond)
next
  case (Transfer i j)
  show ?thesis
  proof (cases "i < length hs \<and> j < length hs")
    case True
    with Transfer assms exec_held_Transfer [OF assms(1)] exec_held_self [OF assms(1)] show ?thesis
      by (cases "i = j") (auto simp del: ph_exec.simps opt_exec.simps)
  qed (use assms(1) Transfer in auto)
next
  case (Invoke i)
  with assms(1) exec_held_Invoke [OF assms(1)] show ?thesis
    by (cases "i < length hs") (blast, simp)
qed

lemma exec_self_move:
  assumes "good hs" "self_move c (map held hs)"
  shows "\<exists>what. exec c (hs, w, log) = Inl (Undefined what)"
proof -
  from assms(2) obtain i f where c: "c = Transfer i i" "i < length hs" "held (hs ! i) = Some f"
    by (cases "(c, map held hs)" rule: self_move.cases) auto
  then have "invar (hs ! i)" using assms(1) by simp
  from assign_self_law [OF this, of w] c show ?thesis by auto
qed

text \<open>
  A whole program does what it does on the reference, or, exactly when it moves a filled variable
  into itself on the way, ends in undefined behaviour.
\<close>

lemma client_held:
  "good hs \<Longrightarrow> \<not> self_moves cs (map held hs, log) \<Longrightarrow>
   \<exists>hs' w' log'. client cs (hs, w, log) = Inr (hs', w', log') \<and> good hs' \<and>
     (map held hs', log') = opt_client cs (map held hs, log)"
proof (induction cs arbitrary: hs w log)
  case Nil
  then show ?case by simp
next
  case (Cons c cs)
  obtain hs1 w1 log1 where "exec c (hs, w, log) = Inr (hs1, w1, log1)"
    "good hs1" "(map held hs1, log1) = opt_exec c (map held hs, log)"
    using exec_held [OF Cons.prems(1), of c w log] Cons.prems(2) by auto
  with Cons.IH [of hs1 log1 w1] Cons.prems(2) show ?case by (simp del: ph_exec.simps opt_exec.simps)
qed

lemma client_self_moves:
  "good hs \<Longrightarrow> self_moves cs (map held hs, log) \<Longrightarrow> \<exists>what. client cs (hs, w, log) = Inl (Undefined what)"
proof (induction cs arbitrary: hs w log)
  case Nil
  then show ?case by simp
next
  case (Cons c cs)
  show ?case
  proof (cases "self_move c (map held hs)")
    case True
    with exec_self_move [OF Cons.prems(1), of c w log] show ?thesis by auto
  next
    case False
    then obtain hs1 w1 log1 where "exec c (hs, w, log) = Inr (hs1, w1, log1)"
      "good hs1" "(map held hs1, log1) = opt_exec c (map held hs, log)"
      using exec_held [OF Cons.prems(1), of c w log] by metis
    with Cons.IH [of hs1 log1 w1] Cons.prems(2) False show ?thesis
      by (simp del: ph_exec.simps opt_exec.simps)
  qed
qed

text \<open>The calls a program makes are among the callables that were held or stored.\<close>

lemma client_calls_once:
  assumes "good hs" "\<not> self_moves cs (map held hs, log)"
  shows "\<exists>hs' w' log'. client cs (hs, w, log) = Inr (hs', w', log') \<and>
    mset log' \<subseteq># mset log + opt_bags (map held hs) + mset (stored cs)"
proof -
  obtain hs' w' log' where r: "client cs (hs, w, log) = Inr (hs', w', log')"
    and o: "opt_client cs (map held hs, log) = (map held hs', log')"
    using client_held [OF assms, of w] by metis
  from opt_client_bags [OF o] r show ?thesis
    by (meson mset_subset_eq_add_left subset_mset.order_trans)
qed

end

section \<open>The handler implements the interface\<close>

lemma ph_make_held: "ph_make n f w = (h, w') \<Longrightarrow> ph_wf h \<and> ph_held h = Some f"
  by (auto simp: ph_defs ph_wf_def split: if_splits)

lemma ph_move_total:
  assumes "ph_wf h"
  shows "\<exists>g h' w'. ph_move h w = Inr (g, h', w') \<and> ph_wf g \<and> ph_wf h' \<and>
    ph_held g = ph_held h \<and> ph_held h' = None"
  using assms by (cases rule: ph_cases) (auto simp: ph_defs ph_wf_def)

lemma ph_destroy_total: "ph_wf h \<Longrightarrow> \<exists>x. ph_destroy h w = Inr x"
  by (cases rule: ph_cases) (auto simp: ph_defs)

lemma ph_assign_total:
  assumes "ph_wf g" "ph_wf h"
  shows "\<exists>g' h' w'. ph_assign g h w = Inr (g', h', w') \<and> ph_wf g' \<and> ph_wf h' \<and>
    ph_held g' = ph_held h \<and> ph_held h' = None"
proof -
  obtain x w1 where "ph_destroy g w = Inr (x, w1)"
    using ph_destroy_total [OF assms(1), of w] by (metis surj_pair)
  then show ?thesis using ph_move_total [OF assms(2), of w1] by (simp add: ph_assign_def)
qed

lemma ph_call_held:
  assumes "ph_wf h"
  shows "case ph_held h of
      None \<Rightarrow> ph_call ap args h w = Inl Bad_function_call
    | Some f \<Rightarrow> \<exists>h' w'. ph_call ap args h w = Inr (ap f args, h', w') \<and> ph_wf h' \<and> ph_held h' = None"
  using assms by (cases rule: ph_cases) (auto simp: ph_defs ph_wf_def)

lemma ph_assign_self_held:
  assumes "ph_wf h"
  shows "case ph_held h of
      None \<Rightarrow> \<exists>h' w'. ph_assign_self h w = Inr (h', w') \<and> ph_wf h' \<and> ph_held h' = None
    | Some f \<Rightarrow> \<exists>what. ph_assign_self h w = Inl (Undefined what)"
  using assms by (cases rule: ph_cases) (auto simp: ph_defs ph_wf_def ph_held_None)

abbreviation ph_identify :: "'f poly_handler \<Rightarrow> census \<Rightarrow> ('f \<times> 'f poly_handler \<times> census) result" where
  "ph_identify \<equiv> ph_call (\<lambda>f _. f) ()"

interpretation ph: one_shot_function
  ph_empty ph_make ph_assign ph_assign_self ph_identify ph_destroy ph_held ph_wf
proof unfold_locales
  show "ph_wf ph_empty \<and> ph_held ph_empty = None"
    by (simp add: ph_wf_def ph_empty_def)
  show "ph_make n f w = (h, w') \<Longrightarrow> ph_wf h \<and> ph_held h = Some f" for n f w h w'
    by (rule ph_make_held)
  show "ph_wf g \<Longrightarrow> ph_wf h \<Longrightarrow> \<exists>g' h' w'. ph_assign g h w = Inr (g', h', w') \<and> ph_wf g' \<and>
      ph_wf h' \<and> ph_held g' = ph_held h \<and> ph_held h' = None" for g h w
    by (rule ph_assign_total)
  show "ph_wf h \<Longrightarrow> case ph_held h of
      None \<Rightarrow> \<exists>h' w'. ph_assign_self h w = Inr (h', w') \<and> ph_wf h' \<and> ph_held h' = None
    | Some f \<Rightarrow> \<exists>what. ph_assign_self h w = Inl (Undefined what)" for h w
    by (rule ph_assign_self_held)
  show "ph_wf h \<Longrightarrow> case ph_held h of
      None \<Rightarrow> ph_identify h w = Inl Bad_function_call
    | Some f \<Rightarrow> \<exists>h' w'. ph_identify h w = Inr (f, h', w') \<and> ph_wf h' \<and> ph_held h' = None" for h w
    using ph_call_held [of h "\<lambda>f _. f" "()" w] by simp
  show "ph_wf h \<Longrightarrow> \<exists>x. ph_destroy h w = Inr x" for h w
    by (rule ph_destroy_total)
qed

section \<open>Properties\<close>

abbreviation ph_program ::
    "'f ph_command list \<Rightarrow> 'f poly_handler list \<times> census \<times> 'f list \<Rightarrow>
       ('f poly_handler list \<times> census \<times> 'f list) result" where
  "ph_program \<equiv> ph_client ph_make ph_assign ph_assign_self ph_identify ph_destroy"

lemma fresh_handlers [simp]:
  "ph_wf ph_empty" "ph_held ph_empty = None"
  by (simp_all add: ph_wf_def ph_empty_def)

lemma sum_list_empties [simp]: "sum_list (replicate n {#}) = {#}"
  by (induction n) simp_all

text \<open>
  A callable stored in a handler is called at most once: however a program stores
  callables in handler variables, moves the variables into one another and calls them, if it moves
  no filled variable into itself it runs to its end, and the calls made are, counted with
  multiplicity, among the callables stored.
\<close>

theorem ph_calls_at_most_once:
  assumes "\<not> self_moves cs (replicate n None, [])"
  shows "\<exists>hs w' log. ph_program cs (replicate n ph_empty, w, []) = Inr (hs, w', log) \<and>
     mset log \<subseteq># mset (stored cs)"
  using ph.client_calls_once [where hs = "replicate n ph_empty" and cs = cs and log = "[]" and w = w] assms
  by (simp add: fresh_handlers)

text \<open>
  Calling a handler passes the arguments to the stored callable, whichever side of the
  small-buffer limit the callable is on, and leaves the handler empty: a second call throws
  \<^verbatim>\<open>std::bad_function_call\<close>.
\<close>

theorem ph_call_once_then_throws:
  "case ph_make sz f w of (h, w1) \<Rightarrow>
     ph_has_value h \<and>
     (\<exists>h' w2. ph_call ap args h w1 = Inr (ap f args, h', w2) \<and> \<not> ph_has_value h' \<and>
        (\<forall>ap' args' w3. ph_call ap' args' h' w3 = Inl Bad_function_call))"
  by (auto simp: ph_defs)

text \<open>
  Object lifetimes. Destroying a handler destroys the stored callable exactly once.
  Calling it destroys the stored object only in the small-buffer case: after a call of a
  heap-stored callable the moved-from object is freed without its destructor. Moving a handler
  constructs a second object in the small-buffer case and never destroys the moved-from one.
\<close>

theorem ph_lifetimes:
  assumes "ph_wf h"
  shows "(\<forall>h1 w1. ph_destroy h w = Inr (h1, w1) \<longrightarrow>
        ctors w1 = ctors w \<and> dtors w1 = dtors w + (if kind h = None then 0 else 1)) \<and>
    (\<forall>r h2 w2. ph_call ap args h w = Inr (r, h2, w2) \<longrightarrow>
        ctors w2 = ctors w \<and> dtors w2 = dtors w + (if kind h = Some Small then 1 else 0)) \<and>
    (\<forall>g h3 w3. ph_move h w = Inr (g, h3, w3) \<longrightarrow>
        ctors w3 = ctors w + (if kind h = Some Small then 1 else 0) \<and> dtors w3 = dtors w \<and>
        kind h3 = None)"
  using assms by (cases rule: ph_cases) (auto simp: ph_defs)

text \<open>
  A 64-byte callable, stored and called: one object constructed, none destroyed, and the
  handler no longer refers to it.
\<close>

theorem ph_lifetimes_witness:
  "case ph_make 64 (7::nat) \<lparr>ctors = 0, dtors = 0\<rparr> of (h, w) \<Rightarrow>
     ph_wf h \<and> ctors w = 1 \<and> dtors w = 0 \<and>
     (\<exists>h2 w2. ph_call (\<lambda>f n. f + n) 1 h w = Inr (8, h2, w2) \<and> kind h2 = None \<and> ctors w2 = 1 \<and> dtors w2 = 0)"
proof -
  obtain h w where mk: "ph_make 64 (7::nat) \<lparr>ctors = 0, dtors = 0\<rparr> = (h, w)"
    by (cases "ph_make 64 (7::nat) \<lparr>ctors = 0, dtors = 0\<rparr>")
  then have wf: "ph_wf h" and k: "kind h = Some Big" and c: "ctors w = 1" "dtors w = 0"
    and call: "\<exists>h2 w2. ph_call (\<lambda>f n. f + n) 1 h w = Inr (8, h2, w2) \<and> kind h2 = None"
    by (auto simp: ph_defs ph_wf_def sizeof_sbo_storage_def constructed_def)
  from ph_lifetimes [OF wf, of w "\<lambda>f n. f + n" 1] call show ?thesis
    by (auto simp: mk wf k c)
qed

text \<open>
  C11. The small-buffer optimisation can be observed in one way only. Every program over handler
  variables that moves no filled variable into itself ends normally, whatever the sizes of its
  callables, makes the same calls in the same order and leaves the same callables in its variables
  as over variables that are plain optional callables. A program that does move a filled variable
  into itself, which plain optionals survive, has undefined behaviour: \<^verbatim>\<open>operator=\<close> destroys the
  handler and moves from what it destroyed.
\<close>

theorem ph_equivalent_to_optional:
  "if self_moves cs (replicate n None, []) then
     \<exists>what. ph_program cs (replicate n ph_empty, w, []) = Inl (Undefined what)
   else
     \<exists>hs w' log. ph_program cs (replicate n ph_empty, w, []) = Inr (hs, w', log) \<and>
       (map ph_held hs, log) = opt_client cs (replicate n None, [])"
  using ph.client_held [where hs = "replicate n ph_empty" and cs = cs and log = "[]" and w = w]
    ph.client_self_moves [where hs = "replicate n ph_empty" and cs = cs and log = "[]" and w = w]
  by (simp add: fresh_handlers) blast

text \<open>
  C12. Type safety of the storage, and its one hole. A program over handler variables whose storage is
  typed by their vtables runs to its end with the variables typed again, whatever it stores, moves
  and calls and however large the callables are: no vtable function reads a union member that is not
  active or an object outside its lifetime. The exception is exact: a program reaches such a read
  if and only if it moves a variable that holds a callable into itself.
\<close>

theorem ph_storage_type_safe:
  assumes "\<forall>h \<in> set hs. ph_typed h"
  shows "if self_moves cs (map ph_held hs, log) then
      \<exists>what. ph_program cs (hs, w, log) = Inl (Undefined what)
    else
      \<exists>hs' w' log'. ph_program cs (hs, w, log) = Inr (hs', w', log') \<and> (\<forall>h \<in> set hs'. ph_typed h)"
  using ph.client_held [of hs cs log w] ph.client_self_moves [of hs cs log w] assms
  by (auto simp: ph_typed_wf)

text \<open>Two programs from one typed state: the second one moves variable 1 into itself.\<close>

theorem ph_storage_type_safe_witness:
  "let hs = [\<lparr>storage = Long None, kind = None\<rparr>,
             \<lparr>storage = Short (Holding (5 :: nat)), kind = Some Small\<rparr>]; w = \<lparr>ctors = 1, dtors = 0\<rparr> in
   (\<exists>hs' w' log'. ph_program [Transfer 0 0, Transfer 0 1, Store 1 64 6, Invoke 0, Invoke 0] (hs, w, []) =
      Inr (hs', w', log') \<and> (\<forall>h \<in> set hs'. ph_typed h)) \<and>
   (\<exists>what. ph_program [Transfer 0 0, Store 1 64 6, Transfer 1 1] (hs, w, []) = Inl (Undefined what))"
proof -
  let ?hs = "[\<lparr>storage = Long None, kind = None\<rparr>, \<lparr>storage = Short (Holding (5 :: nat)), kind = Some Small\<rparr>]"
  let ?w = "\<lparr>ctors = 1, dtors = 0\<rparr>"
  have typed: "\<forall>h \<in> set ?hs. ph_typed h" by (auto simp: ph_typed_def)
  show ?thesis
    using ph_storage_type_safe [OF typed, of "[Transfer 0 0, Transfer 0 1, Store 1 64 6, Invoke 0, Invoke 0]" "[]" ?w]
      ph_storage_type_safe [OF typed, of "[Transfer 0 0, Store 1 64 6, Transfer 1 1]" "[]" ?w]
    by (simp del: ph_client.simps)
qed

end
