(* ===== verification/Handler_Queue.thy ===== *)
theory Handler_Queue
  imports Async_Queue Poly_Handler
begin

text \<open>
  The asynchronous queue put together with the function object it stores. Async_Queue describes
  the queue over abstract handlers; here \<^verbatim>\<open>handler_\<close> is a \<^verbatim>\<open>poly_handler\<close> with its storage, every
  move of it is a move of that storage, and the function objects given to \<^verbatim>\<open>net::post\<close> wait on the
  executor \<^verbatim>\<open>handler_executor_\<close> until it runs them. The detailed queue is shown to refine the
  abstract one. Unit_Tests runs the repository's tests on it.
\<close>

section \<open>State\<close>

text \<open>
  A function object posted with a handler: still queued on its executor, or run, when the
  callable it held has been called.
\<close>

datatype 'f post_status = Queued "'f poly_handler" | Called 'f

text \<open>
  \<open>hq_executor\<close> is \<^verbatim>\<open>handler_executor_\<close>, empty before the first \<open>async_pop\<close>; every post is
  recorded with its executor and its two arguments, and \<open>hq_calls\<close> are the calls of the
  consumers' callables in the order they were made. The calls of the queue's functions are
  dispatched to its own executor, as in Async_Queue.
\<close>

record ('f, 'v, 'x) handler_queue =
  hq_state :: waiting_state
  hq_handler :: "'f poly_handler"
  hq_executor :: "'x option"
  hq_values :: "'v list"
  hq_ec :: error_code
  hq_tasks :: "'v aq_task list"
  hq_posts :: "('x \<times> 'f post_status \<times> error_code \<times> 'v) list"
  hq_calls :: "('f \<times> error_code \<times> 'v) list"
  hq_census :: census

definition hq_construct :: "('f, 'v, 'x) handler_queue" where
  "hq_construct = \<lparr>hq_state = Not_waiting, hq_handler = ph_empty, hq_executor = None, hq_values = [],
     hq_ec = None, hq_tasks = [], hq_posts = [], hq_calls = [], hq_census = \<lparr>ctors = 0, dtors = 0\<rparr>\<rparr>"

section \<open>Operations\<close>

text \<open>
  \<^verbatim>\<open>net::post\<close> of a function object that took the handler: the handler is move-constructed into
  it. A post through an empty \<^verbatim>\<open>any_io_executor\<close> throws \<^verbatim>\<open>bad_executor\<close>.
\<close>

definition hq_post ::
    "error_code \<Rightarrow> 'v \<Rightarrow> ('f, 'v, 'x) handler_queue \<Rightarrow> ('f, 'v, 'x) handler_queue result" where
  "hq_post e v q =
     and_then (ph_move (hq_handler q) (hq_census q)) (\<lambda>(h, left, w).
       case hq_executor q of
         None \<Rightarrow> Inl (Exception ''bad executor'')
       | Some x \<Rightarrow> Inr (q\<lparr>hq_handler := left, hq_posts := hq_posts q @ [(x, Queued h, e, v)], hq_census := w\<rparr>))"

definition hq_maybe_complete ::
    "'v \<Rightarrow> ('f, 'v, 'x) handler_queue \<Rightarrow> ('f, 'v, 'x) handler_queue result" where
  "hq_maybe_complete dflt q =
     (if hq_values q = [] \<and> hq_ec q = None then Inr q
      else if hq_state q \<noteq> Waiting then Inr (q\<lparr>hq_state := Not_waiting\<rparr>)
      else
        let q1 = q\<lparr>hq_state := Not_waiting\<rparr> in
        if hq_ec q1 \<noteq> None then
          and_then (hq_post (hq_ec q1) dflt q1) (\<lambda>q2. Inr (q2\<lparr>hq_ec := None\<rparr>))
        else
          and_then (hq_post None (hd (hq_values q1)) q1) (\<lambda>q2.
            Inr (q2\<lparr>hq_values := tl (hq_values q2)\<rparr>)))"

fun hq_run_task ::
    "'v \<Rightarrow> 'v aq_task \<Rightarrow> ('f, 'v, 'x) handler_queue \<Rightarrow> ('f, 'v, 'x) handler_queue result" where
  "hq_run_task dflt (Push_task v) q = hq_maybe_complete dflt (q\<lparr>hq_values := hq_values q @ [v]\<rparr>)"
| "hq_run_task dflt Stop_task q =
     hq_maybe_complete dflt (q\<lparr>hq_ec := Some operation_aborted, hq_values := []\<rparr>)"
| "hq_run_task dflt Complete_task q = hq_maybe_complete dflt q"

definition hq_dispatch ::
    "bool \<Rightarrow> 'v \<Rightarrow> 'v aq_task \<Rightarrow> ('f, 'v, 'x) handler_queue \<Rightarrow> ('f, 'v, 'x) handler_queue result" where
  "hq_dispatch inside dflt t q =
     (if inside then hq_run_task dflt t q else Inr (q\<lparr>hq_tasks := hq_tasks q @ [t]\<rparr>))"

definition hq_push ::
    "bool \<Rightarrow> 'v \<Rightarrow> 'v \<Rightarrow> ('f, 'v, 'x) handler_queue \<Rightarrow> ('f, 'v, 'x) handler_queue result" where
  "hq_push inside dflt v q = hq_dispatch inside dflt (Push_task v) q"

definition hq_stop :: "bool \<Rightarrow> 'v \<Rightarrow> ('f, 'v, 'x) handler_queue \<Rightarrow> ('f, 'v, 'x) handler_queue result" where
  "hq_stop inside dflt q = hq_dispatch inside dflt Stop_task q"

text \<open>
  \<open>async_pop\<close> with a handler whose associated executor is \<open>x\<close>, if it has one; \<open>own\<close> is
  \<^verbatim>\<open>default_executor_\<close>. The closure around the handler is \<open>bytes\<close> long. It is made into a
  temporary \<^verbatim>\<open>poly_handler\<close>, which is move-assigned to \<^verbatim>\<open>handler_\<close> and destroyed.
\<close>

definition hq_store :: "nat \<Rightarrow> 'f \<Rightarrow> ('f, 'v, 'x) handler_queue \<Rightarrow> ('f, 'v, 'x) handler_queue result" where
  "hq_store bytes f q =
     (let (tmp, w) = ph_make bytes f (hq_census q) in
      and_then (ph_assign (hq_handler q) tmp w) (\<lambda>(h, tmp', w').
      and_then (ph_destroy tmp' w') (\<lambda>(_, w'').
        Inr (q\<lparr>hq_handler := h, hq_census := w''\<rparr>))))"

definition hq_async_pop ::
    "'x \<Rightarrow> bool \<Rightarrow> 'v \<Rightarrow> 'x option \<Rightarrow> nat \<Rightarrow> 'f \<Rightarrow> ('f, 'v, 'x) handler_queue \<Rightarrow>
       ('f, 'v, 'x) handler_queue result" where
  "hq_async_pop own inside dflt x bytes f q =
     and_then (check (hq_state q = Not_waiting) ''state_ == not_waiting'' q) (\<lambda>q.
     and_then (hq_store bytes f (q\<lparr>hq_executor := Some (case x of None \<Rightarrow> own | Some y \<Rightarrow> y)\<rparr>)) (\<lambda>q.
       hq_dispatch inside dflt Complete_task (q\<lparr>hq_state := Waiting\<rparr>)))"

text \<open>One turn of the queue's executor.\<close>

definition hq_exec :: "'v \<Rightarrow> ('f, 'v, 'x) handler_queue \<Rightarrow> ('f, 'v, 'x) handler_queue result" where
  "hq_exec dflt q =
     (case hq_tasks q of
        [] \<Rightarrow> Inr q
      | t # ts \<Rightarrow> hq_run_task dflt t (q\<lparr>hq_tasks := ts\<rparr>))"

text \<open>
  One turn of the consumer's executor. On the way from \<^verbatim>\<open>net::post\<close> to its call the function object
  is moved as often as the executor likes, each time leaving an empty one to be destroyed; then it
  calls its handler and is destroyed.
\<close>

fun hq_relocate :: "nat \<Rightarrow> 'f poly_handler \<Rightarrow> census \<Rightarrow> ('f poly_handler \<times> census) result" where
  "hq_relocate 0 h w = Inr (h, w)"
| "hq_relocate (Suc n) h w =
     and_then (ph_move h w) (\<lambda>(h1, left, w1).
     and_then (ph_destroy left w1) (\<lambda>(_, w2). hq_relocate n h1 w2))"

definition hq_deliver :: "nat \<Rightarrow> nat \<Rightarrow> ('f, 'v, 'x) handler_queue \<Rightarrow> ('f, 'v, 'x) handler_queue result" where
  "hq_deliver i moves q =
     (case hq_posts q ! i of
        (x, Called f, e, v) \<Rightarrow> Inr q
      | (x, Queued h, e, v) \<Rightarrow>
          and_then (hq_relocate moves h (hq_census q)) (\<lambda>(h1, w1).
          and_then (ph_identify h1 w1) (\<lambda>(f, h2, w2).
          and_then (ph_destroy h2 w2) (\<lambda>(_, w3).
            Inr (q\<lparr>hq_posts := (hq_posts q)[i := (x, Called f, e, v)],
                   hq_calls := hq_calls q @ [(f, e, v)], hq_census := w3\<rparr>)))))"

lemmas hq_defs [model_defs] =
  hq_construct_def hq_post_def hq_maybe_complete_def hq_dispatch_def hq_push_def hq_stop_def hq_store_def
  hq_async_pop_def hq_exec_def hq_deliver_def

section \<open>Requests\<close>

text \<open>
  What the rest of the program can do to a queue: call its functions, from inside its executor or
  not, and let one of the executors run a function object.
\<close>

datatype ('f, 'v, 'x) hq_request =
    Hq_pop bool "'x option" nat 'f
  | Hq_push bool 'v
  | Hq_stop bool
  | Hq_exec
  | Hq_deliver nat nat

fun hq_step ::
    "'x \<Rightarrow> 'v \<Rightarrow> ('f, 'v, 'x) handler_queue \<Rightarrow> ('f, 'v, 'x) hq_request \<Rightarrow>
       ('f, 'v, 'x) handler_queue result" where
  "hq_step own dflt q (Hq_pop inside x bytes f) = hq_async_pop own inside dflt x bytes f q"
| "hq_step own dflt q (Hq_push inside v) = hq_push inside dflt v q"
| "hq_step own dflt q (Hq_stop inside) = hq_stop inside dflt q"
| "hq_step own dflt q Hq_exec = hq_exec dflt q"
| "hq_step own dflt q (Hq_deliver i moves) = hq_deliver i moves q"

fun hq_enabled :: "('f, 'v, 'x) handler_queue \<Rightarrow> ('f, 'v, 'x) hq_request \<Rightarrow> bool" where
  "hq_enabled q (Hq_pop inside x bytes f) = (hq_state q = Not_waiting)"
| "hq_enabled q (Hq_push inside v) = True"
| "hq_enabled q (Hq_stop inside) = True"
| "hq_enabled q Hq_exec = (hq_tasks q \<noteq> [])"
| "hq_enabled q (Hq_deliver i moves) =
     (i < length (hq_posts q) \<and> (\<exists>x h e v. hq_posts q ! i = (x, Queued h, e, v)))"

abbreviation hq_reachable :: "'x \<Rightarrow> 'v \<Rightarrow> ('f, 'v, 'x) handler_queue \<Rightarrow> bool" where
  "hq_reachable own dflt \<equiv> reachable hq_enabled (hq_step own dflt) hq_construct"

text \<open>The same requests on the abstract queue; delivery changes nothing there.\<close>

fun hq_spec :: "'v \<Rightarrow> ('f, 'v) async_queue \<Rightarrow> ('f, 'v, 'x) hq_request \<Rightarrow> ('f, 'v) async_queue result" where
  "hq_spec dflt a (Hq_pop inside x bytes f) = aq_async_pop inside dflt f a"
| "hq_spec dflt a (Hq_push inside v) = Inr (aq_push inside dflt v a)"
| "hq_spec dflt a (Hq_stop inside) = Inr (aq_stop inside dflt a)"
| "hq_spec dflt a Hq_exec = Inr (aq_exec dflt a)"
| "hq_spec dflt a (Hq_deliver i moves) = Inr a"

fun post_callable :: "'f post_status \<Rightarrow> 'f option" where
  "post_callable (Queued h) = ph_held h"
| "post_callable (Called f) = Some f"

definition hq_abs :: "('f, 'v, 'x) handler_queue \<Rightarrow> ('f, 'v) async_queue" where
  "hq_abs q = \<lparr>aq_state = hq_state q, aq_handler = ph_held (hq_handler q), aq_values = hq_values q,
     aq_ec = hq_ec q, aq_tasks = hq_tasks q,
     aq_posts = map (\<lambda>(x, p, e, v). (post_callable p, e, v)) (hq_posts q)\<rparr>"

section \<open>Well-typed storage\<close>

text \<open>
  Every handler of a queue is well-formed: its storage holds the union member its vtable reads. A
  waiting queue has a callable and an executor to call it on, and so has every queued post.
\<close>

definition hq_typed :: "('f, 'v, 'x) handler_queue \<Rightarrow> bool" where
  "hq_typed q \<longleftrightarrow>
     ph_wf (hq_handler q) \<and>
     (hq_state q = Waiting \<longleftrightarrow> ph_has_value (hq_handler q)) \<and>
     (hq_state q = Waiting \<longrightarrow> hq_executor q \<noteq> None) \<and>
     (\<forall>(x, p, e, v) \<in> set (hq_posts q). \<forall>h. p = Queued h \<longrightarrow> ph_wf h \<and> ph_has_value h)"

lemma ph_has_value_held: "ph_wf h \<Longrightarrow> ph_has_value h \<longleftrightarrow> ph_held h \<noteq> None"
  by (cases h rule: ph_held.cases) (auto simp: ph_has_value_def ph_wf_def)

lemma hq_typed_construct: "hq_typed hq_construct"
  by (simp add: hq_typed_def hq_construct_def ph_has_value_def ph_wf_def ph_empty_def)

lemma hq_abs_construct: "hq_abs hq_construct = aq_construct"
  by (simp add: hq_abs_def hq_construct_def aq_construct_def ph_empty_def)

text \<open>Moving a handler out of the queue into a post.\<close>

lemma hq_post_total:
  assumes "ph_wf (hq_handler q)" "ph_has_value (hq_handler q)" "hq_executor q = Some x"
  obtains h left w where
    "hq_post e v q = Inr (q\<lparr>hq_handler := left, hq_posts := hq_posts q @ [(x, Queued h, e, v)], hq_census := w\<rparr>)"
    "ph_wf h" "ph_held h = ph_held (hq_handler q)" "ph_has_value h" "ph_wf left" "ph_held left = None"
    "\<not> ph_has_value left"
proof -
  from ph_move_total [OF assms(1), of "hq_census q"] obtain h left w where
    m: "ph_move (hq_handler q) (hq_census q) = Inr (h, left, w)" "ph_wf h" "ph_wf left"
      "ph_held h = ph_held (hq_handler q)" "ph_held left = None" by blast
  with assms that show ?thesis by (simp add: hq_post_def ph_has_value_held)
qed

lemma hq_maybe_complete_sim:
  assumes q: "hq_typed q"
  shows "\<exists>r. hq_maybe_complete dflt q = Inr r \<and> hq_typed r \<and> hq_abs r = aq_maybe_complete dflt (hq_abs q)"
proof (cases "(hq_values q = [] \<and> hq_ec q = None) \<or> hq_state q \<noteq> Waiting")
  case True
  with q show ?thesis
    by (cases "hq_state q") (auto simp: hq_maybe_complete_def aq_maybe_complete_def hq_typed_def hq_abs_def)
next
  case False
  let ?q = "q\<lparr>hq_state := Not_waiting\<rparr>"
  from q False obtain x where h: "ph_wf (hq_handler ?q)" "ph_has_value (hq_handler ?q)" "hq_executor ?q = Some x"
    by (auto simp: hq_typed_def)
  let ?e = "hq_ec q" and ?v = "if hq_ec q = None then hd (hq_values q) else dflt"
  from hq_post_total [OF h, of ?e ?v] obtain p left w where
    post: "hq_post ?e ?v ?q = Inr (?q\<lparr>hq_handler := left, hq_posts := hq_posts ?q @ [(x, Queued p, ?e, ?v)], hq_census := w\<rparr>)"
      and p: "ph_wf p" "ph_held p = ph_held (hq_handler ?q)" "ph_has_value p" "ph_wf left" "ph_held left = None"
        "\<not> ph_has_value left" by blast
  show ?thesis
  proof (cases "hq_ec q")
    case None
    with False q p post show ?thesis
      by (auto simp: hq_maybe_complete_def aq_maybe_complete_def hq_typed_def hq_abs_def)
  next
    case (Some y)
    with False q p post show ?thesis
      by (auto simp: hq_maybe_complete_def aq_maybe_complete_def hq_typed_def hq_abs_def)
  qed
qed

lemma hq_typed_frame [simp]:
  "hq_typed (q\<lparr>hq_values := vs\<rparr>) = hq_typed q" "hq_typed (q\<lparr>hq_ec := e\<rparr>) = hq_typed q"
  "hq_typed (q\<lparr>hq_tasks := ts\<rparr>) = hq_typed q"
  by (simp_all add: hq_typed_def)

lemma hq_abs_frame [simp]:
  "hq_abs (q\<lparr>hq_values := vs\<rparr>) = (hq_abs q)\<lparr>aq_values := vs\<rparr>"
  "hq_abs (q\<lparr>hq_ec := e\<rparr>) = (hq_abs q)\<lparr>aq_ec := e\<rparr>"
  "hq_abs (q\<lparr>hq_tasks := ts\<rparr>) = (hq_abs q)\<lparr>aq_tasks := ts\<rparr>"
  "hq_abs (q\<lparr>hq_census := w\<rparr>) = hq_abs q" "hq_abs (q\<lparr>hq_executor := x\<rparr>) = hq_abs q"
  "aq_values (hq_abs q) = hq_values q" "aq_ec (hq_abs q) = hq_ec q" "aq_tasks (hq_abs q) = hq_tasks q"
  "aq_state (hq_abs q) = hq_state q"
  by (simp_all add: hq_abs_def)

lemma hq_run_task_sim:
  assumes "hq_typed q"
  shows "\<exists>r. hq_run_task dflt t q = Inr r \<and> hq_typed r \<and> hq_abs r = aq_run_task dflt t (hq_abs q)"
proof (cases t)
  case (Push_task v)
  with assms hq_maybe_complete_sim [of "q\<lparr>hq_values := hq_values q @ [v]\<rparr>" dflt] show ?thesis by simp
next
  case Stop_task
  with assms hq_maybe_complete_sim [of "q\<lparr>hq_ec := Some operation_aborted, hq_values := []\<rparr>" dflt]
  show ?thesis by simp
next
  case Complete_task
  with assms hq_maybe_complete_sim [of q dflt] show ?thesis by simp
qed

lemma hq_dispatch_sim:
  assumes "hq_typed q"
  shows "\<exists>r. hq_dispatch inside dflt t q = Inr r \<and> hq_typed r \<and> hq_abs r = aq_dispatch inside dflt t (hq_abs q)"
  using hq_run_task_sim [OF assms, of dflt t] assms by (auto simp: hq_dispatch_def aq_dispatch_def)

lemma hq_exec_sim:
  assumes "hq_typed q"
  shows "\<exists>r. hq_exec dflt q = Inr r \<and> hq_typed r \<and> hq_abs r = aq_exec dflt (hq_abs q)"
proof (cases "hq_tasks q")
  case Nil
  with assms show ?thesis by (simp add: hq_exec_def aq_exec_def)
next
  case (Cons t ts)
  with assms hq_run_task_sim [of "q\<lparr>hq_tasks := ts\<rparr>" dflt t] show ?thesis by (simp add: hq_exec_def aq_exec_def)
qed

text \<open>Storing a handler: the temporary is empty when it is destroyed.\<close>

lemma hq_store_total:
  assumes "ph_wf (hq_handler q)"
  obtains h w where "hq_store bytes f q = Inr (q\<lparr>hq_handler := h, hq_census := w\<rparr>)" "ph_wf h" "ph_held h = Some f"
proof -
  obtain tmp w where mk: "ph_make bytes f (hq_census q) = (tmp, w)" by fastforce
  from ph_make_held [OF this] have "ph_wf tmp" "ph_held tmp = Some f" by simp_all
  with ph_assign_total [OF assms, of tmp w] obtain h tmp' w' where
    a: "ph_assign (hq_handler q) tmp w = Inr (h, tmp', w')" "ph_wf h" "ph_wf tmp'" "ph_held h = Some f" by auto
  from ph_destroy_total [OF a(3), of w'] obtain z where "ph_destroy tmp' w' = Inr z" by blast
  with mk a that show ?thesis by (cases z) (simp add: hq_store_def)
qed

lemma hq_pop_sim:
  assumes q: "hq_typed q" and idle: "hq_state q = Not_waiting"
  shows "\<exists>r. hq_async_pop own inside dflt x bytes f q = Inr r \<and> hq_typed r \<and>
    Inr (hq_abs r) = aq_async_pop inside dflt f (hq_abs q)"
proof -
  let ?x = "Some (case x of None \<Rightarrow> own | Some y \<Rightarrow> y)"
  from q have "ph_wf (hq_handler (q\<lparr>hq_executor := ?x\<rparr>))" by (simp add: hq_typed_def)
  from hq_store_total [OF this, of bytes f] obtain h w where
    st: "hq_store bytes f (q\<lparr>hq_executor := ?x\<rparr>) = Inr (q\<lparr>hq_executor := ?x, hq_handler := h, hq_census := w\<rparr>)"
      "ph_wf h" "ph_held h = Some f" by blast
  let ?r = "q\<lparr>hq_executor := ?x, hq_handler := h, hq_census := w, hq_state := Waiting\<rparr>"
  have "hq_typed ?r" using q st idle by (auto simp: hq_typed_def ph_has_value_held)
  from hq_dispatch_sim [OF this, of inside dflt Complete_task] st idle show ?thesis
    by (auto simp: hq_async_pop_def aq_async_pop_def aq_arm_def aq_store_handler_def hq_abs_def)
qed

text \<open>Delivery calls the callable that was posted, however often the function object was moved.\<close>

lemma hq_relocate_total:
  assumes "ph_wf h"
  shows "\<exists>h' w'. hq_relocate n h w = Inr (h', w') \<and> ph_wf h' \<and> ph_held h' = ph_held h"
  using assms
proof (induction n arbitrary: h w)
  case 0
  then show ?case by simp
next
  case (Suc n)
  from ph_move_total [OF Suc.prems, of w] obtain h1 left w1 where
    m: "ph_move h w = Inr (h1, left, w1)" "ph_wf h1" "ph_wf left" "ph_held h1 = ph_held h" by blast
  from ph_destroy_total [OF m(3), of w1] obtain z where "ph_destroy left w1 = Inr z" by blast
  with m Suc.IH [OF m(2), of "snd z"] show ?case by (cases z) simp
qed

lemma hq_deliver_total:
  assumes q: "hq_typed q" and i: "i < length (hq_posts q)" and p: "hq_posts q ! i = (x, Queued h, e, v)"
  obtains f w where "ph_held h = Some f"
    "hq_deliver i moves q = Inr (q\<lparr>hq_posts := (hq_posts q)[i := (x, Called f, e, v)],
       hq_calls := hq_calls q @ [(f, e, v)], hq_census := w\<rparr>)"
proof -
  from nth_mem [OF i] p q have h: "ph_wf h" "ph_has_value h" by (auto simp: hq_typed_def)
  then obtain f where f: "ph_held h = Some f" by (auto simp: ph_has_value_held)
  from hq_relocate_total [OF h(1)] f obtain h1 w1 where
    r: "hq_relocate moves h (hq_census q) = Inr (h1, w1)" "ph_wf h1" "ph_held h1 = Some f" by metis
  from ph_call_held [OF r(2), of "\<lambda>f _. f" "()" w1] r(3) obtain h2 w2 where
    c: "ph_identify h1 w1 = Inr (f, h2, w2)" "ph_wf h2" by auto
  from ph_destroy_total [OF c(2), of w2] obtain z where "ph_destroy h2 w2 = Inr z" by blast
  with r c f p that show ?thesis by (cases z) (simp add: hq_deliver_def)
qed

lemma hq_deliver_sim:
  assumes q: "hq_typed q" and i: "i < length (hq_posts q)" and p: "hq_posts q ! i = (x, Queued h, e, v)"
  shows "\<exists>r. hq_deliver i moves q = Inr r \<and> hq_typed r \<and> hq_abs r = hq_abs q"
proof -
  from hq_deliver_total [OF q i p, of moves] obtain f w where f: "ph_held h = Some f"
    and r: "hq_deliver i moves q = Inr (q\<lparr>hq_posts := (hq_posts q)[i := (x, Called f, e, v)],
      hq_calls := hq_calls q @ [(f, e, v)], hq_census := w\<rparr>)" (is "_ = Inr ?r") .
  have "hq_typed ?r"
    using q set_update_subset_insert [of "hq_posts q" i "(x, Called f, e, v)"] by (fastforce simp: hq_typed_def)
  moreover have "hq_abs ?r = hq_abs q"
    using i p f by (simp add: hq_abs_def map_update list_update_same_conv)
  ultimately show ?thesis using r by blast
qed

lemma hq_step_sim:
  assumes "hq_typed q" "hq_enabled q c"
  shows "\<exists>r. hq_step own dflt q c = Inr r \<and> hq_typed r \<and> Inr (hq_abs r) = hq_spec dflt (hq_abs q) c"
proof (cases c)
  case (Hq_pop inside x bytes f)
  with hq_pop_sim [OF assms(1), of own inside dflt x bytes f] assms(2) show ?thesis by simp
next
  case (Hq_push inside v)
  with hq_dispatch_sim [OF assms(1), of inside dflt "Push_task v"] show ?thesis by (simp add: hq_push_def aq_push_def)
next
  case (Hq_stop inside)
  with hq_dispatch_sim [OF assms(1), of inside dflt Stop_task] show ?thesis by (simp add: hq_stop_def aq_stop_def)
next
  case Hq_exec
  with hq_exec_sim [OF assms(1), of dflt] show ?thesis by simp
next
  case (Hq_deliver i moves)
  with assms(2) obtain x h e v where "i < length (hq_posts q)" "hq_posts q ! i = (x, Queued h, e, v)" by auto
  from hq_deliver_sim [OF assms(1) this, of moves] Hq_deliver show ?thesis by simp
qed

lemma hq_reachable_typed: "hq_reachable own dflt q \<Longrightarrow> hq_typed q"
proof (induction rule: reachable_invariant)
  case start
  show ?case by (rule hq_typed_construct)
next
  case (step q c r)
  with hq_step_sim [of q c own dflt] show ?case by auto
qed

section \<open>What becomes of a callable\<close>

fun hq_popped :: "('f, 'v, 'x) hq_request list \<Rightarrow> 'f list" where
  "hq_popped [] = []"
| "hq_popped (Hq_pop inside x bytes f # cs) = f # hq_popped cs"
| "hq_popped (_ # cs) = hq_popped cs"

fun queued_bag :: "'x \<times> 'f post_status \<times> error_code \<times> 'v \<Rightarrow> 'f multiset" where
  "queued_bag (x, Queued h, e, v) = ph.bag h"
| "queued_bag (x, Called f, e, v) = {#}"

text \<open>Called, posted and not yet called, or still in \<^verbatim>\<open>handler_\<close>.\<close>

definition hq_balance :: "('f, 'v, 'x) handler_queue \<Rightarrow> 'f multiset" where
  "hq_balance q = mset (map fst (hq_calls q)) + sum_list (map queued_bag (hq_posts q)) + ph.bag (hq_handler q)"

lemma hq_balance_frame [simp]:
  "hq_balance (q\<lparr>hq_values := vs\<rparr>) = hq_balance q" "hq_balance (q\<lparr>hq_ec := e\<rparr>) = hq_balance q"
  "hq_balance (q\<lparr>hq_tasks := ts\<rparr>) = hq_balance q" "hq_balance (q\<lparr>hq_state := s\<rparr>) = hq_balance q"
  "hq_balance (q\<lparr>hq_executor := x\<rparr>) = hq_balance q"
  by (simp_all add: hq_balance_def)

lemma hq_maybe_complete_balance:
  assumes q: "hq_typed q" and r: "hq_maybe_complete dflt q = Inr r"
  shows "hq_balance r = hq_balance q"
proof (cases "(hq_values q = [] \<and> hq_ec q = None) \<or> hq_state q \<noteq> Waiting")
  case True
  with r show ?thesis by (auto simp: hq_maybe_complete_def split: if_splits)
next
  case False
  let ?q = "q\<lparr>hq_state := Not_waiting\<rparr>"
  from q False obtain x where h: "ph_wf (hq_handler ?q)" "ph_has_value (hq_handler ?q)" "hq_executor ?q = Some x"
    by (auto simp: hq_typed_def)
  have "hq_balance t = hq_balance q" if t: "hq_post e v ?q = Inr t" for e v t
  proof -
    obtain p left w where "hq_post e v ?q = Inr (?q\<lparr>hq_handler := left, hq_posts := hq_posts ?q @ [(x, Queued p, e, v)], hq_census := w\<rparr>)"
      "ph_held p = ph_held (hq_handler ?q)" "ph_held left = None"
      by (rule hq_post_total [OF h, of e v])
    with t show ?thesis by (auto simp: hq_balance_def ph.bag_def ac_simps)
  qed
  then have post: "hq_balance t = hq_balance q" if "hq_post e v ?q = Inr t" for e v t
    using that by blast
  from False r show ?thesis
    by (cases "hq_ec q") (auto simp: hq_maybe_complete_def and_then_Inr post)
qed

lemma hq_run_task_balance:
  assumes "hq_typed q" "hq_run_task dflt t q = Inr r"
  shows "hq_balance r = hq_balance q"
  using assms by (cases t) (auto dest!: hq_maybe_complete_balance [rotated])

lemma hq_dispatch_balance:
  "hq_typed q \<Longrightarrow> hq_dispatch inside dflt t q = Inr r \<Longrightarrow> hq_balance r = hq_balance q"
  by (auto simp: hq_dispatch_def hq_run_task_balance split: if_splits)

lemma hq_pop_balance:
  assumes q: "hq_typed q" and r: "hq_async_pop own inside dflt x bytes f q = Inr r"
  shows "hq_balance r = hq_balance q + {#f#}"
proof -
  from r have idle: "hq_state q = Not_waiting" by (auto simp: hq_async_pop_def and_then_Inr)
  let ?x = "Some (case x of None \<Rightarrow> own | Some y \<Rightarrow> y)"
  from q have wf: "ph_wf (hq_handler (q\<lparr>hq_executor := ?x\<rparr>))" by (simp add: hq_typed_def)
  from hq_store_total [OF wf, of bytes f] obtain h w where
    st: "hq_store bytes f (q\<lparr>hq_executor := ?x\<rparr>) = Inr (q\<lparr>hq_executor := ?x, hq_handler := h, hq_census := w\<rparr>)"
      "ph_wf h" "ph_held h = Some f" by blast
  let ?r = "q\<lparr>hq_executor := ?x, hq_handler := h, hq_census := w, hq_state := Waiting\<rparr>"
  have "hq_typed ?r" using q st idle by (auto simp: hq_typed_def ph_has_value_held)
  moreover from r st idle have "hq_dispatch inside dflt Complete_task ?r = Inr r" by (simp add: hq_async_pop_def)
  moreover from q idle have "ph_held (hq_handler q) = None"
    using ph_has_value_held [of "hq_handler q"] by (auto simp: hq_typed_def)
  ultimately show ?thesis
    using hq_dispatch_balance [of ?r inside dflt Complete_task r] st(3) by (simp add: hq_balance_def ph.bag_def)
qed

lemma hq_deliver_balance:
  assumes q: "hq_typed q" and i: "i < length (hq_posts q)" and p: "hq_posts q ! i = (x, Queued h, e, v)"
    and r: "hq_deliver i moves q = Inr r"
  shows "hq_balance r = hq_balance q"
proof -
  from hq_deliver_total [OF q i p, of moves] r obtain f w where f: "ph_held h = Some f"
    and r': "r = q\<lparr>hq_posts := (hq_posts q)[i := (x, Called f, e, v)], hq_calls := hq_calls q @ [(f, e, v)], hq_census := w\<rparr>"
    by auto
  have "sum_list (map queued_bag ((hq_posts q)[i := (x, Called f, e, v)])) + {#f#} = sum_list (map queued_bag (hq_posts q))"
    using sum_list_map_update [OF i, of queued_bag "(x, Called f, e, v)"] p f by (simp add: ph.bag_def)
  then show ?thesis by (simp add: r' hq_balance_def ac_simps)
qed

lemma hq_step_balance:
  assumes "hq_typed q" "hq_enabled q c" "hq_step own dflt q c = Inr r"
  shows "hq_balance r = hq_balance q + mset (hq_popped [c])"
proof (cases c)
  case Hq_exec
  with assms hq_run_task_balance [of "q\<lparr>hq_tasks := tl (hq_tasks q)\<rparr>" dflt "hd (hq_tasks q)" r] show ?thesis
    by (simp add: hq_exec_def split: list.splits)
qed (use assms in \<open>auto simp: hq_pop_balance hq_push_def hq_stop_def hq_dispatch_balance hq_deliver_balance\<close>)

lemma hq_popped_Cons: "hq_popped (c # cs) = hq_popped [c] @ hq_popped cs"
  by (cases c) auto

lemma hq_run_balance:
  "run hq_enabled (hq_step own dflt) q cs = Some r \<Longrightarrow> hq_typed q \<Longrightarrow>
     hq_balance r = hq_balance q + mset (hq_popped cs)"
proof (induction rule: run_induct)
  case Nil
  then show ?case by simp
next
  case (Cons q c cs u)
  from hq_step_sim [OF Cons.prems Cons.hyps(1), of own dflt] Cons.hyps(2) have "hq_typed u" by auto
  with Cons.IH hq_step_balance [OF Cons.prems Cons.hyps(1,2)] show ?case
    by (subst hq_popped_Cons) simp
qed

section \<open>Outstanding work\<close>

text \<open>
  What keeps \<^verbatim>\<open>io_context::run\<close> from returning: function objects to run, and, perhaps, executors.
  \<open>async_pop\<close> stores in \<^verbatim>\<open>handler_executor_\<close> what \<^verbatim>\<open>net::prefer\<close> makes of the consumer's executor
  when asked for one that tracks outstanding work, and nothing resets it after a delivery. Whether
  the stored executor then counts as work is up to Asio and to the executor, which are not part of
  the repository: it is the argument \<open>tracks\<close>. \<open>hq_ready\<close> is a request that runs the next function
  object on executor \<open>x\<close>.
\<close>

definition hq_next_post :: "'x \<Rightarrow> ('f, 'v, 'x) handler_queue \<Rightarrow> nat option" where
  "hq_next_post x q =
     (case filter (\<lambda>i. case hq_posts q ! i of (y, Queued h, e, v) \<Rightarrow> y = x | _ \<Rightarrow> False) [0..<length (hq_posts q)] of
        [] \<Rightarrow> None
      | i # _ \<Rightarrow> Some i)"

definition hq_ready :: "'x \<Rightarrow> 'x \<Rightarrow> ('f, 'v, 'x) handler_queue \<Rightarrow> ('f, 'v, 'x) hq_request option" where
  "hq_ready own x q =
     (if x = own \<and> hq_tasks q \<noteq> [] then Some Hq_exec
      else map_option (\<lambda>i. Hq_deliver i 0) (hq_next_post x q))"

definition hq_work :: "bool \<Rightarrow> 'x \<Rightarrow> 'x \<Rightarrow> ('f, 'v, 'x) handler_queue \<Rightarrow> bool" where
  "hq_work tracks own x q \<longleftrightarrow> tracks \<and> hq_executor q = Some x \<or> hq_ready own x q \<noteq> None"

text \<open>
  \<^verbatim>\<open>io_context::poll\<close>: run what is ready, and count. \<^verbatim>\<open>io_context::run\<close> does the same, and then
  returns only when no work is outstanding; otherwise it waits.
\<close>

partial_function (option) hq_poll ::
    "'x \<Rightarrow> 'v \<Rightarrow> 'x \<Rightarrow> nat \<Rightarrow> ('f, 'v, 'x) handler_queue \<Rightarrow> (nat \<times> ('f, 'v, 'x) handler_queue) option" where
  "hq_poll own dflt x n q =
     (case hq_ready own x q of
        None \<Rightarrow> Some (n, q)
      | Some c \<Rightarrow>
          (case hq_step own dflt q c of
             Inl _ \<Rightarrow> None
           | Inr r \<Rightarrow> hq_poll own dflt x (Suc n) r))"

datatype 'a run_result = Returns 'a | Waits 'a

definition hq_run ::
    "bool \<Rightarrow> 'x \<Rightarrow> 'v \<Rightarrow> 'x \<Rightarrow> ('f, 'v, 'x) handler_queue \<Rightarrow>
       (nat \<times> ('f, 'v, 'x) handler_queue) run_result option" where
  "hq_run tracks own dflt x q =
     map_option (\<lambda>(n, r). if hq_work tracks own x r then Waits (n, r) else Returns (n, r)) (hq_poll own dflt x 0 q)"

section \<open>Properties\<close>

text \<open>
  C13. The queue over \<^verbatim>\<open>poly_handler\<close> refines the queue over abstract handlers: from every reachable
  state every request runs to its end, without undefined behaviour, empty calls or a post through an
  empty executor, whatever the sizes of the handlers and however often the executor moves a function
  object; and what it does, seen through the abstraction function, is what the abstract queue does.
\<close>

theorem hq_refines_async_queue:
  assumes "hq_reachable own dflt q" "hq_enabled q c"
  shows "\<exists>r. hq_step own dflt q c = Inr r \<and> hq_spec dflt (hq_abs q) c = Inr (hq_abs r)"
  using hq_step_sim [OF hq_reachable_typed [OF assms(1)] assms(2)] by metis

text \<open>The last delivery of an aborted pop with a 64-byte handler, moved three times on the way.\<close>

theorem hq_refines_async_queue_witness:
  "\<exists>q r. run hq_enabled (hq_step (0 :: nat) CHR ''0'') hq_construct
      [Hq_pop False (Some 1) 64 (7 :: nat), Hq_stop False, Hq_exec, Hq_exec] = Some q \<and>
    hq_step 0 CHR ''0'' q (Hq_deliver 0 3) = Inr r \<and> hq_calls r = [(7, Some operation_aborted, CHR ''0'')] \<and>
    hq_spec CHR ''0'' (hq_abs q) (Hq_deliver 0 3 :: (nat, char, nat) hq_request) = Inr (hq_abs r)"
proof -
  let ?cs = "[Hq_pop False (Some 1) 64 (7 :: nat), Hq_stop False, Hq_exec, Hq_exec]"
  obtain q where q: "run hq_enabled (hq_step (0 :: nat) CHR ''0'') hq_construct ?cs = Some q"
    and p: "hq_posts q = [(1, Queued \<lparr>storage = Long (Some (Holding 7)), kind = Some Big\<rparr>, Some operation_aborted, CHR ''0'')]"
      "hq_calls q = []"
    by (simp add: hq_defs ph_defs sizeof_sbo_storage_def)
  have "hq_enabled q (Hq_deliver 0 3)" using p by simp
  from hq_refines_async_queue [OF run_reachable [OF q] this] obtain r where
    r: "hq_step 0 CHR ''0'' q (Hq_deliver 0 3) = Inr r" "hq_spec CHR ''0'' (hq_abs q) (Hq_deliver 0 3 :: (nat, char, nat) hq_request) = Inr (hq_abs r)"
    by auto
  moreover have "hq_calls r = [(7, Some operation_aborted, CHR ''0'')]"
    using r(1) p by (auto simp: hq_deliver_def ph_defs eval_nat_numeral)
  ultimately show ?thesis using q by blast
qed

text \<open>
  C4. Every consumer's callable is called exactly once or is still there to be called: whatever the
  order in which the program, the queue's executor and the consumers' executors act, the callables
  called so far, those in function objects still queued, and the one in \<^verbatim>\<open>handler_\<close> are together
  the callables passed to \<open>async_pop\<close>, each as often as it was passed.
\<close>

theorem hq_each_callable_called_once:
  assumes "run hq_enabled (hq_step own dflt) hq_construct cs = Some q"
  shows "mset (map fst (hq_calls q)) + sum_list (map queued_bag (hq_posts q)) + ph.bag (hq_handler q) =
    mset (hq_popped cs)"
  using hq_run_balance [OF assms hq_typed_construct]
  by (simp add: hq_balance_def hq_construct_def ph.bag_def ph_empty_def)

theorem hq_each_callable_called_once_witness:
  "\<exists>q. run hq_enabled (hq_step (0 :: nat) CHR ''0'') hq_construct
      [Hq_pop True None 16 (7 :: nat), Hq_push True CHR ''a'', Hq_pop True None 64 8, Hq_deliver 0 2] = Some q \<and>
    mset (map fst (hq_calls q)) + sum_list (map queued_bag (hq_posts q)) + ph.bag (hq_handler q) = {#7, 8#}"
proof -
  let ?cs = "[Hq_pop True None 16 (7 :: nat), Hq_push True CHR ''a'', Hq_pop True None 64 8, Hq_deliver 0 2]"
  obtain q where q: "run hq_enabled (hq_step (0 :: nat) CHR ''0'') hq_construct ?cs = Some q"
    by (simp add: hq_defs ph_defs sizeof_sbo_storage_def eval_nat_numeral)
  from hq_each_callable_called_once [OF q] q show ?thesis by auto
qed

end
