(* ===== verification/Unit_Tests.thy ===== *)
theory Unit_Tests
  imports Handler_Queue
begin

text \<open>
  The repository's unit tests of the two library components, \<^verbatim>\<open>lib/util/poly_handler.spec.cpp\<close> and
  \<^verbatim>\<open>lib/util/async_queue.spec.cpp\<close>, run on the model. Every checked value agrees. The second test
  calls \<^verbatim>\<open>run\<close> on the consumer's context and expects it to return; whether it does depends on
  whether the executor kept in \<^verbatim>\<open>handler_executor_\<close> counts as outstanding work there.
\<close>

section \<open>The test of the function object\<close>

text \<open>The two callables; their result is what they assign to \<^verbatim>\<open>target\<close>.\<close>

datatype test_callable = Test_small | Test_big

fun test_apply :: "test_callable \<Rightarrow> string \<Rightarrow> string" where
  "test_apply Test_small s = s"
| "test_apply Test_big s = s @ '' '' @ ''x'' @ ''y'' @ ''z''"

text \<open>\<^verbatim>\<open>f = std::move(callable)\<close>: the callable is converted to a temporary handler first.\<close>

definition ph_assign_value :: "nat \<Rightarrow> 'f \<Rightarrow> 'f poly_handler \<Rightarrow> census \<Rightarrow> ('f poly_handler \<times> census) result" where
  "ph_assign_value bytes f h w =
     (let (tmp, w1) = ph_make bytes f w in
      and_then (ph_assign h tmp w1) (\<lambda>(h1, tmp1, w2).
      and_then (ph_destroy tmp1 w2) (\<lambda>(_, w3). Inr (h1, w3))))"

text \<open>
  What the test observes: whether the call of the empty handler throws, \<^verbatim>\<open>has_value()\<close> at the five
  points, and the two values of \<^verbatim>\<open>target\<close>.
\<close>

definition ph_test :: "nat \<Rightarrow> nat \<Rightarrow> (bool \<times> bool list \<times> string list) result" where
  "ph_test sizeof_small sizeof_big =
     (let f = ph_empty; w = \<lparr>ctors = 0, dtors = 0\<rparr> in
      and_then (ph_assign_value sizeof_small Test_small f w) (\<lambda>(f1, w1).
      and_then (ph_call test_apply ''test'' f1 w1) (\<lambda>(target1, f2, w2).
      and_then (ph_assign_value sizeof_big Test_big f2 w2) (\<lambda>(f3, w3).
      and_then (ph_call test_apply ''test'' f3 w3) (\<lambda>(target2, f4, w4).
        Inr (ph_call test_apply ''test'' f w = Inl Bad_function_call,
             [ph_has_value f, ph_has_value f1, ph_has_value f2, ph_has_value f3, ph_has_value f4],
             [target1, target2]))))))"

theorem ph_test_passes:
  "ph_test sizeof_small sizeof_big =
     Inr (True, [False, True, False, True, False], [''test'', ''test xyz''])"
  by (cases "sizeof_sbo_storage < sizeof_small"; cases "sizeof_sbo_storage < sizeof_big")
    (simp_all add: ph_test_def ph_assign_value_def ph_defs Let_def)

section \<open>The test of the queue\<close>

text \<open>
  The queue's executor \<^verbatim>\<open>e\<close> is 0 and the handlers' executor \<^verbatim>\<open>e2\<close> is 1. A section of the
  test is a list of requests with polls and runs of one of the two contexts among them; its
  observations are the numbers these return and, from the calls of the handler, the errors and
  values it stored. A run that waits for outstanding work is the last thing the section does.
\<close>

datatype ('f, 'v, 'x) test_action = Act "('f, 'v, 'x) hq_request" | Poll 'x | Run 'x

fun ran :: "nat \<Rightarrow> (nat list \<times> 'q) run_result \<Rightarrow> (nat list \<times> 'q) run_result" where
  "ran n (Returns (ns, q)) = Returns (n # ns, q)"
| "ran n (Waits (ns, q)) = Waits (n # ns, q)"

fun test_script ::
    "bool \<Rightarrow> 'x \<Rightarrow> 'v \<Rightarrow> ('f, 'v, 'x) test_action list \<Rightarrow> ('f, 'v, 'x) handler_queue \<Rightarrow>
       (nat list \<times> ('f, 'v, 'x) handler_queue) run_result option" where
  "test_script tracks own dflt [] q = Some (Returns ([], q))"
| "test_script tracks own dflt (Act c # as) q =
     (case hq_step own dflt q c of Inl _ \<Rightarrow> None | Inr r \<Rightarrow> test_script tracks own dflt as r)"
| "test_script tracks own dflt (Poll x # as) q =
     (case hq_poll own dflt x 0 q of
        None \<Rightarrow> None
      | Some (n, r) \<Rightarrow> map_option (ran n) (test_script tracks own dflt as r))"
| "test_script tracks own dflt (Run x # as) q =
     (case hq_run tracks own dflt x q of
        None \<Rightarrow> None
      | Some (Waits (n, r)) \<Rightarrow> Some (Waits ([], r))
      | Some (Returns (n, r)) \<Rightarrow> map_option (ran n) (test_script tracks own dflt as r))"

definition test_pop :: "nat \<Rightarrow> (unit, string, nat) test_action" where
  "test_pop bytes = Act (Hq_pop False (Some 1) bytes ())"

definition queue_test_stop ::
    "bool \<Rightarrow> nat \<Rightarrow> (nat list \<times> (unit, string, nat) handler_queue) run_result option" where
  "queue_test_stop tracks bytes =
     test_script tracks 0 '''' [test_pop bytes, Act (Hq_stop False), Poll 0, Run 1, Run 0] hq_construct"

definition queue_test_values ::
    "bool \<Rightarrow> nat \<Rightarrow> (nat list \<times> (unit, string, nat) handler_queue) run_result option" where
  "queue_test_values tracks bytes =
     test_script tracks 0 ''''
       [Act (Hq_push False ''a''), Act (Hq_push False ''b''), Act (Hq_push False ''c''), Poll 0,
        test_pop bytes, Poll 0, Run 1,
        test_pop bytes, Poll 0, Run 1,
        Act (Hq_stop False), Poll 0, test_pop bytes, Poll 0, Run 1] hq_construct"

lemmas test_defs = test_pop_def queue_test_stop_def queue_test_values_def hq_run_def hq_work_def hq_ready_def
  hq_next_post_def hq_defs ph_defs

text \<open>
  The unit test of the queue, on the model. If the stored executor does not count as work, both
  sections run to their ends and every number, error and value is the expected one. If it does, the
  first \<^verbatim>\<open>run\<close> of the handlers' context runs the handler, with the expected error, and then waits.
\<close>

theorem queue_tests:
  "(\<exists>q. queue_test_stop False bytes = Some (Returns ([2, 1, 0], q)) \<and>
      map snd (hq_calls q) = [(Some operation_aborted, '''')]) \<and>
   (\<exists>q. queue_test_values False bytes = Some (Returns ([3, 1, 1, 1, 1, 1, 1, 1], q)) \<and>
      map snd (hq_calls q) = [(None, ''a''), (None, ''b''), (Some operation_aborted, '''')]) \<and>
   (\<exists>q. queue_test_stop True bytes = Some (Waits ([2], q)) \<and>
      map snd (hq_calls q) = [(Some operation_aborted, '''')])"
  by (intro conjI; cases "bytes > sizeof_sbo_storage"; simp add: test_defs hq_poll.simps)

end
