(* ===== verification/Tx_Channel.thy ===== *)
theory Tx_Channel
  imports Async_Queue
begin

text \<open>
  What a client on the queue's own executor relies on. Called from there, the functions the queue
  dispatches run at once, and the queue is a channel: it matches requests with values, one at a
  time. The channel that the code implements is stated on its own, a queue that implements it as
  a locale, and \<^verbatim>\<open>async_queue_impl\<close> is shown to be such an implementation. The channel that the
  comments of \<^verbatim>\<open>async_queue.hpp\<close> promise is another one, for what happens after a stop; the last
  sections compare the two.
\<close>

section \<open>The channel the code implements\<close>

text \<open>
  A stop that finds no consumer waiting aborts the next request, and a stop that finds one
  aborts it; later requests wait again.

  \<open>ch_out\<close> are the requests answered so far, in order, with the value each one got or \<open>None\<close> for
  an aborted one.
\<close>

record ('h, 'v) channel =
  ch_out :: "('h \<times> 'v option) list"
  ch_held :: "'v list"
  ch_waiter :: "'h option"
  ch_abort :: bool

definition ch_empty :: "('h, 'v) channel" where
  "ch_empty = \<lparr>ch_out = [], ch_held = [], ch_waiter = None, ch_abort = False\<rparr>"

definition ch_answer :: "'h \<Rightarrow> 'v option \<Rightarrow> ('h, 'v) channel \<Rightarrow> ('h, 'v) channel" where
  "ch_answer h r c = c\<lparr>ch_out := ch_out c @ [(h, r)], ch_waiter := None\<rparr>"

definition ch_push :: "'v \<Rightarrow> ('h, 'v) channel \<Rightarrow> ('h, 'v) channel" where
  "ch_push v c =
     (case ch_waiter c of Some h \<Rightarrow> ch_answer h (Some v) c | None \<Rightarrow> c\<lparr>ch_held := ch_held c @ [v]\<rparr>)"

definition ch_stop :: "('h, 'v) channel \<Rightarrow> ('h, 'v) channel" where
  "ch_stop c =
     (case ch_waiter c of Some h \<Rightarrow> ch_answer h None c | None \<Rightarrow> c\<lparr>ch_held := [], ch_abort := True\<rparr>)"

definition ch_pop :: "'h \<Rightarrow> ('h, 'v) channel \<Rightarrow> ('h, 'v) channel result" where
  "ch_pop h c =
     and_then (check (ch_waiter c = None) ''state_ == not_waiting'' c) (\<lambda>c.
       Inr (if ch_abort c then (ch_answer h None c)\<lparr>ch_abort := False\<rparr>
            else case ch_held c of
                [] \<Rightarrow> c\<lparr>ch_waiter := Some h\<rparr>
              | v # vs \<Rightarrow> (ch_answer h (Some v) c)\<lparr>ch_held := vs\<rparr>))"

lemmas ch_defs [model_defs] = ch_empty_def ch_answer_def ch_push_def ch_stop_def ch_pop_def

text \<open>The values delivered, and all that went in and was not dropped.\<close>

definition ch_values :: "('h, 'v) channel \<Rightarrow> 'v list" where
  "ch_values c = List.map_filter snd (ch_out c)"

section \<open>The channel the comments promise\<close>

text \<open>
  \<^verbatim>\<open>stop\<close> is to put the queue into an error state, clear its data, and cause all subsequent waits
  to fail. The record is the same one, but \<open>ch_abort\<close>, once set, stays: every later request is
  aborted, and what is pushed later reaches nobody.
\<close>

definition dch_push :: "'v \<Rightarrow> ('h, 'v) channel \<Rightarrow> ('h, 'v) channel" where
  "dch_push v c = (if ch_abort c then c else ch_push v c)"

definition dch_stop :: "('h, 'v) channel \<Rightarrow> ('h, 'v) channel" where
  "dch_stop c =
     (case ch_waiter c of Some h \<Rightarrow> ch_answer h None c | None \<Rightarrow> c)\<lparr>ch_held := [], ch_abort := True\<rparr>"

definition dch_pop :: "'h \<Rightarrow> ('h, 'v) channel \<Rightarrow> ('h, 'v) channel result" where
  "dch_pop h c =
     and_then (check (ch_waiter c = None) ''state_ == not_waiting'' c) (\<lambda>c.
       if ch_abort c then Inr (ch_answer h None c) else ch_pop h c)"

lemmas dch_defs [model_defs] = dch_push_def dch_stop_def dch_pop_def

section \<open>Sequences of calls\<close>

datatype ('h, 'v) ch_request = Ch_push 'v | Ch_stop | Ch_pop 'h

fun ch_call ::
    "('v \<Rightarrow> 'q \<Rightarrow> 'q) \<Rightarrow> ('q \<Rightarrow> 'q) \<Rightarrow> ('h \<Rightarrow> 'q \<Rightarrow> 'q result) \<Rightarrow> ('h, 'v) ch_request \<Rightarrow> 'q \<Rightarrow> 'q result" where
  "ch_call push stop pop (Ch_push v) q = Inr (push v q)"
| "ch_call push stop pop Ch_stop q = Inr (stop q)"
| "ch_call push stop pop (Ch_pop h) q = pop h q"

fun ch_calls ::
    "('v \<Rightarrow> 'q \<Rightarrow> 'q) \<Rightarrow> ('q \<Rightarrow> 'q) \<Rightarrow> ('h \<Rightarrow> 'q \<Rightarrow> 'q result) \<Rightarrow> ('h, 'v) ch_request list \<Rightarrow> 'q \<Rightarrow> 'q result" where
  "ch_calls push stop pop [] q = Inr q"
| "ch_calls push stop pop (c # cs) q = and_then (ch_call push stop pop c q) (ch_calls push stop pop cs)"

section \<open>The interface\<close>

text \<open>A queue that behaves as the channel its state stands for.\<close>

locale channel_queue =
  fixes push :: "'v \<Rightarrow> 'q \<Rightarrow> 'q" and stop :: "'q \<Rightarrow> 'q" and pop :: "'h \<Rightarrow> 'q \<Rightarrow> 'q result"
    and chan :: "'q \<Rightarrow> ('h, 'v) channel" and ok :: "'q \<Rightarrow> bool" and start :: 'q
  assumes start_law: "ok start \<and> chan start = ch_empty"
    and push_law: "ok q \<Longrightarrow> ok (push v q) \<and> chan (push v q) = ch_push v (chan q)"
    and stop_law: "ok q \<Longrightarrow> ok (stop q) \<and> chan (stop q) = ch_stop (chan q)"
    and pop_law: "ok q \<Longrightarrow> map_sum id chan (pop h q) = ch_pop h (chan q)"
    and pop_ok: "ok q \<Longrightarrow> pop h q = Inr r \<Longrightarrow> ok r"
begin

text \<open>A request is taken when no other one waits.\<close>

lemma pop_Inr: "ok q \<Longrightarrow> ch_waiter (chan q) = None \<Longrightarrow> \<exists>r. pop h q = Inr r \<and> ok r \<and> Inr (chan r) = ch_pop h (chan q)"
  using pop_law [of q h] pop_ok [of q h] by (cases "pop h q") (auto simp: ch_pop_def)

lemma call_law: "ok q \<Longrightarrow> map_sum id chan (ch_call push stop pop c q) = ch_call ch_push ch_stop ch_pop c (chan q)"
  by (cases c) (simp_all add: push_law stop_law pop_law)

lemma call_ok: "ok q \<Longrightarrow> ch_call push stop pop c q = Inr r \<Longrightarrow> ok r"
  by (cases c) (auto simp: push_law stop_law intro: pop_ok)

lemma calls_refine: "ok q \<Longrightarrow> map_sum id chan (ch_calls push stop pop cs q) = ch_calls ch_push ch_stop ch_pop cs (chan q)"
proof (induction cs arbitrary: q)
  case Nil
  then show ?case by simp
next
  case (Cons c cs)
  show ?case
  proof (cases "ch_call push stop pop c q")
    case (Inl x)
    with call_law [OF Cons.prems, of c] have "ch_call ch_push ch_stop ch_pop c (chan q) = Inl x" by simp
    with Inl show ?thesis by simp
  next
    case (Inr r)
    with call_law [OF Cons.prems, of c] have "ch_call ch_push ch_stop ch_pop c (chan q) = Inr (chan r)" by simp
    with Inr Cons.IH [OF call_ok [OF Cons.prems Inr]] show ?thesis by simp
  qed
qed

end

section \<open>The asynchronous queue is such a queue\<close>

definition aq_channel :: "('h, 'v) async_queue \<Rightarrow> ('h, 'v) channel" where
  "aq_channel q =
     \<lparr>ch_out = map (\<lambda>(h, e, v). (the h, if e = None then Some v else None)) (aq_posts q),
      ch_held = aq_values q, ch_waiter = aq_handler q, ch_abort = (aq_ec q \<noteq> None)\<rparr>"

definition aq_settled :: "('h, 'v) async_queue \<Rightarrow> bool" where
  "aq_settled q \<longleftrightarrow>
     (aq_state q = Waiting \<longleftrightarrow> aq_handler q \<noteq> None) \<and>
     (aq_state q = Waiting \<longrightarrow> aq_values q = [] \<and> aq_ec q = None) \<and> aq_tasks q = []"

interpretation aqc: channel_queue "aq_push True dflt" "aq_stop True dflt" "aq_async_pop True dflt"
  aq_channel aq_settled aq_construct for dflt
proof unfold_locales
  show "aq_settled aq_construct \<and> aq_channel aq_construct = ch_empty"
    by (simp add: aq_settled_def aq_channel_def aq_construct_def ch_empty_def)
next
  fix q :: "('b, 'a) async_queue" and v
  assume "aq_settled q"
  then show "aq_settled (aq_push True dflt v q) \<and> aq_channel (aq_push True dflt v q) = ch_push v (aq_channel q)"
    by (cases "aq_handler q") (auto simp: aq_settled_def aq_channel_def aq_defs ch_defs)
next
  fix q :: "('b, 'a) async_queue"
  assume "aq_settled q"
  then show "aq_settled (aq_stop True dflt q) \<and> aq_channel (aq_stop True dflt q) = ch_stop (aq_channel q)"
    by (cases "aq_handler q") (auto simp: aq_settled_def aq_channel_def aq_defs ch_defs)
next
  fix q r :: "('b, 'a) async_queue" and h
  assume q: "aq_settled q"
  then show "map_sum id aq_channel (aq_async_pop True dflt h q) = ch_pop h (aq_channel q)"
    by (cases "aq_handler q"; cases "aq_state q"; cases "aq_values q"; cases "aq_ec q")
      (simp_all add: aq_settled_def aq_channel_def aq_defs ch_defs)
  assume "aq_async_pop True dflt h q = Inr r"
  with q show "aq_settled r"
    by (cases "aq_values q"; cases "aq_ec q"; cases "aq_state q")
      (auto simp: aq_settled_def aq_defs)
qed

text \<open>The queue does what \<open>ch_push\<close>, \<open>ch_stop\<close> and \<open>ch_pop\<close> do, whatever is called.\<close>

lemma aq_calls_channel:
  "map_sum id aq_channel
     (ch_calls (aq_push True dflt) (aq_stop True dflt) (aq_async_pop True dflt) cs aq_construct) =
   ch_calls ch_push ch_stop ch_pop cs ch_empty"
  by (metis aqc.calls_refine aqc.start_law)

section \<open>Up to the first aborted request\<close>

text \<open>The answers up to and including the first abort.\<close>

definition first_abort :: "('h \<times> 'v option) list \<Rightarrow> ('h \<times> 'v option) list" where
  "first_abort xs =
     takeWhile (\<lambda>x. snd x \<noteq> None) xs @ take 1 (dropWhile (\<lambda>x. snd x \<noteq> None) xs)"

definition aborted :: "('h, 'v) channel \<Rightarrow> bool" where
  "aborted c \<longleftrightarrow> None \<in> snd ` set (ch_out c)"

lemma first_abort_append: "None \<in> snd ` set xs \<Longrightarrow> first_abort (xs @ ys) = first_abort xs"
  by (induction xs) (auto simp: first_abort_def)

text \<open>
  The two channels side by side: they have answered alike and nobody was aborted, with or
  without a stop; or somebody was, and they answered alike up to there.
\<close>

definition ch_alike :: "('h, 'v) channel \<Rightarrow> ('h, 'v) channel \<Rightarrow> bool" where
  "ch_alike c d \<longleftrightarrow> ch_out c = ch_out d \<and> \<not> aborted c \<and> ch_waiter c = ch_waiter d \<and> ch_abort c = ch_abort d \<and>
     (if ch_abort c then ch_waiter c = None else ch_held c = ch_held d)"

definition ch_after_abort :: "('h, 'v) channel \<Rightarrow> ('h, 'v) channel \<Rightarrow> bool" where
  "ch_after_abort c d \<longleftrightarrow> aborted c \<and> aborted d \<and> ch_abort d \<and> ch_waiter d = None \<and>
     first_abort (ch_out c) = first_abort (ch_out d)"

lemma ch_alike_empty: "ch_alike ch_empty ch_empty"
  by (simp add: ch_alike_def ch_empty_def aborted_def)

lemma ch_alike_out: "ch_alike c d \<Longrightarrow> first_abort (ch_out c) = first_abort (ch_out d)"
  by (simp add: ch_alike_def)

lemma ch_alike_step:
  assumes "ch_alike c d"
  shows "(\<exists>x. ch_call ch_push ch_stop ch_pop r c = Inl x \<and> ch_call dch_push dch_stop dch_pop r d = Inl x) \<or>
    (\<exists>c' d'. ch_call ch_push ch_stop ch_pop r c = Inr c' \<and> ch_call dch_push dch_stop dch_pop r d = Inr d' \<and>
       (ch_alike c' d' \<or>
        ch_after_abort c' d' \<and> ch_out c' = ch_out d' \<and> ch_waiter c' = None))"
proof (cases r)
  case (Ch_push v)
  with assms show ?thesis
    by (auto simp: ch_alike_def ch_defs dch_defs aborted_def split: option.splits if_splits)
next
  case Ch_stop
  with assms show ?thesis
    by (auto simp: ch_alike_def ch_after_abort_def ch_defs dch_defs aborted_def split: option.splits if_splits)
next
  case (Ch_pop h)
  with assms show ?thesis
    by (cases "ch_held d")
      (auto simp: ch_alike_def ch_after_abort_def ch_defs dch_defs aborted_def check_def split: if_splits)
qed

text \<open>Answers are only ever added.\<close>

lemma ch_call_out:
  "ch_call ch_push ch_stop ch_pop r c = Inr c' \<Longrightarrow> \<exists>zs. ch_out c' = ch_out c @ zs"
  by (cases r) (auto simp: ch_defs and_then_Inr split: option.splits list.splits if_splits)

lemma dch_call_closed:
  assumes "ch_abort d" "ch_waiter d = None"
  shows "\<exists>d' zs. ch_call dch_push dch_stop dch_pop r d = Inr d' \<and> ch_out d' = ch_out d @ zs \<and>
    ch_abort d' \<and> ch_waiter d' = None"
  using assms by (cases r) (auto simp: ch_answer_def dch_defs check_def)

lemma ch_after_abort_step:
  assumes "ch_after_abort c d" "ch_call ch_push ch_stop ch_pop r c = Inr c'"
  shows "\<exists>d'. ch_call dch_push dch_stop dch_pop r d = Inr d' \<and> ch_after_abort c' d'"
proof -
  have d: "ch_abort d" "ch_waiter d = None" and n: "None \<in> snd ` set (ch_out c)" "None \<in> snd ` set (ch_out d)"
    and same: "first_abort (ch_out c) = first_abort (ch_out d)"
    using assms(1) by (auto simp: ch_after_abort_def aborted_def simp del: image_iff)
  obtain ys where "ch_out c' = ch_out c @ ys" using ch_call_out [OF assms(2)] by blast
  moreover obtain d' zs where "ch_call dch_push dch_stop dch_pop r d = Inr d'" "ch_out d' = ch_out d @ zs"
      "ch_abort d'" "ch_waiter d' = None"
    using dch_call_closed [OF d] by blast
  ultimately show ?thesis
    using n same by (simp add: ch_after_abort_def aborted_def first_abort_append image_Un del: image_iff)
qed

lemma ch_calls_first_abort:
  "ch_alike c d \<or> ch_after_abort c d \<Longrightarrow> ch_calls ch_push ch_stop ch_pop cs c = Inr c' \<Longrightarrow>
   \<exists>d'. ch_calls dch_push dch_stop dch_pop cs d = Inr d' \<and> first_abort (ch_out c') = first_abort (ch_out d')"
proof (induction cs arbitrary: c d)
  case Nil
  then show ?case by (auto simp: ch_alike_out ch_after_abort_def)
next
  case (Cons r cs)
  obtain c1 where c1: "ch_call ch_push ch_stop ch_pop r c = Inr c1" "ch_calls ch_push ch_stop ch_pop cs c1 = Inr c'"
    using Cons.prems(2) by (auto simp: and_then_Inr)
  have "\<exists>d1. ch_call dch_push dch_stop dch_pop r d = Inr d1 \<and> (ch_alike c1 d1 \<or> ch_after_abort c1 d1)"
    using Cons.prems(1) ch_alike_step [of c d r] ch_after_abort_step [of c d r c1] c1(1) by auto
  with Cons.IH [OF _ c1(2)] show ?case by auto
qed

text \<open>
  A consumer that gives up: once a request of its has been aborted it makes no other one.
\<close>

fun gives_up :: "('h, 'v) ch_request list \<Rightarrow> ('h, 'v) channel \<Rightarrow> bool" where
  "gives_up [] d = True"
| "gives_up (r # rs) d =
     ((case r of Ch_pop h \<Rightarrow> \<not> aborted d | _ \<Rightarrow> True) \<and>
      (case ch_call dch_push dch_stop dch_pop r d of Inl x \<Rightarrow> True | Inr d' \<Rightarrow> gives_up rs d'))"

lemma gives_up_calls:
  "ch_alike c d \<or> ch_after_abort c d \<and> ch_out c = ch_out d \<and> ch_waiter c = None \<Longrightarrow> gives_up cs d \<Longrightarrow>
   map_sum id ch_out (ch_calls ch_push ch_stop ch_pop cs c) = map_sum id ch_out (ch_calls dch_push dch_stop dch_pop cs d)"
proof (induction cs arbitrary: c d)
  case Nil
  then show ?case by (auto simp: ch_alike_def)
next
  case (Cons r cs)
  show ?case
  proof (cases "ch_alike c d")
    case True
    with ch_alike_step [OF this, of r] Cons.IH Cons.prems(2) show ?thesis by auto
  next
    case False
    with Cons.prems(1) have late: "ch_after_abort c d" "ch_out c = ch_out d" "ch_waiter c = None" by auto
    with Cons.prems(2) have "\<nexists>h. r = Ch_pop h" by (auto simp: ch_after_abort_def)
    with late obtain c' where c': "ch_call ch_push ch_stop ch_pop r c = Inr c'" "ch_out c' = ch_out c" "ch_waiter c' = None"
      by (cases r) (auto simp: ch_defs)
    from late \<open>\<nexists>h. r = Ch_pop h\<close> obtain d' where
      d': "ch_call dch_push dch_stop dch_pop r d = Inr d'" "ch_out d' = ch_out d" "ch_waiter d' = None" "ch_abort d'"
      by (cases r) (auto simp: ch_after_abort_def dch_defs)
    from late c' d' have "ch_after_abort c' d'" "ch_out c' = ch_out d'"
      by (simp_all add: ch_after_abort_def aborted_def)
    with Cons.IH [of c' d'] Cons.prems(2) c' d' show ?thesis by simp
  qed
qed

section \<open>Properties\<close>

text \<open>
  C6. What the queue keeps of its documented contract, on its own executor, and what it does not. The
  contract: pops are answered one at a time with the values in the order pushed, and a stop makes
  all subsequent waits fail. For every sequence of pushes, pops and stops that the queue takes, the
  contract takes it too and the answers the queue has posted are the documented ones up to and
  including the first aborted request. To a consumer that makes no request once one has been
  aborted, the queue is the documented channel: it fails exactly when that one does (a pop while
  another waits), and otherwise posts exactly its answers. To one that goes on it is not: after a
  stop a first request is aborted as documented, and a second one waits instead of failing, and
  gets the next value pushed.
\<close>

theorem aq_refines_channel:
  "(\<forall>q. ch_calls (aq_push True dflt) (aq_stop True dflt) (aq_async_pop True dflt) cs aq_construct = Inr q \<longrightarrow>
      (\<exists>c. ch_calls dch_push dch_stop dch_pop cs ch_empty = Inr c \<and>
         first_abort (ch_out (aq_channel q)) = first_abort (ch_out c))) \<and>
   (gives_up cs ch_empty \<longrightarrow>
      map_sum id (\<lambda>q. ch_out (aq_channel q))
        (ch_calls (aq_push True dflt) (aq_stop True dflt) (aq_async_pop True dflt) cs aq_construct) =
      map_sum id ch_out (ch_calls dch_push dch_stop dch_pop cs ch_empty)) \<and>
   (\<exists>q c. ch_calls (aq_push True dflt) (aq_stop True dflt) (aq_async_pop True dflt)
        [Ch_stop, Ch_pop x, Ch_pop y, Ch_push v] aq_construct = Inr q \<and>
      ch_calls dch_push dch_stop dch_pop [Ch_stop, Ch_pop x, Ch_pop y, Ch_push v] ch_empty = Inr c \<and>
      ch_out (aq_channel q) = [(x, None), (y, Some v)] \<and> ch_out c = [(x, None), (y, None)])"
proof (intro conjI allI impI)
  let ?run = "ch_calls (aq_push True dflt) (aq_stop True dflt) (aq_async_pop True dflt) cs aq_construct"
  note run = aq_calls_channel [of dflt cs]
  show "\<exists>c. ch_calls dch_push dch_stop dch_pop cs ch_empty = Inr c \<and>
      first_abort (ch_out (aq_channel q)) = first_abort (ch_out c)" if "?run = Inr q" for q
    using ch_calls_first_abort [OF disjI1 [OF ch_alike_empty], of cs "aq_channel q"] run that by simp
  show "map_sum id (\<lambda>q. ch_out (aq_channel q)) ?run = map_sum id ch_out (ch_calls dch_push dch_stop dch_pop cs ch_empty)"
    if "gives_up cs ch_empty"
  proof -
    have "map_sum id (\<lambda>q. ch_out (aq_channel q)) ?run = map_sum id ch_out (map_sum id aq_channel ?run)"
      by (cases ?run) simp_all
    with gives_up_calls [OF disjI1 [OF ch_alike_empty] that] run show ?thesis by simp
  qed
qed (simp add: aq_channel_def aq_defs ch_defs dch_defs)

text \<open>
  A consumer that gets two values, is stopped while it waits, and leaves; a value pushed later.
\<close>

theorem aq_refines_channel_witness:
  "map_sum id (\<lambda>q. ch_out (aq_channel q))
     (ch_calls (aq_push True CHR ''0'') (aq_stop True CHR ''0'') (aq_async_pop True CHR ''0'')
       [Ch_push CHR ''a'', Ch_pop (1 :: nat), Ch_pop 2, Ch_push CHR ''b'', Ch_pop 3, Ch_stop, Ch_push CHR ''c'']
       aq_construct) =
   Inr [(1, Some CHR ''a''), (2, Some CHR ''b''), (3, None)]"
proof -
  let ?cs = "[Ch_push CHR ''a'', Ch_pop (1 :: nat), Ch_pop 2, Ch_push CHR ''b'', Ch_pop 3, Ch_stop, Ch_push CHR ''c'']"
  have g: "gives_up ?cs ch_empty" and d: "map_sum id ch_out (ch_calls dch_push dch_stop dch_pop ?cs ch_empty) =
      Inr [(1, Some CHR ''a''), (2, Some CHR ''b''), (3, None)]"
    by (simp_all add: ch_defs dch_defs aborted_def check_def)
  from aq_refines_channel [THEN conjunct2, THEN conjunct1, rule_format, OF g] d
  show ?thesis by (rule trans)
qed

end
