(* ===== verification/Queue_Lifetime.thy ===== *)
theory Queue_Lifetime
  imports Async_Queue
begin

text \<open>
  Who keeps an asynchronous queue alive. \<^verbatim>\<open>async_queue_impl\<close> counts its references: the owning
  handle \<^verbatim>\<open>basic_async_queue\<close> holds one, and so does every function its operations give to the
  executor. The theory puts the handles, the counts and the queues of Async_Queue together.
\<close>

section \<open>State\<close>

text \<open>
  The implementations allocated so far are those below \<open>qh_next\<close>; \<open>qh_freed\<close> are the deleted
  ones. A handle is null once it has been moved from or destroyed.
\<close>

record ('h, 'v) qheap =
  qh_store :: "('h, 'v) aq_store"
  qh_refs :: "nat \<Rightarrow> nat"
  qh_freed :: "nat set"
  qh_next :: nat
  qh_handles :: "nat option list"

definition qh_empty :: "('h, 'v) qheap" where
  "qh_empty = \<lparr>qh_store = (\<lambda>p. aq_construct), qh_refs = (\<lambda>p. 0), qh_freed = {}, qh_next = 0, qh_handles = []\<rparr>"

section \<open>The reference count\<close>

text \<open>
  What Boost documents for \<^verbatim>\<open>intrusive_ref_counter\<close>: making a pointer adds a reference,
  destroying one takes it away, and taking the last one away deletes the object.
\<close>

definition qh_add_ref :: "nat \<Rightarrow> ('h, 'v) qheap \<Rightarrow> ('h, 'v) qheap" where
  "qh_add_ref p h = h\<lparr>qh_refs := (qh_refs h)(p := Suc (qh_refs h p))\<rparr>"

definition qh_release :: "nat \<Rightarrow> ('h, 'v) qheap \<Rightarrow> ('h, 'v) qheap" where
  "qh_release p h =
     h\<lparr>qh_refs := (qh_refs h)(p := qh_refs h p - 1),
       qh_freed := (if qh_refs h p = 1 then insert p (qh_freed h) else qh_freed h)\<rparr>"

definition qh_construct :: "('h, 'v) qheap \<Rightarrow> nat \<times> ('h, 'v) qheap" where
  "qh_construct h =
     (let p = qh_next h
      in (p, qh_add_ref p (h\<lparr>qh_store := (qh_store h)(p := aq_construct), qh_next := Suc p\<rparr>)))"

section \<open>The operations of the implementation\<close>

definition qh_update :: "nat \<Rightarrow> (('h, 'v) async_queue \<Rightarrow> ('h, 'v) async_queue) \<Rightarrow> ('h, 'v) qheap \<Rightarrow> ('h, 'v) qheap" where
  "qh_update p f h = h\<lparr>qh_store := (qh_store h)(p := f (qh_store h p))\<rparr>"

definition qh_deref :: "nat \<Rightarrow> ('h, 'v) qheap \<Rightarrow> ('h, 'v) qheap result" where
  "qh_deref p h = (if p \<in> qh_freed h then Inl (Undefined ''use after free'') else Inr h)"

text \<open>
  \<^verbatim>\<open>net::dispatch\<close> of a function that captures \<^verbatim>\<open>self\<close>: the reference lives as long as the
  function, to the end of the call when it is run at once.
\<close>

definition qh_dispatch :: "bool \<Rightarrow> 'v \<Rightarrow> 'v aq_task \<Rightarrow> nat \<Rightarrow> ('h, 'v) qheap \<Rightarrow> ('h, 'v) qheap result" where
  "qh_dispatch inside dflt t p h =
     and_then (qh_deref p h) (\<lambda>h.
       let h1 = qh_update p (aq_dispatch inside dflt t) (qh_add_ref p h)
       in Inr (if inside then qh_release p h1 else h1))"

definition qh_async_pop :: "bool \<Rightarrow> 'v \<Rightarrow> 'h \<Rightarrow> nat \<Rightarrow> ('h, 'v) qheap \<Rightarrow> ('h, 'v) qheap result" where
  "qh_async_pop inside dflt x p h =
     and_then (qh_deref p h) (\<lambda>h.
     and_then (check (aq_state (qh_store h p) = Not_waiting) ''state_ == not_waiting'' h) (\<lambda>h.
       qh_dispatch inside dflt Complete_task p (qh_update p (\<lambda>q. aq_arm (aq_store_handler x q)) h)))"

text \<open>One turn of the executor: the function is run and destroyed, and its reference with it.\<close>

definition qh_exec :: "'v \<Rightarrow> nat \<Rightarrow> ('h, 'v) qheap \<Rightarrow> ('h, 'v) qheap result" where
  "qh_exec dflt p h =
     and_then (qh_deref p h) (\<lambda>h.
       Inr (if aq_tasks (qh_store h p) = [] then h else qh_release p (qh_update p (aq_exec dflt) h)))"

section \<open>The handles\<close>

definition bh_new :: "('h, 'v) qheap \<Rightarrow> ('h, 'v) qheap" where
  "bh_new h = (case qh_construct h of (p, h1) \<Rightarrow> h1\<lparr>qh_handles := qh_handles h1 @ [Some p]\<rparr>)"

text \<open>The move constructor makes a handle from handle \<open>i\<close>.\<close>

definition bh_move :: "nat \<Rightarrow> ('h, 'v) qheap \<Rightarrow> ('h, 'v) qheap" where
  "bh_move i h = h\<lparr>qh_handles := (qh_handles h)[i := None] @ [qh_handles h ! i]\<rparr>"

text \<open>The destructor's body, and the destruction of the pointer it is left with.\<close>

definition bh_drop :: "bool \<Rightarrow> 'v \<Rightarrow> nat option \<Rightarrow> ('h, 'v) qheap \<Rightarrow> ('h, 'v) qheap result" where
  "bh_drop inside dflt impl h =
     (case impl of
        None \<Rightarrow> Inr h
      | Some p \<Rightarrow> and_then (qh_dispatch inside dflt Stop_task p h) (\<lambda>h. Inr (qh_release p h)))"

definition bh_destroy :: "bool \<Rightarrow> 'v \<Rightarrow> nat \<Rightarrow> ('h, 'v) qheap \<Rightarrow> ('h, 'v) qheap result" where
  "bh_destroy inside dflt i h =
     bh_drop inside dflt (qh_handles h ! i) (h\<lparr>qh_handles := (qh_handles h)[i := None]\<rparr>)"

text \<open>
  Assignment of handle \<open>j\<close> to handle \<open>i\<close>: a temporary takes the pointer of \<open>j\<close>, is swapped with
  \<open>i\<close>, and is destroyed with what \<open>i\<close> held.
\<close>

definition bh_assign :: "bool \<Rightarrow> 'v \<Rightarrow> nat \<Rightarrow> nat \<Rightarrow> ('h, 'v) qheap \<Rightarrow> ('h, 'v) qheap result" where
  "bh_assign inside dflt i j h =
     (let tmp = qh_handles h ! j;
          h1 = h\<lparr>qh_handles := (qh_handles h)[j := None]\<rparr>;
          old = qh_handles h1 ! i
      in bh_drop inside dflt old (h1\<lparr>qh_handles := (qh_handles h1)[i := tmp]\<rparr>))"

definition bh_call :: "nat \<Rightarrow> (nat \<Rightarrow> ('h, 'v) qheap \<Rightarrow> ('h, 'v) qheap result) \<Rightarrow> ('h, 'v) qheap \<Rightarrow> ('h, 'v) qheap result" where
  "bh_call i f h =
     (case qh_handles h ! i of None \<Rightarrow> Inl (Undefined ''null impl_'') | Some p \<Rightarrow> f p h)"

lemmas qh_defs [model_defs] =
  qh_empty_def qh_add_ref_def qh_release_def qh_construct_def qh_update_def qh_deref_def qh_dispatch_def
  qh_async_pop_def qh_exec_def bh_new_def bh_move_def bh_drop_def bh_destroy_def bh_assign_def bh_call_def

text \<open>On the queues themselves the operations are those of Async_Queue, which leave the counts out.\<close>

lemma qh_dispatch_store:
  "qh_dispatch inside dflt t p h = Inr k \<Longrightarrow> qh_store k = (qh_store h)(p := aq_dispatch inside dflt t (qh_store h p))"
  by (auto simp: qh_dispatch_def qh_deref_def qh_update_def qh_add_ref_def qh_release_def Let_def split: if_splits)

lemma bh_calls_store:
  "bh_call i (qh_dispatch inside dflt (Push_task v)) h = Inr k \<Longrightarrow>
     baq_push inside dflt v (qh_handles h ! i) (qh_store h) = Inr (qh_store k)"
  "bh_call i (qh_dispatch inside dflt Stop_task) h = Inr k \<Longrightarrow>
     baq_stop inside dflt (qh_handles h ! i) (qh_store h) = Inr (qh_store k)"
  "bh_call i (qh_async_pop inside dflt x) h = Inr k \<Longrightarrow>
     baq_async_pop inside dflt x (qh_handles h ! i) (qh_store h) = Inr (qh_store k)"
  by (auto simp: bh_call_def baq_push_def baq_stop_def baq_async_pop_def qh_async_pop_def aq_push_def aq_stop_def
      aq_async_pop_def and_then_Inr qh_update_def qh_deref_def dest!: qh_dispatch_store split: option.splits if_splits)

lemma bh_destroy_store:
  "bh_destroy inside dflt i h = Inr k \<Longrightarrow> qh_store k = baq_destroy inside dflt (qh_handles h ! i) (qh_store h)"
  by (auto simp: bh_destroy_def bh_drop_def baq_destroy_def aq_stop_def and_then_Inr qh_release_def
      dest!: qh_dispatch_store split: option.splits)

section \<open>Events\<close>

text \<open>
  What the owners of the handles do, each from inside or outside the executor, and the executor's
  turns. The owners may call through any handle they have, null or not, and pop whatever the state
  of the queue is: \<open>qh_enabled\<close> says only that the handle exists and that the executor has a
  function to run.
\<close>

datatype ('h, 'v) qh_event =
    Bh_new
  | Bh_move nat
  | Bh_assign bool nat nat
  | Bh_destroy bool nat
  | Bh_push bool 'v nat
  | Bh_stop bool nat
  | Bh_pop bool 'h nat
  | Qh_exec nat

fun qh_step :: "'v \<Rightarrow> ('h, 'v) qheap \<Rightarrow> ('h, 'v) qh_event \<Rightarrow> ('h, 'v) qheap result" where
  "qh_step dflt h Bh_new = Inr (bh_new h)"
| "qh_step dflt h (Bh_move i) = Inr (bh_move i h)"
| "qh_step dflt h (Bh_assign inside i j) = bh_assign inside dflt i j h"
| "qh_step dflt h (Bh_destroy inside i) = bh_destroy inside dflt i h"
| "qh_step dflt h (Bh_push inside v i) = bh_call i (qh_dispatch inside dflt (Push_task v)) h"
| "qh_step dflt h (Bh_stop inside i) = bh_call i (qh_dispatch inside dflt Stop_task) h"
| "qh_step dflt h (Bh_pop inside x i) = bh_call i (qh_async_pop inside dflt x) h"
| "qh_step dflt h (Qh_exec p) = qh_exec dflt p h"

definition bh_holds :: "('h, 'v) qheap \<Rightarrow> nat \<Rightarrow> nat option" where
  "bh_holds h i = (if i < length (qh_handles h) then qh_handles h ! i else None)"

fun qh_enabled :: "('h, 'v) qheap \<Rightarrow> ('h, 'v) qh_event \<Rightarrow> bool" where
  "qh_enabled h Bh_new \<longleftrightarrow> True"
| "qh_enabled h (Bh_move i) \<longleftrightarrow> i < length (qh_handles h)"
| "qh_enabled h (Bh_assign inside i j) \<longleftrightarrow> i < length (qh_handles h) \<and> j < length (qh_handles h)"
| "qh_enabled h (Bh_destroy inside i) \<longleftrightarrow> i < length (qh_handles h)"
| "qh_enabled h (Bh_push inside v i) \<longleftrightarrow> i < length (qh_handles h)"
| "qh_enabled h (Bh_stop inside i) \<longleftrightarrow> i < length (qh_handles h)"
| "qh_enabled h (Bh_pop inside x i) \<longleftrightarrow> i < length (qh_handles h)"
| "qh_enabled h (Qh_exec p) \<longleftrightarrow> p < qh_next h \<and> aq_tasks (qh_store h p) \<noteq> []"

text \<open>
  The ways an owner can misuse a queue, and what comes of them: a call through a null handle, and a
  pop of a queue on which a consumer waits already.
\<close>

fun qh_misuse :: "('h, 'v) qheap \<Rightarrow> ('h, 'v) qh_event \<Rightarrow> fault option" where
  "qh_misuse h (Bh_push inside v i) = (if bh_holds h i = None then Some (Undefined ''null impl_'') else None)"
| "qh_misuse h (Bh_stop inside i) = (if bh_holds h i = None then Some (Undefined ''null impl_'') else None)"
| "qh_misuse h (Bh_pop inside x i) =
     (case bh_holds h i of
        None \<Rightarrow> Some (Undefined ''null impl_'')
      | Some p \<Rightarrow>
          if aq_state (qh_store h p) = Waiting then Some (Assertion ''state_ == not_waiting'') else None)"
| "qh_misuse h _ = None"

abbreviation qh_reachable :: "'v \<Rightarrow> ('h, 'v) qheap \<Rightarrow> bool" where
  "qh_reachable dflt \<equiv> reachable qh_enabled (qh_step dflt) qh_empty"

section \<open>Invariant\<close>

text \<open>
  One implementation, referred to by \<open>n\<close> handles: the count is the number of its references, it is
  deleted when there is none left, and once it has no handle a consumer still waiting has a stop to
  come.
\<close>

definition qh_cell :: "nat \<Rightarrow> nat \<Rightarrow> ('h, 'v) qheap \<Rightarrow> bool" where
  "qh_cell n p h \<longleftrightarrow>
     (let q = qh_store h p in
      qh_refs h p = n + length (aq_tasks q) \<and> (p \<in> qh_freed h \<longleftrightarrow> qh_refs h p = 0) \<and>
      (n = 0 \<longrightarrow> Stop_task \<in> set (aq_tasks q) \<or> aq_state q = Not_waiting) \<and>
      (aq_state q = Not_waiting \<longrightarrow> aq_handler q = None))"

definition qh_frame :: "nat \<Rightarrow> ('h, 'v) qheap \<Rightarrow> ('h, 'v) qheap \<Rightarrow> bool" where
  "qh_frame p h k \<longleftrightarrow> qh_next k = qh_next h \<and> qh_handles k = qh_handles h \<and>
     (\<forall>q. q \<noteq> p \<longrightarrow> qh_store k q = qh_store h q \<and> qh_refs k q = qh_refs h q \<and> (q \<in> qh_freed k \<longleftrightarrow> q \<in> qh_freed h))"

definition qh_inv :: "('h, 'v) qheap \<Rightarrow> bool" where
  "qh_inv h \<longleftrightarrow> (\<forall>p. count_list (qh_handles h) (Some p) \<le> 1 \<and>
     (if p < qh_next h then qh_cell (count_list (qh_handles h) (Some p)) p h
      else count_list (qh_handles h) (Some p) = 0 \<and> qh_refs h p = 0 \<and> p \<notin> qh_freed h))"

lemma aq_run_task_tasks [simp]: "aq_tasks (aq_run_task dflt t q) = aq_tasks q"
  by (cases t) (simp_all add: aq_maybe_complete_def)

lemma aq_run_task_disarmed:
  "aq_state q = Not_waiting \<longrightarrow> aq_handler q = None \<Longrightarrow>
     (aq_state (aq_run_task dflt t q) = Not_waiting \<longrightarrow> aq_handler (aq_run_task dflt t q) = None) \<and>
     (t = Stop_task \<or> aq_state q = Not_waiting \<longrightarrow> aq_state (aq_run_task dflt t q) = Not_waiting)"
  by (cases t; cases "aq_state q") (auto simp: aq_maybe_complete_def)

lemma qh_frame_cell: "qh_frame p h k \<Longrightarrow> q \<noteq> p \<Longrightarrow> qh_cell n q k = qh_cell n q h"
  by (simp add: qh_frame_def qh_cell_def)

lemma qh_dispatch_ok:
  assumes "qh_cell n p h" "0 < n"
  shows "\<exists>k. qh_dispatch inside dflt t p h = Inr k \<and> qh_cell n p k \<and> qh_frame p h k \<and>
    (t = Stop_task \<longrightarrow> Stop_task \<in> set (aq_tasks (qh_store k p)) \<or> aq_state (qh_store k p) = Not_waiting)"
  using assms aq_run_task_disarmed [of "qh_store h p" dflt t]
  by (cases inside)
    (auto simp: qh_dispatch_def qh_deref_def qh_update_def qh_add_ref_def qh_release_def aq_dispatch_def
      qh_cell_def qh_frame_def Let_def)

lemma qh_drop_ok:
  assumes "qh_cell 1 p h"
  shows "\<exists>k. bh_drop inside dflt (Some p) h = Inr k \<and> qh_cell 0 p k \<and> qh_frame p h k"
proof -
  obtain l where l: "qh_dispatch inside dflt Stop_task p h = Inr l" "qh_cell 1 p l" "qh_frame p h l"
      "Stop_task \<in> set (aq_tasks (qh_store l p)) \<or> aq_state (qh_store l p) = Not_waiting"
    using qh_dispatch_ok [OF assms, of inside dflt Stop_task] by auto
  then have "qh_cell 0 p (qh_release p l)" "qh_frame p h (qh_release p l)"
    by (auto simp: qh_cell_def qh_frame_def qh_release_def Let_def)
  with l(1) show ?thesis by (simp add: bh_drop_def)
qed

lemma qh_exec_ok:
  assumes "qh_cell n p h" "aq_tasks (qh_store h p) \<noteq> []"
  shows "\<exists>k. qh_exec dflt p h = Inr k \<and> qh_cell n p k \<and> qh_frame p h k \<and>
    length (aq_tasks (qh_store k p)) < length (aq_tasks (qh_store h p))"
proof -
  obtain t ts where ts: "aq_tasks (qh_store h p) = t # ts" using assms(2) by (cases "aq_tasks (qh_store h p)") auto
  with assms(1) aq_run_task_disarmed [of "(qh_store h p)\<lparr>aq_tasks := ts\<rparr>" dflt t] show ?thesis
    by (auto simp: qh_exec_def qh_deref_def qh_update_def qh_release_def aq_exec_def qh_cell_def qh_frame_def Let_def)
qed

lemma qh_async_pop_ok:
  assumes "qh_cell n p h" "0 < n" "aq_state (qh_store h p) = Not_waiting"
  shows "\<exists>k. qh_async_pop inside dflt x p h = Inr k \<and> qh_cell n p k \<and> qh_frame p h k"
proof -
  let ?h = "qh_update p (\<lambda>q. aq_arm (aq_store_handler x q)) h"
  have "qh_cell n p ?h" "qh_frame p h ?h"
    using assms by (auto simp: qh_cell_def qh_frame_def qh_update_def aq_arm_def aq_store_handler_def Let_def)
  moreover have "qh_deref p h = Inr h" using assms(1,2) by (simp add: qh_deref_def qh_cell_def Let_def)
  ultimately show ?thesis
    using qh_dispatch_ok [of n p ?h inside dflt Complete_task] assms(2,3)
    by (auto simp: qh_async_pop_def qh_frame_def)
qed

text \<open>How the handles change.\<close>

lemma count_list_update:
  "i < length xs \<Longrightarrow> count_list (xs[i := y]) z + (if xs ! i = z then 1 else 0) = count_list xs z + (if y = z then 1 else 0)"
proof (induction xs arbitrary: i)
  case (Cons x xs)
  show ?case
  proof (cases i)
    case (Suc n)
    with Cons.IH [of n] Cons.prems show ?thesis by auto
  qed auto
qed simp

lemma count_list_clear:
  "i < length xs \<Longrightarrow> count_list (xs[i := None]) (Some p) = count_list xs (Some p) - (if xs ! i = Some p then 1 else 0)"
  using count_list_update [of i xs None "Some p"] by (auto split: if_splits)

lemma count_list_nth: "i < length xs \<Longrightarrow> 0 < count_list xs (xs ! i)"
  by simp

text \<open>Handing the pointer of \<open>j\<close> over to \<open>i\<close>: what \<open>i\<close> held is held once less.\<close>

lemma count_list_hand_over:
  assumes "i < length xs" "j < length xs"
  shows "count_list (xs[j := None, i := xs ! j]) (Some p) =
    count_list xs (Some p) - (if xs[j := None] ! i = Some p then 1 else 0)"
  using count_list_update [of j xs None "Some p"] count_list_update [of i "xs[j := None]" "xs ! j" "Some p"] assms
  by (auto split: if_splits)

lemma qh_inv_cell: "qh_inv h \<Longrightarrow> i < length (qh_handles h) \<Longrightarrow> qh_handles h ! i = Some p \<Longrightarrow>
    p < qh_next h \<and> count_list (qh_handles h) (Some p) = 1 \<and> qh_cell 1 p h"
  unfolding qh_inv_def using count_list_nth [of i "qh_handles h"]
  by (metis (full_types) One_nat_def le_antisym less_one not_less Suc_leI)

lemma qh_holds_cell: "qh_inv h \<Longrightarrow> bh_holds h i = Some p \<Longrightarrow> qh_cell 1 p h"
  using qh_inv_cell [of h i p] by (simp add: bh_holds_def split: if_splits)

lemma qh_inv_change:
  assumes "qh_inv h" "qh_frame p (h\<lparr>qh_handles := hs\<rparr>) k" "p < qh_next h"
    and "\<And>q. q \<noteq> p \<Longrightarrow> count_list hs (Some q) = count_list (qh_handles h) (Some q)"
    and "count_list hs (Some p) \<le> 1" "qh_cell (count_list hs (Some p)) p k"
  shows "qh_inv k"
  unfolding qh_inv_def
proof
  fix q
  show "count_list (qh_handles k) (Some q) \<le> 1 \<and>
     (if q < qh_next k then qh_cell (count_list (qh_handles k) (Some q)) q k
      else count_list (qh_handles k) (Some q) = 0 \<and> qh_refs k q = 0 \<and> q \<notin> qh_freed k)"
  proof (cases "q = p")
    case True
    with assms show ?thesis by (simp add: qh_frame_def)
  next
    case False
    with assms(1) have "count_list (qh_handles h) (Some q) \<le> 1 \<and>
       (if q < qh_next h then qh_cell (count_list (qh_handles h) (Some q)) q h
        else count_list (qh_handles h) (Some q) = 0 \<and> qh_refs h q = 0 \<and> q \<notin> qh_freed h)"
      unfolding qh_inv_def by blast
    then show ?thesis
      using qh_frame_cell [OF assms(2) False] assms(2) assms(4) [OF False] False
      by (auto simp: qh_frame_def qh_cell_def split: if_splits)
  qed
qed

lemma qh_cell_handles [simp]: "qh_cell n p (h\<lparr>qh_handles := hs\<rparr>) = qh_cell n p h"
  by (simp add: qh_cell_def)

lemma qh_inv_handles:
  assumes "qh_inv h" "\<And>q. count_list hs (Some q) = count_list (qh_handles h) (Some q)"
  shows "qh_inv (h\<lparr>qh_handles := hs\<rparr>)"
  using assms by (simp add: qh_inv_def)

lemma qh_call_ok:
  assumes "qh_inv h" "bh_holds h i = Some p" "\<exists>k. f p h = Inr k \<and> qh_cell 1 p k \<and> qh_frame p h k"
  shows "\<exists>k. bh_call i f h = Inr k \<and> qh_inv k"
proof -
  have i: "i < length (qh_handles h)" "qh_handles h ! i = Some p"
    using assms(2) by (auto simp: bh_holds_def split: if_splits)
  obtain k where k: "f p h = Inr k" "qh_cell 1 p k" "qh_frame p h k" using assms(3) by blast
  have "qh_inv k"
    by (rule qh_inv_change [OF assms(1), of p "qh_handles h"]) (use qh_inv_cell [OF assms(1) i] k in auto)
  with i k(1) show ?thesis by (simp add: bh_call_def)
qed

lemma qh_new_inv:
  assumes "qh_inv h"
  shows "qh_inv (bh_new h)"
  unfolding qh_inv_def
proof
  fix p
  have "count_list (qh_handles h) (Some p) \<le> 1 \<and>
     (if p < qh_next h then qh_cell (count_list (qh_handles h) (Some p)) p h
      else count_list (qh_handles h) (Some p) = 0 \<and> qh_refs h p = 0 \<and> p \<notin> qh_freed h)"
    using assms unfolding qh_inv_def by blast
  then show "count_list (qh_handles (bh_new h)) (Some p) \<le> 1 \<and>
     (if p < qh_next (bh_new h) then qh_cell (count_list (qh_handles (bh_new h)) (Some p)) p (bh_new h)
      else count_list (qh_handles (bh_new h)) (Some p) = 0 \<and> qh_refs (bh_new h) p = 0 \<and> p \<notin> qh_freed (bh_new h))"
    by (auto simp: bh_new_def qh_construct_def qh_add_ref_def qh_cell_def aq_construct_def Let_def less_Suc_eq split: if_splits)
qed

lemma qh_drop_inv:
  assumes inv: "qh_inv h" and i: "i < length (qh_handles h)"
    and impl: "impl = None \<Longrightarrow> \<forall>q. count_list hs (Some q) = count_list (qh_handles h) (Some q)"
    and hs: "\<And>p. impl = Some p \<Longrightarrow> qh_handles h ! i = Some p \<and>
      (\<forall>q. count_list hs (Some q) = count_list (qh_handles h) (Some q) - (if q = p then 1 else 0))"
  shows "\<exists>k. bh_drop inside dflt impl (h\<lparr>qh_handles := hs\<rparr>) = Inr k \<and> qh_inv k"
proof (cases impl)
  case None
  then show ?thesis using qh_inv_handles [OF inv] impl by (simp add: bh_drop_def)
next
  case (Some p)
  note c = qh_inv_cell [OF inv i] hs [OF Some]
  then obtain k where k: "bh_drop inside dflt (Some p) (h\<lparr>qh_handles := hs\<rparr>) = Inr k" "qh_cell 0 p k"
      "qh_frame p (h\<lparr>qh_handles := hs\<rparr>) k"
    using qh_drop_ok [of p "h\<lparr>qh_handles := hs\<rparr>" inside dflt] by auto
  have "qh_inv k" by (rule qh_inv_change [OF inv k(3)]) (use c k(2) in auto)
  with Some k(1) show ?thesis by simp
qed

lemma qh_inv_count:
  assumes "qh_inv h" "p < qh_next h"
  shows "count_list (qh_handles h) (Some p) \<le> 1 \<and> qh_cell (count_list (qh_handles h) (Some p)) p h"
  using assms unfolding qh_inv_def by (metis (full_types))

lemma bh_call_null:
  assumes "bh_holds h i = None" "i < length (qh_handles h)"
  shows "bh_call i f h = Inl (Undefined ''null impl_'')"
  using assms by (simp add: bh_call_def bh_holds_def)

text \<open>Misuse ends as \<open>qh_misuse\<close> says: the pointer is null, or the assertion of \<open>async_pop\<close> fails.\<close>

lemma qh_step_misuse:
  assumes "qh_inv h" "qh_enabled h e" "qh_misuse h e = Some x"
  shows "qh_step dflt h e = Inl x"
proof (cases e)
  case (Bh_pop inside y i)
  show ?thesis
  proof (cases "bh_holds h i")
    case None
    with Bh_pop assms(2,3) show ?thesis by (simp add: bh_call_null)
  next
    case (Some p)
    then have "p \<notin> qh_freed h"
      using qh_holds_cell [OF assms(1) Some] by (simp add: qh_cell_def Let_def)
    with Some Bh_pop assms(3) show ?thesis
      by (auto simp: bh_call_def bh_holds_def qh_async_pop_def qh_deref_def check_def split: if_splits)
  qed
qed (use assms in \<open>auto simp: bh_call_null split: if_splits\<close>)

lemma qh_step_ok:
  assumes "qh_inv h" "qh_enabled h e" "qh_misuse h e = None"
  shows "\<exists>k. qh_step dflt h e = Inr k \<and> qh_inv k"
proof (cases e)
  case Bh_new
  with qh_new_inv [OF assms(1)] show ?thesis by simp
next
  case (Bh_move i)
  have "count_list ((qh_handles h)[i := None] @ [qh_handles h ! i]) (Some q) = count_list (qh_handles h) (Some q)" for q
    using count_list_update [of i "qh_handles h" None "Some q"] Bh_move assms(2) by (auto split: if_splits)
  then have "qh_inv (h\<lparr>qh_handles := (qh_handles h)[i := None] @ [qh_handles h ! i]\<rparr>)"
    by (rule qh_inv_handles [OF assms(1)])
  with Bh_move show ?thesis by (simp add: bh_move_def)
next
  case (Bh_assign inside i j)
  then have ij: "i < length (qh_handles h)" "j < length (qh_handles h)" using assms(2) by simp_all
  have "(qh_handles h)[j := None] ! i = Some p \<Longrightarrow> qh_handles h ! i = Some p" for p
    using ij by (cases "i = j") auto
  then have "\<exists>k. bh_drop inside dflt ((qh_handles h)[j := None] ! i)
      (h\<lparr>qh_handles := (qh_handles h)[j := None, i := qh_handles h ! j]\<rparr>) = Inr k \<and> qh_inv k"
    by (intro qh_drop_inv [OF assms(1) ij(1)]) (simp_all add: count_list_hand_over [OF ij])
  with Bh_assign show ?thesis by (simp add: bh_assign_def Let_def)
next
  case (Bh_destroy inside i)
  with assms(2) show ?thesis
    using qh_drop_inv [OF assms(1), of i "qh_handles h ! i" "(qh_handles h)[i := None]" inside dflt]
    by (simp add: bh_destroy_def count_list_clear)
next
  case (Bh_push inside v i)
  then obtain p where p: "bh_holds h i = Some p" using assms(3) by (auto split: if_splits)
  have "\<exists>k. bh_call i (qh_dispatch inside dflt (Push_task v)) h = Inr k \<and> qh_inv k"
    by (rule qh_call_ok [OF assms(1) p]) (use qh_dispatch_ok [OF qh_holds_cell [OF assms(1) p] zero_less_one] in blast)
  with Bh_push show ?thesis by simp
next
  case (Bh_stop inside i)
  then obtain p where p: "bh_holds h i = Some p" using assms(3) by (auto split: if_splits)
  have "\<exists>k. bh_call i (qh_dispatch inside dflt Stop_task) h = Inr k \<and> qh_inv k"
    by (rule qh_call_ok [OF assms(1) p]) (use qh_dispatch_ok [OF qh_holds_cell [OF assms(1) p] zero_less_one] in blast)
  with Bh_stop show ?thesis by simp
next
  case (Bh_pop inside x i)
  then obtain p where p: "bh_holds h i = Some p" "aq_state (qh_store h p) = Not_waiting"
    using assms(3) by (cases "bh_holds h i") (auto split: if_splits intro: waiting_state.exhaust)
  have "\<exists>k. bh_call i (qh_async_pop inside dflt x) h = Inr k \<and> qh_inv k"
    by (rule qh_call_ok [OF assms(1) p(1)]) (use qh_async_pop_ok [OF qh_holds_cell [OF assms(1) p(1)] zero_less_one p(2)] in blast)
  with Bh_pop show ?thesis by simp
next
  case (Qh_exec p)
  then have p: "p < qh_next h" "aq_tasks (qh_store h p) \<noteq> []" using assms(2) by simp_all
  then have c: "count_list (qh_handles h) (Some p) \<le> 1" "qh_cell (count_list (qh_handles h) (Some p)) p h"
    using qh_inv_count [OF assms(1)] by simp_all
  then obtain k where k: "qh_exec dflt p h = Inr k" "qh_cell (count_list (qh_handles h) (Some p)) p k" "qh_frame p h k"
    using qh_exec_ok [OF c(2) p(2)] by blast
  have "qh_inv k" by (rule qh_inv_change [OF assms(1), of p "qh_handles h"]) (use k c p in auto)
  with k(1) Qh_exec show ?thesis by simp
qed

lemma qh_reachable_inv: "qh_reachable dflt h \<Longrightarrow> qh_inv h"
proof (induction rule: reachable_invariant)
  case (step h e k)
  then show ?case using qh_step_ok [of h e dflt] qh_step_misuse [of h e _ dflt] by (cases "qh_misuse h e") auto
qed (simp add: qh_inv_def qh_empty_def)

section \<open>The end of a queue\<close>

lemma qh_deleted_iff:
  assumes "qh_inv h" "p < qh_next h"
  shows "(p \<in> qh_freed h \<longleftrightarrow> Some p \<notin> set (qh_handles h) \<and> aq_tasks (qh_store h p) = []) \<and>
    (p \<in> qh_freed h \<longrightarrow> aq_state (qh_store h p) = Not_waiting \<and> aq_handler (qh_store h p) = None)"
  using qh_inv_count [OF assms] by (auto simp: qh_cell_def Let_def count_list_0_iff)

text \<open>Has the handler of consumer \<open>x\<close> been posted, or is it the one that waits?\<close>

definition aq_served :: "'h \<Rightarrow> ('h, 'v) async_queue \<Rightarrow> bool" where
  "aq_served x q \<longleftrightarrow> aq_handler q = Some x \<or> Some x \<in> fst ` set (aq_posts q)"

lemma aq_exec_served: "aq_served x q \<Longrightarrow> aq_served x (aq_exec dflt q)"
proof -
  have "aq_served x q \<Longrightarrow> aq_served x (aq_run_task dflt t q)" for t and q :: "('a, 'b) async_queue"
    by (cases t) (auto simp: aq_served_def aq_maybe_complete_def)
  moreover have "aq_served x (q\<lparr>aq_tasks := ts\<rparr>) = aq_served x q" for ts and q :: "('a, 'b) async_queue"
    by (simp add: aq_served_def)
  ultimately show "aq_served x q \<Longrightarrow> aq_served x (aq_exec dflt q)"
    by (simp add: aq_exec_def split: list.splits)
qed

lemma qh_exec_store: "qh_exec dflt p h = Inr k \<Longrightarrow> aq_tasks (qh_store h p) = t # ts \<Longrightarrow>
    qh_store k p = aq_exec dflt (qh_store h p) \<and> aq_tasks (qh_store k p) = ts \<and> qh_handles k = qh_handles h \<and> qh_next k = qh_next h"
  by (auto simp: qh_exec_def qh_update_def qh_release_def qh_deref_def and_then_Inr aq_exec_def split: if_splits)

lemma qh_drain:
  assumes "qh_inv h" "p < qh_next h" "Some p \<notin> set (qh_handles h)"
  shows "\<exists>k. run qh_enabled (qh_step dflt) h (replicate (length (aq_tasks (qh_store h p))) (Qh_exec p)) = Some k \<and>
    p \<in> qh_freed k \<and> (\<forall>x. aq_served x (qh_store h p) \<longrightarrow> Some x \<in> fst ` set (aq_posts (qh_store k p)))"
  using assms
proof (induction "aq_tasks (qh_store h p)" arbitrary: h)
  case Nil
  then show ?case using qh_deleted_iff [OF Nil.prems(1,2)] Nil(1) by (auto simp: aq_served_def)
next
  case (Cons t ts)
  then have e: "qh_enabled h (Qh_exec p)" by (simp flip: Cons.hyps(2))
  obtain k where k: "qh_step dflt h (Qh_exec p) = Inr k" "qh_inv k" using qh_step_ok [OF Cons.prems(1) e] by auto
  then have s: "qh_store k p = aq_exec dflt (qh_store h p)" "aq_tasks (qh_store k p) = ts" "qh_handles k = qh_handles h"
      "qh_next k = qh_next h"
    using qh_exec_store [of dflt p h k t ts] Cons.hyps(2) by (metis qh_step.simps(8))+
  from Cons.hyps(1) [OF s(2) [symmetric] k(2)] Cons.prems s
  obtain l where l: "run qh_enabled (qh_step dflt) k (replicate (length ts) (Qh_exec p)) = Some l" "p \<in> qh_freed l"
      "\<forall>x. aq_served x (qh_store k p) \<longrightarrow> Some x \<in> fst ` set (aq_posts (qh_store l p))"
    by auto
  have "\<forall>x. aq_served x (qh_store h p) \<longrightarrow> Some x \<in> fst ` set (aq_posts (qh_store l p))"
    using l(3) s(1) by (auto simp: aq_exec_served)
  with l(1,2) k(1) e show ?case by (auto simp flip: Cons.hyps(2))
qed

section \<open>Properties\<close>

text \<open>
  C8. A queue is used only while it exists, and exists only while it is used. In every reachable state,
  whatever the owners of the handles do, from inside or outside the executor and in any order
  (calling through handles that are null or have been moved from, moving, assigning, destroying a
  handle with functions still queued, or running these), no operation touches a deleted
  implementation. An operation fails exactly when it is a call through a null handle, which
  dereferences a null pointer, or a pop while a consumer waits, which fails the assertion of
  \<open>async_pop\<close>. An implementation has been deleted exactly when no handle points to it and none of
  its functions is queued; at most one handle ever points to it; and none is deleted with a consumer
  waiting in it.
\<close>

theorem queue_memory_safe:
  assumes "qh_reachable dflt h" "qh_enabled h e" "p < qh_next h"
  shows "(case qh_misuse h e of
        None \<Rightarrow> \<exists>k. qh_step dflt h e = Inr k
      | Some x \<Rightarrow> qh_step dflt h e = Inl x \<and> x \<noteq> Undefined ''use after free'') \<and>
    (p \<in> qh_freed h \<longleftrightarrow> Some p \<notin> set (qh_handles h) \<and> aq_tasks (qh_store h p) = []) \<and>
    count_list (qh_handles h) (Some p) \<le> 1 \<and>
    (p \<in> qh_freed h \<longrightarrow> aq_state (qh_store h p) = Not_waiting \<and> aq_handler (qh_store h p) = None)"
proof -
  note inv = qh_reachable_inv [OF assms(1)]
  have "qh_misuse h e \<noteq> Some (Undefined ''use after free'')"
    by (cases "(h, e)" rule: qh_misuse.cases) (auto split: option.splits)
  with qh_step_ok [OF inv assms(2), of dflt] qh_step_misuse [OF inv assms(2), of _ dflt]
  have "case qh_misuse h e of
        None \<Rightarrow> \<exists>k. qh_step dflt h e = Inr k
      | Some x \<Rightarrow> qh_step dflt h e = Inl x \<and> x \<noteq> Undefined ''use after free''"
    by (auto split: option.split)
  with qh_deleted_iff [OF inv assms(3)] qh_inv_count [OF inv assms(3)] show ?thesis by blast
qed

text \<open>
  A handle is moved, the new handle destroyed, and both functions run: the queue is deleted. Then a
  push through the handle that was moved from fails, and so does a second pop while one waits.
\<close>

theorem queue_memory_safe_witness:
  "(\<exists>h :: (char, nat) qheap. qh_reachable 0 h \<and> (\<exists>k. qh_step 0 h (Bh_destroy False 0) = Inr k) \<and>
     qh_step 0 h (Bh_push False 5 0) = Inl (Undefined ''null impl_'') \<and>
     0 \<in> qh_freed h \<and> aq_state (qh_store h 0) = Not_waiting) \<and>
   (\<exists>h :: (char, nat) qheap. qh_reachable 0 h \<and>
     qh_step 0 h (Bh_pop False CHR ''y'' 0) = Inl (Assertion ''state_ == not_waiting''))"
proof
  obtain h :: "(char, nat) qheap" where
    r: "run qh_enabled (qh_step 0) qh_empty
      [Bh_new, Bh_pop False CHR ''x'' 0, Bh_move 0, Bh_destroy False 1, Qh_exec 0, Qh_exec 0] = Some h"
    and h: "qh_enabled h (Bh_destroy False 0)" "0 < qh_next h" "Some 0 \<notin> set (qh_handles h)" "aq_tasks (qh_store h 0) = []"
    and push: "qh_enabled h (Bh_push False 5 0)" "qh_misuse h (Bh_push False 5 0) = Some (Undefined ''null impl_'')"
    by (simp add: qh_defs aq_defs bh_holds_def Let_def)
  from queue_memory_safe [OF run_reachable [OF r] h(1,2)] queue_memory_safe [OF run_reachable [OF r] push(1) h(2)]
    h(3,4) push(2) run_reachable [OF r]
  show "\<exists>h :: (char, nat) qheap. qh_reachable 0 h \<and> (\<exists>k. qh_step 0 h (Bh_destroy False 0) = Inr k) \<and>
     qh_step 0 h (Bh_push False 5 0) = Inl (Undefined ''null impl_'') \<and>
     0 \<in> qh_freed h \<and> aq_state (qh_store h 0) = Not_waiting"
    by (auto simp del: run.simps qh_step.simps)
next
  obtain h :: "(char, nat) qheap" where
    r: "run qh_enabled (qh_step 0) qh_empty [Bh_new, Bh_pop False CHR ''x'' 0] = Some h"
    and h: "0 < qh_next h" "qh_enabled h (Bh_pop False CHR ''y'' 0)"
      "qh_misuse h (Bh_pop False CHR ''y'' 0) = Some (Assertion ''state_ == not_waiting'')"
    by (simp add: qh_defs aq_defs bh_holds_def Let_def)
  from queue_memory_safe [OF run_reachable [OF r] h(2,1)] h(3) run_reachable [OF r]
  show "\<exists>h :: (char, nat) qheap. qh_reachable 0 h \<and>
     qh_step 0 h (Bh_pop False CHR ''y'' 0) = Inl (Assertion ''state_ == not_waiting'')"
    by (auto simp del: run.simps qh_step.simps)
qed

text \<open>
  C15. Destroying a queue completes its consumer: once no handle points to an implementation, as many
  turns of its executor as it has functions queued delete it, and the handler of the consumer that
  was waiting, if any, has been posted to that consumer's executor, which may take a turn of its own
  to call it.
\<close>

theorem queue_destruction_completes_consumer:
  assumes "qh_reachable dflt h" "p < qh_next h" "Some p \<notin> set (qh_handles h)"
  shows "\<exists>k. run qh_enabled (qh_step dflt) h (replicate (length (aq_tasks (qh_store h p))) (Qh_exec p)) = Some k \<and>
    p \<in> qh_freed k \<and>
    (\<forall>x. aq_handler (qh_store h p) = Some x \<longrightarrow> Some x \<in> fst ` set (aq_posts (qh_store k p)))"
  using qh_drain [OF qh_reachable_inv [OF assms(1)] assms(2,3), of dflt] unfolding aq_served_def by blast

theorem queue_destruction_completes_consumer_witness:
  "\<exists>h k :: (char, nat) qheap. qh_reachable 0 h \<and> aq_handler (qh_store h 0) = Some CHR ''x'' \<and>
     run qh_enabled (qh_step 0) h [Qh_exec 0, Qh_exec 0] = Some k \<and> 0 \<in> qh_freed k \<and>
     Some CHR ''x'' \<in> fst ` set (aq_posts (qh_store k 0))"
proof -
  obtain h :: "(char, nat) qheap" where
    r: "run qh_enabled (qh_step 0) qh_empty [Bh_new, Bh_pop False CHR ''x'' 0, Bh_destroy False 0] = Some h"
    and h: "0 < qh_next h" "Some 0 \<notin> set (qh_handles h)" "aq_handler (qh_store h 0) = Some CHR ''x''"
      "replicate (length (aq_tasks (qh_store h 0))) (Qh_exec 0) = [Qh_exec 0, Qh_exec 0 :: (char, nat) qh_event]"
    by (simp add: qh_defs aq_defs bh_holds_def Let_def)
  from queue_destruction_completes_consumer [OF run_reachable [OF r] h(1,2)] h(3,4) run_reachable [OF r]
  show ?thesis by (auto simp del: run.simps)
qed

end
