(* ===== verification/Send_Region.thy ===== *)
theory Send_Region
  imports Prelude
begin

text \<open>
  The operations the WebSocket components start on their streams and timers, and the
  interface of a "send region": the part of a connection that queues outgoing messages and
  hands them to \<^verbatim>\<open>async_write\<close> one at a time. Every connection class of the repository
  has one; what they promise is stated and proved once here, over a locale.
\<close>

section \<open>Stream operations\<close>

datatype close_code = close_none | normal_closure | going_away

type_synonym close_reason = "close_code \<times> string"

text \<open>
  The asynchronous operations, and (the last four) the synchronous calls on the timer and on
  the stream's next layer.
\<close>

datatype ws_op =
    Accept_op
  | Resolve_op
  | Connect_op
  | Tls_handshake_op
  | Handshake_op
  | Read_op
  | Write_op string
  | Close_op close_reason
  | Wait_op int
  | Cancel_wait
  | Close_socket
  | Cancel_socket
  | Cancel_resolve

fun writes :: "ws_op list \<Rightarrow> string list" where
  "writes [] = []"
| "writes (Write_op m # xs) = m # writes xs"
| "writes (_ # xs) = writes xs"

fun waits :: "ws_op list \<Rightarrow> int list" where
  "waits [] = []"
| "waits (Wait_op d # xs) = d # waits xs"
| "waits (_ # xs) = waits xs"

lemma writes_append [simp]: "writes (xs @ ys) = writes xs @ writes ys"
  by (induction xs rule: writes.induct) auto

lemma waits_append [simp]: "waits (xs @ ys) = waits xs @ waits ys"
  by (induction xs rule: waits.induct) auto

lemma writes_remove1_Write: "writes (remove1 (Write_op m) xs) = remove1 m (writes xs)"
  by (induction xs rule: writes.induct) auto

lemma writes_remove1 [simp]:
  "writes (remove1 Accept_op xs) = writes xs" "writes (remove1 Connect_op xs) = writes xs"
  "writes (remove1 Handshake_op xs) = writes xs" "writes (remove1 Read_op xs) = writes xs"
  "writes (remove1 (Close_op r) xs) = writes xs" "writes (remove1 (Wait_op d) xs) = writes xs"
  "writes (remove1 Cancel_wait xs) = writes xs" "writes (remove1 Close_socket xs) = writes xs"
  "writes (remove1 Cancel_socket xs) = writes xs" "writes (remove1 Resolve_op xs) = writes xs"
  "writes (remove1 Tls_handshake_op xs) = writes xs" "writes (remove1 Cancel_resolve xs) = writes xs"
  by (induction xs rule: writes.induct) auto

lemma waits_remove1_Wait: "waits (remove1 (Wait_op d) xs) = remove1 d (waits xs)"
  by (induction xs rule: waits.induct) auto

lemma waits_remove1 [simp]:
  "waits (remove1 Accept_op xs) = waits xs" "waits (remove1 Connect_op xs) = waits xs"
  "waits (remove1 Handshake_op xs) = waits xs" "waits (remove1 Read_op xs) = waits xs"
  "waits (remove1 (Close_op r) xs) = waits xs" "waits (remove1 (Write_op m) xs) = waits xs"
  "waits (remove1 Cancel_wait xs) = waits xs" "waits (remove1 Close_socket xs) = waits xs"
  "waits (remove1 Cancel_socket xs) = waits xs" "waits (remove1 Resolve_op xs) = waits xs"
  "waits (remove1 Tls_handshake_op xs) = waits xs" "waits (remove1 Cancel_resolve xs) = waits xs"
  by (induction xs rule: waits.induct) auto

lemma in_writes [simp]: "Write_op m \<in> set xs \<longleftrightarrow> m \<in> set (writes xs)"
  by (induction xs rule: writes.induct) auto

lemma in_waits [simp]: "Wait_op d \<in> set xs \<longleftrightarrow> d \<in> set (waits xs)"
  by (induction xs rule: waits.induct) auto

section \<open>The interface\<close>

text \<open>
  The messages a run of events puts into the region, given what each event puts into it.
\<close>

fun taken :: "('s \<Rightarrow> 'e \<Rightarrow> 's result) \<Rightarrow> ('s \<Rightarrow> 'e \<Rightarrow> 'm list) \<Rightarrow> 's \<Rightarrow> 'e list \<Rightarrow> 'm list" where
  "taken step accepted s [] = []"
| "taken step accepted s (e # es) =
     accepted s e @ (case step s e of Inl _ \<Rightarrow> [] | Inr t \<Rightarrow> taken step accepted t es)"

text \<open>
  \<open>written\<close> are the messages handed to \<^verbatim>\<open>async_write\<close> so far, \<open>in_flight\<close> the ones
  whose write has not completed, \<open>backlog\<close> the queued ones not yet handed over.
\<close>

locale send_region =
  fixes enabled :: "'s \<Rightarrow> 'e \<Rightarrow> bool"
    and step :: "'s \<Rightarrow> 'e \<Rightarrow> 's result"
    and s0 :: "'s"
    and written :: "'s \<Rightarrow> 'm list"
    and in_flight :: "'s \<Rightarrow> 'm list"
    and backlog :: "'s \<Rightarrow> 'm list"
    and accepted :: "'s \<Rightarrow> 'e \<Rightarrow> 'm list"
  assumes start_law: "written s0 = [] \<and> backlog s0 = []"
    and flow_law: "reachable enabled step s0 s \<Longrightarrow> enabled s e \<Longrightarrow> step s e = Inr t \<Longrightarrow>
      written t @ backlog t = written s @ backlog s @ accepted s e"
    and single_write_law: "reachable enabled step s0 s \<Longrightarrow> length (in_flight s) \<le> 1"
begin

lemma run_flow_from:
  "run enabled step s es = Some t \<Longrightarrow> reachable enabled step s0 s \<Longrightarrow>
     written t @ backlog t = written s @ backlog s @ taken step accepted s es"
proof (induction rule: run_induct)
  case Nil
  then show ?case by simp
next
  case (Cons s e es u)
  have "written t @ backlog t = written u @ backlog u @ taken step accepted u es"
    using Cons.IH [OF reachable_step [OF Cons.prems Cons.hyps(1,2)]] .
  with flow_law [OF Cons.prems Cons.hyps(1,2)] show ?case
    by (simp add: Cons.hyps(2) flip: append_assoc)
qed

lemma run_flow:
  "run enabled step s0 es = Some t \<Longrightarrow> written t @ backlog t = taken step accepted s0 es"
  using run_flow_from [OF _ reachable_start] start_law by simp

lemma written_prefix:
  "run enabled step s0 es = Some t \<Longrightarrow> prefix (written t) (taken step accepted s0 es)"
  using run_flow by (rule prefix_appendI)

end

text \<open>
  A region that never idles while it may write: whenever \<open>ready\<close> (connected, no error, no
  write in progress) nothing is left in the backlog.
\<close>

locale prompt_send_region = send_region +
  fixes ready :: "'a \<Rightarrow> bool"
  assumes no_stall_law: "reachable enabled step s0 s \<Longrightarrow> ready s \<Longrightarrow> backlog s = []"
begin

lemma ready_all_written:
  "run enabled step s0 es = Some t \<Longrightarrow> ready t \<Longrightarrow> written t = taken step accepted s0 es"
  using run_flow [of es t] no_stall_law [OF run_reachable] by fastforce

end

end
