(* ===== verification/Conversation.thy ===== *)
theory Conversation
  imports Send_Region
begin

text \<open>
  Two ends of one WebSocket connection, put together. Each end is a send region that sends back
  what it reads; a message one end has handed to \<^verbatim>\<open>async_write\<close> is what the other end's
  \<^verbatim>\<open>async_read\<close> completes with. The theory has the composition of two ends and the locale
  \<open>conversation\<close>, which states what follows from the laws of the ends.
\<close>

section \<open>One end\<close>

text \<open>
  The component an end is an instance of: its events and handlers, the messages it has handed to
  \<^verbatim>\<open>async_write\<close>, those an event puts into its queue, and the message an event delivers.
\<close>

record ('s, 'e) peer =
  peer_enabled :: "'s \<Rightarrow> 'e \<Rightarrow> bool"
  peer_step :: "'s \<Rightarrow> 'e \<Rightarrow> 's result"
  peer_written :: "'s \<Rightarrow> string list"
  peer_accepted :: "'s \<Rightarrow> 'e \<Rightarrow> string list"
  peer_reads :: "'e \<Rightarrow> string option"

text \<open>
  The state of an end: the component's, and the histories of the messages it has read (\<open>heard\<close>)
  and of those it queued without having read them (\<open>said\<close>).
\<close>

record 's side =
  body :: 's
  heard :: "string list"
  said :: "string list"

definition delivered :: "('s, 'e) peer \<Rightarrow> 'e \<Rightarrow> string list" where
  "delivered P e = (case peer_reads P e of None \<Rightarrow> [] | Some m \<Rightarrow> [m])"

definition own_messages :: "('s, 'e) peer \<Rightarrow> 's \<Rightarrow> 'e \<Rightarrow> string list" where
  "own_messages P s e = (if peer_reads P e = None then peer_accepted P s e else [])"

definition side_step :: "('s, 'e) peer \<Rightarrow> 's side \<Rightarrow> 'e \<Rightarrow> 's side result" where
  "side_step P x e =
     and_then (peer_step P (body x) e) (\<lambda>t.
       Inr \<lparr>body = t, heard = heard x @ delivered P e, said = said x @ own_messages P (body x) e\<rparr>)"

text \<open>
  A WebSocket stream keeps the order of its messages and their boundaries: a read that succeeds
  delivers the first message of \<open>incoming\<close> that has not been read yet.
\<close>

definition side_enabled :: "('s, 'e) peer \<Rightarrow> string list \<Rightarrow> 's side \<Rightarrow> 'e \<Rightarrow> bool" where
  "side_enabled P incoming x e \<longleftrightarrow> peer_enabled P (body x) e \<and>
     (case peer_reads P e of
        None \<Rightarrow> True
      | Some m \<Rightarrow> length (heard x) < length incoming \<and> incoming ! length (heard x) = m)"

section \<open>Both ends\<close>

record ('s, 'c) talk =
  near :: "'s side"
  far :: "'c side"

datatype ('e, 'f) talk_event = Near 'e | Far 'f

fun talk_step :: "('s, 'e) peer \<Rightarrow> ('c, 'f) peer \<Rightarrow> ('s, 'c) talk \<Rightarrow> ('e, 'f) talk_event \<Rightarrow> ('s, 'c) talk result" where
  "talk_step P Q k (Near e) = and_then (side_step P (near k) e) (\<lambda>x. Inr (k\<lparr>near := x\<rparr>))"
| "talk_step P Q k (Far e) = and_then (side_step Q (far k) e) (\<lambda>x. Inr (k\<lparr>far := x\<rparr>))"

fun talk_enabled :: "('s, 'e) peer \<Rightarrow> ('c, 'f) peer \<Rightarrow> ('s, 'c) talk \<Rightarrow> ('e, 'f) talk_event \<Rightarrow> bool" where
  "talk_enabled P Q k (Near e) \<longleftrightarrow> side_enabled P (peer_written Q (body (far k))) (near k) e"
| "talk_enabled P Q k (Far e) \<longleftrightarrow> side_enabled Q (peer_written P (body (near k))) (far k) e"

lemma talk_step_cases:
  assumes "talk_step P Q k e = Inr l"
  obtains (near) x y where "e = Near x" "side_step P (near k) x = Inr y" "l = k\<lparr>near := y\<rparr>"
    | (far) x y where "e = Far x" "side_step Q (far k) x = Inr y" "l = k\<lparr>far := y\<rparr>"
  using assms by (cases e) (auto simp: and_then_Inr)

lemma side_step_said: "side_step P x e = Inr y \<Longrightarrow> said y = said x @ own_messages P (body x) e"
  by (auto simp: side_step_def and_then_Inr)

text \<open>What an end says or hears.\<close>

definition voices :: "'s side \<Rightarrow> string set" where
  "voices x = set (said x) \<union> set (heard x)"

lemma side_step_voices:
  assumes "side_enabled P incoming x e" "side_step P x e = Inr y"
    "voices x \<subseteq> S" "set incoming \<subseteq> S" "set (own_messages P (body x) e) \<subseteq> S"
  shows "voices y \<subseteq> S"
proof -
  have "set (delivered P e) \<subseteq> S"
    using assms(1,4) nth_mem [of "length (heard x)" incoming]
    by (auto simp: side_enabled_def delivered_def simp del: nth_mem split: option.splits)
  with assms(2,3,5) show ?thesis by (auto simp: voices_def side_step_def and_then_Inr)
qed

text \<open>The near end has queued \<open>ws\<close> already; the far end is new.\<close>

definition talk_start :: "string list \<Rightarrow> 's \<Rightarrow> 'c \<Rightarrow> ('s, 'c) talk" where
  "talk_start ws s c =
     \<lparr>near = \<lparr>body = s, heard = [], said = ws\<rparr>, far = \<lparr>body = c, heard = [], said = []\<rparr>\<rparr>"

text \<open>The messages on their way to the near and to the far end.\<close>

definition to_near :: "('c, 'f) peer \<Rightarrow> ('s, 'c) talk \<Rightarrow> string list" where
  "to_near Q k = drop (length (heard (near k))) (peer_written Q (body (far k)))"

definition to_far :: "('s, 'e) peer \<Rightarrow> ('s, 'c) talk \<Rightarrow> string list" where
  "to_far P k = drop (length (heard (far k))) (peer_written P (body (near k)))"

section \<open>Ends that can go on\<close>

text \<open>
  An end that is given only \<open>f\<close>-events can move when one that delivers nothing is possible, and
  read when any message can be delivered; it is alive when it can move, or reads with an empty
  backlog.
\<close>

definition can_move :: "('s, 'e) peer \<Rightarrow> ('e \<Rightarrow> bool) \<Rightarrow> 's \<Rightarrow> bool" where
  "can_move P f s \<longleftrightarrow> (\<exists>e t. f e \<and> peer_reads P e = None \<and> peer_enabled P s e \<and> peer_step P s e = Inr t)"

definition can_read :: "('s, 'e) peer \<Rightarrow> ('e \<Rightarrow> bool) \<Rightarrow> 's \<Rightarrow> bool" where
  "can_read P f s \<longleftrightarrow> (\<forall>m. \<exists>e t. f e \<and> peer_reads P e = Some m \<and> peer_enabled P s e \<and> peer_step P s e = Inr t)"

definition alive :: "('s, 'e) peer \<Rightarrow> ('e \<Rightarrow> bool) \<Rightarrow> 's \<Rightarrow> string list \<Rightarrow> bool" where
  "alive P f s backlog \<longleftrightarrow> can_move P f s \<or> can_read P f s \<and> backlog = []"

lemma can_moveI:
  "f e \<Longrightarrow> peer_reads P e = None \<Longrightarrow> peer_enabled P s e \<Longrightarrow> \<exists>t. peer_step P s e = Inr t \<Longrightarrow> can_move P f s"
  unfolding can_move_def by blast

lemma can_readI:
  assumes "\<And>m. f (ev m)" "\<And>m. peer_reads P (ev m) = Some m" "\<And>m. peer_enabled P s (ev m)"
    "\<And>m. \<exists>t. peer_step P s (ev m) = Inr t"
  shows "can_read P f s"
  unfolding can_read_def using assms by blast

fun on_side :: "('e \<Rightarrow> bool) \<Rightarrow> ('f \<Rightarrow> bool) \<Rightarrow> ('e, 'f) talk_event \<Rightarrow> bool" where
  "on_side f g (Near e) = f e"
| "on_side f g (Far e) = g e"

lemma near_moves:
  assumes "can_move P f (body (near k))"
  shows "\<exists>e l. on_side f g e \<and> talk_enabled P Q k e \<and> talk_step P Q k e = Inr l"
proof -
  obtain e t where "f e" "peer_reads P e = None" "peer_enabled P (body (near k)) e" "peer_step P (body (near k)) e = Inr t"
    using assms by (auto simp: can_move_def)
  then show ?thesis by (intro exI [of _ "Near e"]) (simp add: side_enabled_def side_step_def)
qed

lemma far_moves:
  assumes "can_move Q g (body (far k))"
  shows "\<exists>e l. on_side f g e \<and> talk_enabled P Q k e \<and> talk_step P Q k e = Inr l"
proof -
  obtain e t where "g e" "peer_reads Q e = None" "peer_enabled Q (body (far k)) e" "peer_step Q (body (far k)) e = Inr t"
    using assms by (auto simp: can_move_def)
  then show ?thesis by (intro exI [of _ "Far e"]) (simp add: side_enabled_def side_step_def)
qed

lemma near_reads:
  assumes "to_near Q k \<noteq> []" "can_read P f (body (near k))"
  shows "\<exists>e l. on_side f g e \<and> talk_enabled P Q k e \<and> talk_step P Q k e = Inr l"
proof -
  obtain e t where "f e" "peer_reads P e = Some (hd (to_near Q k))" "peer_enabled P (body (near k)) e"
      "peer_step P (body (near k)) e = Inr t"
    using assms(2) unfolding can_read_def by blast
  with assms(1) show ?thesis
    by (intro exI [of _ "Near e"]) (simp add: to_near_def side_enabled_def side_step_def hd_drop_conv_nth)
qed

lemma far_reads:
  assumes "to_far P k \<noteq> []" "can_read Q g (body (far k))"
  shows "\<exists>e l. on_side f g e \<and> talk_enabled P Q k e \<and> talk_step P Q k e = Inr l"
proof -
  obtain e t where "g e" "peer_reads Q e = Some (hd (to_far P k))" "peer_enabled Q (body (far k)) e"
      "peer_step Q (body (far k)) e = Inr t"
    using assms(2) unfolding can_read_def by blast
  with assms(1) show ?thesis
    by (intro exI [of _ "Far e"]) (simp add: to_far_def side_enabled_def side_step_def hd_drop_conv_nth)
qed

section \<open>Interleavings and rhythms\<close>

lemma shuffles_append_left: "zs \<in> shuffles xs ys \<Longrightarrow> zs @ ms \<in> shuffles (xs @ ms) ys"
proof (induction xs ys arbitrary: zs rule: shuffles.induct)
  case (1 ys)
  have "ys @ ms \<in> shuffles ms ys"
    by (induction ys) (auto intro: Cons_in_shuffles_rightI)
  with 1 show ?case by simp
next
  case (2 xs)
  then show ?case by simp
next
  case (3 x xs y ys)
  then show ?case by (auto intro: Cons_in_shuffles_leftI Cons_in_shuffles_rightI)
qed

lemma shuffles_append_right: "zs \<in> shuffles xs ys \<Longrightarrow> zs @ ms \<in> shuffles xs (ys @ ms)"
  using shuffles_append_left [of zs ys xs ms] by (simp add: shuffles_commutes)

text \<open>A list that is its own continuation after \<open>w\<close> repeats \<open>w\<close>.\<close>

lemma prefix_own_continuation:
  assumes "prefix h (w @ h)" "w \<noteq> []" "i < length h"
  shows "h ! i = w ! (i mod length w)"
  using assms(3)
proof (induction i rule: less_induct)
  case (less i)
  have hi: "h ! i = (w @ h) ! i" using assms(1) less.prems by (metis prefix_def nth_append)
  show ?case
  proof (cases "i < length w")
    case True
    with hi show ?thesis by (simp add: nth_append)
  next
    case False
    then have "h ! (i - length w) = w ! ((i - length w) mod length w)"
      using less.prems assms(2) by (intro less.IH) (auto simp: length_greater_0_conv [symmetric] simp del: length_greater_0_conv)
    with hi False show ?thesis by (simp add: nth_append le_mod_geq)
  qed
qed

text \<open>What both ends have queued, against what both have heard.\<close>

lemma balance:
  fixes wn wf hn hf :: "'m multiset"
  assumes "wf = hn + tn" "wn = hf + tf" "wn + bn = sn + hn" "wf + bf = sf + hf"
  shows "tf + bn + tn + bf = sn + sf"
proof (rule multiset_eqI)
  fix m
  have "count (wn + bn) m = count (sn + hn) m" "count (wf + bf) m = count (sf + hf) m"
    using assms(3,4) by simp_all
  then show "count (tf + bn + tn + bf) m = count (sn + sf) m"
    using assms(1,2) by simp
qed

section \<open>What an end promises\<close>

locale echoing_peer = send_region "peer_enabled P" "peer_step P" s0 "peer_written P" in_flight backlog "peer_accepted P"
  for P :: "('s, 'e) peer" and s0 in_flight backlog +
  assumes history_law: "reachable (peer_enabled P) (peer_step P) s0 s \<Longrightarrow> peer_enabled P s e \<Longrightarrow>
      peer_step P s e = Inr t \<Longrightarrow> prefix (peer_written P s) (peer_written P t)"
    and echo_law: "reachable (peer_enabled P) (peer_step P) s0 s \<Longrightarrow> peer_enabled P s e \<Longrightarrow>
      peer_reads P e = Some m \<Longrightarrow> peer_accepted P s e = [m]"
begin

text \<open>The invariant of an end: what went through its queue interleaves what it said and what it heard.\<close>

definition side_ok :: "'s side \<Rightarrow> bool" where
  "side_ok x \<longleftrightarrow> reachable (peer_enabled P) (peer_step P) s0 (body x) \<and>
     peer_written P (body x) @ backlog (body x) \<in> shuffles (said x) (heard x)"

lemma side_ok_mset:
  "side_ok x \<Longrightarrow> mset (peer_written P (body x)) + mset (backlog (body x)) = mset (said x) + mset (heard x)"
  unfolding side_ok_def using mset_shuffles [of _ "said x" "heard x"] by (metis mset_append)

lemma side_ok_set: "side_ok x \<Longrightarrow> set (peer_written P (body x)) \<subseteq> voices x"
  unfolding side_ok_def voices_def using set_shuffles [of _ "said x" "heard x"] by (metis Un_upper1 set_append)

lemma side_ok_step:
  assumes x: "side_ok x" and e: "side_enabled P incoming x e" and y: "side_step P x e = Inr y"
    and h: "prefix (heard x) incoming"
  shows "side_ok y \<and> prefix (peer_written P (body x)) (peer_written P (body y)) \<and> prefix (heard y) incoming"
proof -
  have r: "reachable (peer_enabled P) (peer_step P) s0 (body x)" using x by (simp add: side_ok_def)
  have en: "peer_enabled P (body x) e" using e by (simp add: side_enabled_def)
  obtain t where t: "peer_step P (body x) e = Inr t"
      "y = \<lparr>body = t, heard = heard x @ delivered P e, said = said x @ own_messages P (body x) e\<rparr>"
    using y by (auto simp: side_step_def and_then_Inr)
  have acc: "peer_accepted P (body x) e = (case peer_reads P e of None \<Rightarrow> own_messages P (body x) e | Some m \<Rightarrow> [m])"
    using echo_law [OF r en] by (simp add: own_messages_def split: option.splits)
  have "(peer_written P (body x) @ backlog (body x)) @ peer_accepted P (body x) e \<in> shuffles (said y) (heard y)"
  proof (cases "peer_reads P e")
    case None
    with x show ?thesis
      by (simp add: t(2) acc side_ok_def delivered_def shuffles_append_left del: append_assoc)
  next
    case (Some m)
    with x show ?thesis
      by (simp add: t(2) acc side_ok_def delivered_def own_messages_def shuffles_append_right del: append_assoc)
  qed
  then have "side_ok y"
    using flow_law [OF r en t(1)] reachable_step [OF r en t(1)] by (simp add: side_ok_def t(2))
  moreover have "prefix (heard y) incoming"
    using h e append_one_prefix [OF h] by (auto simp: t(2) delivered_def side_enabled_def split: option.splits)
  ultimately show ?thesis using history_law [OF r en t(1)] by (simp add: t(2))
qed

text \<open>An event with which the end says nothing of its own adds what it delivers.\<close>

lemma side_flow:
  assumes x: "side_ok x" and e: "side_enabled P incoming x e" and y: "side_step P x e = Inr y"
    and own: "own_messages P (body x) e = []"
  shows "peer_written P (body y) @ backlog (body y) = peer_written P (body x) @ backlog (body x) @ delivered P e \<and>
    heard y = heard x @ delivered P e"
proof -
  have r: "reachable (peer_enabled P) (peer_step P) s0 (body x)" using x by (simp add: side_ok_def)
  have en: "peer_enabled P (body x) e" using e by (simp add: side_enabled_def)
  have "peer_accepted P (body x) e = delivered P e"
    using echo_law [OF r en] own by (auto simp: own_messages_def delivered_def split: option.splits if_splits)
  then show ?thesis using y flow_law [OF r en] by (auto simp: side_step_def and_then_Inr)
qed

end

text \<open>
  Two echoing ends, the near one with \<open>ws\<close> queued at the start.
\<close>

locale conversation =
  N: echoing_peer P n0 n_flight n_backlog + F: echoing_peer Q f0 f_flight f_backlog
  for P :: "('s, 'e) peer" and n0 n_flight n_backlog
    and Q :: "('c, 'f) peer" and f0 f_flight f_backlog +
  fixes ws :: "string list" and s :: 's and c :: 'c
  assumes near_start: "reachable (peer_enabled P) (peer_step P) n0 s \<and> peer_written P s = [] \<and> n_backlog s = ws"
    and far_start: "reachable (peer_enabled Q) (peer_step Q) f0 c \<and> peer_written Q c = [] \<and> f_backlog c = []"
begin

abbreviation talk_reachable :: "('s, 'c) talk \<Rightarrow> bool" where
  "talk_reachable \<equiv> reachable (talk_enabled P Q) (talk_step P Q) (talk_start ws s c)"

lemma talk_ok:
  "talk_reachable k \<Longrightarrow> N.side_ok (near k) \<and> F.side_ok (far k) \<and>
     prefix (heard (near k)) (peer_written Q (body (far k))) \<and>
     prefix (heard (far k)) (peer_written P (body (near k)))"
proof (induction rule: reachable_invariant)
  case start
  show ?case using near_start far_start by (simp add: talk_start_def N.side_ok_def F.side_ok_def)
next
  case (step k e l)
  show ?case
  proof (cases e)
    case (Near x)
    with step N.side_ok_step [of "near k" "peer_written Q (body (far k))" x "near l"] show ?thesis
      by (auto simp: and_then_Inr intro: prefix_order.order_trans)
  next
    case (Far x)
    with step F.side_ok_step [of "far k" "peer_written P (body (near k))" x "far l"] show ?thesis
      by (auto simp: and_then_Inr intro: prefix_order.order_trans)
  qed
qed

text \<open>No message is lost, duplicated or made up between the two ends.\<close>

lemma talk_conserves:
  assumes "talk_reachable k"
  shows "mset (to_far P k) + mset (n_backlog (body (near k))) + mset (to_near Q k) + mset (f_backlog (body (far k))) =
    mset (said (near k)) + mset (said (far k))"
proof -
  note ok = talk_ok [OF assms]
  have "mset (peer_written Q (body (far k))) = mset (heard (near k)) + mset (to_near Q k)"
    "mset (peer_written P (body (near k))) = mset (heard (far k)) + mset (to_far P k)"
    using ok by (auto simp: to_near_def to_far_def prefix_def)
  moreover have "mset (peer_written P (body (near k))) + mset (n_backlog (body (near k))) = mset (said (near k)) + mset (heard (near k))"
    "mset (peer_written Q (body (far k))) + mset (f_backlog (body (far k))) = mset (said (far k)) + mset (heard (far k))"
    using ok N.side_ok_mset F.side_ok_mset by blast+
  ultimately show ?thesis by (rule balance)
qed

lemma talk_said: "talk_reachable k \<Longrightarrow> prefix ws (said (near k))"
proof (induction rule: reachable_invariant)
  case (step k e l)
  then show ?case by (cases e) (auto simp: and_then_Inr side_step_def)
qed (simp add: talk_start_def)

text \<open>A conversation that has begun keeps a message under way for ever.\<close>

lemma talk_goes_on:
  assumes "talk_reachable k" "ws \<noteq> []"
  shows "to_far P k \<noteq> [] \<or> n_backlog (body (near k)) \<noteq> [] \<or> to_near Q k \<noteq> [] \<or> f_backlog (body (far k)) \<noteq> []"
  using talk_conserves [OF assms(1)] talk_said [OF assms(1)] assms(2) by auto

text \<open>
  A run in which neither end says anything of its own: the far end hears the greeting over and
  over again.
\<close>

lemma talk_far_silent:
  assumes "run (talk_enabled P Q) (talk_step P Q) k es = Some l"
    "\<And>e b. Far e \<in> set es \<Longrightarrow> own_messages Q b e = []"
  shows "said (far l) = said (far k)"
proof (rule run_keeps [OF assms(1)])
  show "said (far b) = said (far k)" if "e \<in> set es" "talk_step P Q a e = Inr b" "said (far a) = said (far k)" for a e b
    using that(2) by (cases rule: talk_step_cases) (use that assms(2) in \<open>simp_all add: side_step_said\<close>)
qed simp

lemma talk_near_silent:
  assumes "run (talk_enabled P Q) (talk_step P Q) (talk_start ws s c) es = Some l"
    "\<And>e b. Near e \<in> set es \<Longrightarrow> own_messages P b e = []"
  shows "talk_reachable l \<and>
    peer_written P (body (near l)) @ n_backlog (body (near l)) = ws @ heard (near l)"
proof (rule run_keeps [OF assms(1)])
  show "talk_reachable (talk_start ws s c) \<and>
      peer_written P (body (near (talk_start ws s c))) @ n_backlog (body (near (talk_start ws s c))) =
        ws @ heard (near (talk_start ws s c))"
    using near_start by (simp add: talk_start_def reachable_start)
next
  fix k e l
  assume e: "e \<in> set es" "talk_enabled P Q k e" "talk_step P Q k e = Inr l"
    and k: "talk_reachable k \<and> peer_written P (body (near k)) @ n_backlog (body (near k)) = ws @ heard (near k)"
  have l: "talk_reachable l" by (rule reachable_step [OF conjunct1 [OF k] e(2,3)])
  from e(3) have "peer_written P (body (near l)) @ n_backlog (body (near l)) = ws @ heard (near l)"
  proof (cases rule: talk_step_cases)
    case (near x y)
    have "N.side_ok (near k)" "side_enabled P (peer_written Q (body (far k))) (near k) x"
      "own_messages P (body (near k)) x = []"
      using talk_ok k e(2) near(1) assms(2) e(1) by auto
    from N.side_flow [OF this(1,2) near(2) this(3)] k
    have "peer_written P (body y) @ n_backlog (body y) = ws @ heard y" by (metis append_assoc)
    with near(3) show ?thesis by simp
  next
    case far
    with k show ?thesis by simp
  qed
  with l show "talk_reachable l \<and> peer_written P (body (near l)) @ n_backlog (body (near l)) = ws @ heard (near l)" by simp
qed

lemma talk_rhythm:
  assumes "run (talk_enabled P Q) (talk_step P Q) (talk_start ws s c) es = Some k"
    "\<And>e b. Near e \<in> set es \<Longrightarrow> own_messages P b e = []" "\<And>e b. Far e \<in> set es \<Longrightarrow> own_messages Q b e = []"
    "ws \<noteq> []" "i < length (heard (far k))"
  shows "heard (far k) ! i = ws ! (i mod length ws)"
proof (rule prefix_own_continuation [OF _ assms(4,5)])
  have near: "talk_reachable k" "peer_written P (body (near k)) @ n_backlog (body (near k)) = ws @ heard (near k)"
    using talk_near_silent [OF assms(1,2)] by simp_all
  have "said (far k) = []" using talk_far_silent [OF assms(1,3)] by (simp add: talk_start_def)
  then have "peer_written Q (body (far k)) @ f_backlog (body (far k)) = heard (far k)"
    using talk_ok [OF near(1)] by (simp add: F.side_ok_def)
  then have "prefix (heard (near k)) (heard (far k))"
    using talk_ok [OF near(1)] by (metis prefixI prefix_order.order_trans)
  then have "prefix (ws @ heard (near k)) (ws @ heard (far k))" by simp
  moreover have "prefix (heard (far k)) (ws @ heard (near k))"
    using talk_ok [OF near(1)] near(2) by (metis prefixI prefix_order.order_trans)
  ultimately show "prefix (heard (far k)) (ws @ heard (far k))" by (rule prefix_order.order_trans [rotated])
qed

text \<open>Whatever the ends hear was said by one of them.\<close>

lemma talk_only:
  assumes "run (talk_enabled P Q) (talk_step P Q) (talk_start ws s c) es = Some k" "set ws \<subseteq> S"
    "\<And>e b. Near e \<in> set es \<Longrightarrow> set (own_messages P b e) \<subseteq> S" "\<And>e b. Far e \<in> set es \<Longrightarrow> set (own_messages Q b e) \<subseteq> S"
  shows "talk_reachable k \<and> voices (near k) \<subseteq> S \<and> voices (far k) \<subseteq> S"
proof (rule run_keeps [OF assms(1)])
  show "talk_reachable (talk_start ws s c) \<and> voices (near (talk_start ws s c)) \<subseteq> S \<and> voices (far (talk_start ws s c)) \<subseteq> S"
    using assms(2) by (simp add: talk_start_def reachable_start voices_def)
next
  fix k e l
  assume e: "e \<in> set es" "talk_enabled P Q k e" "talk_step P Q k e = Inr l"
    and k: "talk_reachable k \<and> voices (near k) \<subseteq> S \<and> voices (far k) \<subseteq> S"
  have l: "talk_reachable l" by (rule reachable_step [OF conjunct1 [OF k] e(2,3)])
  have w: "set (peer_written P (body (near k))) \<subseteq> S" "set (peer_written Q (body (far k))) \<subseteq> S"
    using talk_ok [OF conjunct1 [OF k]] N.side_ok_set [of "near k"] F.side_ok_set [of "far k"] k by blast+
  from e(3) show "talk_reachable l \<and> voices (near l) \<subseteq> S \<and> voices (far l) \<subseteq> S"
  proof (cases rule: talk_step_cases)
    case (near x y)
    have "voices y \<subseteq> S"
      by (rule side_step_voices [OF _ near(2) _ w(2)]) (use e k near(1) assms(3) in auto)
    with k l near(3) show ?thesis by simp
  next
    case (far x y)
    have "voices y \<subseteq> S"
      by (rule side_step_voices [OF _ far(2) _ w(1)]) (use e k far(1) assms(4) in auto)
    with k l far(3) show ?thesis by simp
  qed
qed

text \<open>Two ends that are alive: one of them can go on.\<close>

lemma talk_moves:
  assumes "talk_reachable k" "ws \<noteq> []"
    and "alive P f (body (near k)) (n_backlog (body (near k)))" "alive Q g (body (far k)) (f_backlog (body (far k)))"
  shows "\<exists>e l. on_side f g e \<and> talk_enabled P Q k e \<and> talk_step P Q k e = Inr l"
proof (cases "can_move P f (body (near k)) \<or> can_move Q g (body (far k))")
  case True
  then show ?thesis using near_moves far_moves by metis
next
  case False
  then have c: "can_read P f (body (near k))" "can_read Q g (body (far k))"
    and "n_backlog (body (near k)) = []" "f_backlog (body (far k)) = []"
    using assms(3,4) by (auto simp: alive_def)
  then have "to_far P k \<noteq> [] \<or> to_near Q k \<noteq> []" using talk_goes_on [OF assms(1,2)] by blast
  then show ?thesis using near_reads [OF _ c(1)] far_reads [OF _ c(2)] by metis
qed

end

text \<open>What each end keeps on its own, both keep in a conversation.\<close>

lemma talk_run_keeps:
  assumes "run (talk_enabled P Q) (talk_step P Q) k es = Some l" "I (body (near k))" "J (body (far k))"
    and "\<And>a e b. Near e \<in> set es \<Longrightarrow> peer_enabled P a e \<Longrightarrow> peer_step P a e = Inr b \<Longrightarrow> I a \<Longrightarrow> I b"
    and "\<And>a e b. Far e \<in> set es \<Longrightarrow> peer_enabled Q a e \<Longrightarrow> peer_step Q a e = Inr b \<Longrightarrow> J a \<Longrightarrow> J b"
  shows "I (body (near l)) \<and> J (body (far l))"
proof (rule run_keeps [OF assms(1)])
  fix k e l
  assume e: "e \<in> set es" "talk_enabled P Q k e" "talk_step P Q k e = Inr l" and k: "I (body (near k)) \<and> J (body (far k))"
  from e(3) show "I (body (near l)) \<and> J (body (far l))"
  proof (cases rule: talk_step_cases)
    case (near x y)
    then show ?thesis using e k assms(4) [of x "body (near k)"] by (auto simp: side_step_def side_enabled_def and_then_Inr)
  next
    case (far x y)
    then show ?thesis using e k assms(5) [of x "body (far k)"] by (auto simp: side_step_def side_enabled_def and_then_Inr)
  qed
qed (use assms(2,3) in simp)

end
