(* ===== verification/Echo_Connection.thy ===== *)
theory Echo_Connection
  imports Send_Region
begin

text \<open>
  \<^verbatim>\<open>pre-cxx20/echo_server/connection.hpp\<close> and \<^verbatim>\<open>connection.cpp\<close>: one session of
  the echo server. The record is \<^verbatim>\<open>connection_impl\<close> with the ledger of the operations
  on its stream and its session timer; each member function is a definition of the same
  name with the prefix \<open>echo\<close>. The public functions dispatch to the stream's executor,
  on which the events of \<open>echo_step\<close> are handled one after the other.
\<close>

section \<open>State\<close>

datatype echo_state_t = Handshaking | Chatting | Closing

datatype sending_state_t = Send_idle | Sending

record echo_connection = "ws_op io" +
  echo_time_remaining :: int
  echo_rxbuffer :: string
  echo_tx_queue :: "string list"
  echo_ec :: error_code
  echo_state :: echo_state_t
  echo_sending_state :: sending_state_t

definition echo_construct :: echo_connection where
  "echo_construct = \<lparr>pending = [], started = [],
     echo_time_remaining = 30, echo_rxbuffer = [], echo_tx_queue = [], echo_ec = None,
     echo_state = Handshaking, echo_sending_state = Send_idle\<rparr>"

section \<open>Sending\<close>

definition echo_initiate_tx :: "echo_connection \<Rightarrow> echo_connection result" where
  "echo_initiate_tx c =
     and_then (check (echo_sending_state c = Send_idle) ''sending_state_ == send_idle'' c) (\<lambda>c.
     and_then (check (echo_ec c = None) ''!ec_'' c) (\<lambda>c.
     and_then (check (echo_tx_queue c \<noteq> []) ''!tx_queue_.empty()'' c) (\<lambda>c.
       Inr (initiate (Write_op (hd (echo_tx_queue c))) (c\<lparr>echo_sending_state := Sending\<rparr>)))))"

definition echo_maybe_send_next :: "echo_connection \<Rightarrow> echo_connection result" where
  "echo_maybe_send_next c =
     (if echo_ec c \<noteq> None \<or> echo_state c \<noteq> Chatting \<or> echo_sending_state c = Sending \<or>
         echo_tx_queue c = []
      then Inr c
      else echo_initiate_tx c)"

definition echo_handle_send :: "string \<Rightarrow> echo_connection \<Rightarrow> echo_connection result" where
  "echo_handle_send msg c = echo_maybe_send_next (c\<lparr>echo_tx_queue := echo_tx_queue c @ [msg]\<rparr>)"

definition echo_handle_tx :: "error_code \<Rightarrow> echo_connection \<Rightarrow> echo_connection result" where
  "echo_handle_tx e c =
     (case echo_tx_queue c of
        [] \<Rightarrow> Inl (Undefined ''front() or pop() of an empty queue'')
      | m # ms \<Rightarrow>
          if e \<noteq> None then Inr c
          else echo_maybe_send_next (c\<lparr>echo_tx_queue := ms, echo_sending_state := Send_idle\<rparr>))"

section \<open>Stopping\<close>

definition echo_handle_stop :: "close_reason \<Rightarrow> echo_connection \<Rightarrow> echo_connection" where
  "echo_handle_stop reason c =
     (let c1 = perform Cancel_wait (c\<lparr>echo_ec := Some operation_aborted\<rparr>);
          c2 = (case echo_state c1 of
                  Handshaking \<Rightarrow> perform Close_socket c1
                | Chatting \<Rightarrow> initiate (Close_op reason) c1
                | Closing \<Rightarrow> c1)
      in c2\<lparr>echo_state := Closing\<rparr>)"

section \<open>Receiving\<close>

definition echo_initiate_rx :: "echo_connection \<Rightarrow> echo_connection result" where
  "echo_initiate_rx c =
     and_then (check (echo_state c = Chatting) ''state_ == chatting'' c) (\<lambda>c.
     and_then (check (echo_ec c = None) ''!ec_'' c) (\<lambda>c.
       Inr (initiate Read_op c)))"

definition echo_handle_rx :: "error_code \<Rightarrow> nat \<Rightarrow> echo_connection \<Rightarrow> echo_connection result" where
  "echo_handle_rx e bytes_transferred c =
     (if e \<noteq> None then Inr c
      else let message = echo_rxbuffer c in
        and_then (echo_initiate_rx (c\<lparr>echo_rxbuffer := drop (length message) (echo_rxbuffer c)\<rparr>))
          (echo_handle_send message))"

section \<open>The session timer\<close>

definition echo_initiate_timer :: "echo_connection \<Rightarrow> echo_connection result" where
  "echo_initiate_timer c =
     and_then (check (echo_time_remaining c \<noteq> 0) ''time_remaining_.count()'' c) (\<lambda>c.
       let delta = min (echo_time_remaining c) 5
       in Inr (initiate (Wait_op delta) (c\<lparr>echo_time_remaining := echo_time_remaining c - delta\<rparr>)))"

definition echo_timer_message :: "int \<Rightarrow> string" where
  "echo_timer_message n = show_int n @ '' seconds remaining''"

definition echo_handle_timer :: "echo_connection \<Rightarrow> echo_connection result" where
  "echo_handle_timer c =
     (if echo_ec c \<noteq> None then Inr c
      else if echo_time_remaining c \<noteq> 0 then
        and_then (echo_handle_send (echo_timer_message (echo_time_remaining c)) c) echo_initiate_timer
      else Inr (echo_handle_stop (going_away, ''session timed out'') c))"

section \<open>Accepting the handshake\<close>

definition echo_handle_accept :: "error_code \<Rightarrow> echo_connection \<Rightarrow> echo_connection result" where
  "echo_handle_accept e c =
     (if echo_ec c \<noteq> None then Inr c
      else if e \<noteq> None then Inr c
      else and_then (echo_initiate_rx (c\<lparr>echo_state := Chatting\<rparr>)) echo_maybe_send_next)"

definition echo_handle_run :: "echo_connection \<Rightarrow> echo_connection result" where
  "echo_handle_run c = echo_initiate_timer (initiate Accept_op c)"

lemmas echo_defs [model_defs] =
  echo_construct_def echo_initiate_tx_def echo_maybe_send_next_def echo_handle_send_def
  echo_handle_tx_def echo_handle_stop_def echo_initiate_rx_def echo_handle_rx_def
  echo_initiate_timer_def echo_handle_timer_def echo_handle_accept_def echo_handle_run_def

section \<open>Events\<close>

text \<open>
  The calls of the three public functions, and the completions of the operations. A read
  completes with the bytes it appended to the receive buffer.
\<close>

datatype echo_event =
    Echo_run
  | Echo_stop
  | Echo_send string
  | Echo_accept_done error_code
  | Echo_read_done error_code string
  | Echo_write_done error_code string
  | Echo_close_done error_code close_reason
  | Echo_wait_done error_code int

fun echo_step :: "echo_connection \<Rightarrow> echo_event \<Rightarrow> echo_connection result" where
  "echo_step c Echo_run = echo_handle_run c"
| "echo_step c Echo_stop = Inr (echo_handle_stop (going_away, []) c)"
| "echo_step c (Echo_send msg) = echo_handle_send msg c"
| "echo_step c (Echo_accept_done e) = echo_handle_accept e (settle Accept_op c)"
| "echo_step c (Echo_read_done e bytes) =
     echo_handle_rx e (length bytes)
       ((settle Read_op c)\<lparr>echo_rxbuffer := echo_rxbuffer c @ bytes\<rparr>)"
| "echo_step c (Echo_write_done e m) = echo_handle_tx e (settle (Write_op m) c)"
| "echo_step c (Echo_close_done e r) = Inr (settle (Close_op r) c)"
| "echo_step c (Echo_wait_done e d) =
     (if e = None then echo_handle_timer (settle (Wait_op d) c) else Inr (settle (Wait_op d) c))"

text \<open>\<open>run\<close> is called once, right after construction; only a pending operation completes.\<close>

fun echo_enabled :: "echo_connection \<Rightarrow> echo_event \<Rightarrow> bool" where
  "echo_enabled c Echo_run = (started c = [])"
| "echo_enabled c Echo_stop = True"
| "echo_enabled c (Echo_send msg) = True"
| "echo_enabled c (Echo_accept_done e) = (Accept_op \<in> set (pending c))"
| "echo_enabled c (Echo_read_done e bytes) = (Read_op \<in> set (pending c))"
| "echo_enabled c (Echo_write_done e m) = (Write_op m \<in> set (pending c))"
| "echo_enabled c (Echo_close_done e r) = (Close_op r \<in> set (pending c))"
| "echo_enabled c (Echo_wait_done e d) = (Wait_op d \<in> set (pending c))"

abbreviation echo_reachable :: "echo_connection \<Rightarrow> bool" where
  "echo_reachable \<equiv> reachable echo_enabled echo_step echo_construct"

section \<open>The invariant\<close>

text \<open>
  Sending: at most the front of the queue is being written, and only while the sending state
  says so; an idle region of a chatting connection has an empty queue.
\<close>

definition echo_send_inv :: "echo_connection \<Rightarrow> bool" where
  "echo_send_inv c \<longleftrightarrow>
     (if echo_sending_state c = Sending
      then echo_tx_queue c \<noteq> [] \<and> echo_state c \<noteq> Handshaking \<and>
           (writes (pending c) = [] \<or> writes (pending c) = [hd (echo_tx_queue c)])
      else writes (pending c) = [] \<and> (echo_state c = Chatting \<longrightarrow> echo_tx_queue c = []))"

text \<open>The state machine: stopped exactly when \<^verbatim>\<open>ec_\<close> is set; one accept, then one read.\<close>

definition echo_state_inv :: "echo_connection \<Rightarrow> bool" where
  "echo_state_inv c \<longleftrightarrow>
     echo_ec c = (if echo_state c = Closing then Some operation_aborted else None) \<and>
     count_list (pending c) Accept_op + count_list (pending c) Read_op \<le> 1 \<and>
     (Accept_op \<in> set (pending c) \<longrightarrow> echo_state c \<noteq> Chatting) \<and>
     (Read_op \<in> set (pending c) \<longrightarrow> echo_state c \<noteq> Handshaking) \<and>
     (started c = [] \<longrightarrow> pending c = [] \<and> echo_state c = Handshaking)"

text \<open>The timer: what was armed and what remains add up to the thirty seconds.\<close>

definition echo_timer_inv :: "echo_connection \<Rightarrow> bool" where
  "echo_timer_inv c \<longleftrightarrow>
     sum_list (waits (started c)) + echo_time_remaining c = 30 \<and>
     0 \<le> echo_time_remaining c \<and> 5 dvd echo_time_remaining c \<and>
     length (waits (pending c)) \<le> min 1 (length (waits (started c))) \<and>
     set (waits (started c)) \<subseteq> {5} \<and>
     (echo_time_remaining c = 30 \<or> started c \<noteq> [])"

lemmas echo_inv_defs = echo_send_inv_def echo_state_inv_def echo_timer_inv_def

lemma echo_inv_init:
  "echo_send_inv echo_construct" "echo_state_inv echo_construct" "echo_timer_inv echo_construct"
  by (simp_all add: echo_inv_defs echo_construct_def)


subsection \<open>Preservation\<close>

text \<open>What the ledger operations leave alone.\<close>

lemma echo_ledger_frame [simp]:
  "echo_time_remaining (initiate x c) = echo_time_remaining c"
  "echo_rxbuffer (initiate x c) = echo_rxbuffer c"
  "echo_tx_queue (initiate x c) = echo_tx_queue c"
  "echo_ec (initiate x c) = echo_ec c"
  "echo_state (initiate x c) = echo_state c"
  "echo_sending_state (initiate x c) = echo_sending_state c"
  "echo_time_remaining (settle x c) = echo_time_remaining c"
  "echo_rxbuffer (settle x c) = echo_rxbuffer c"
  "echo_tx_queue (settle x c) = echo_tx_queue c"
  "echo_ec (settle x c) = echo_ec c"
  "echo_state (settle x c) = echo_state c"
  "echo_sending_state (settle x c) = echo_sending_state c"
  "echo_time_remaining (perform x c) = echo_time_remaining c"
  "echo_rxbuffer (perform x c) = echo_rxbuffer c"
  "echo_tx_queue (perform x c) = echo_tx_queue c"
  "echo_ec (perform x c) = echo_ec c"
  "echo_state (perform x c) = echo_state c"
  "echo_sending_state (perform x c) = echo_sending_state c"
  by (simp_all add: initiate_def settle_def perform_def)

text \<open>
  \<open>echo_maybe_send_next\<close> starts at most one write; with an idle sender it re-establishes the
  send invariant from a state with nothing being written.
\<close>

lemma echo_maybe_send_next_total: "\<exists>c'. echo_maybe_send_next c = Inr c'"
  by (cases "echo_sending_state c") (auto simp: echo_maybe_send_next_def echo_initiate_tx_def)

lemma echo_maybe_send_next_cases:
  assumes "echo_maybe_send_next c = Inr d"
  obtains (none) "d = c" "echo_ec c \<noteq> None \<or> echo_state c \<noteq> Chatting \<or> echo_sending_state c = Sending \<or> echo_tx_queue c = []"
    | (starts) "d = initiate (Write_op (hd (echo_tx_queue c))) (c\<lparr>echo_sending_state := Sending\<rparr>)"
        "echo_ec c = None" "echo_state c = Chatting" "echo_sending_state c = Send_idle" "echo_tx_queue c \<noteq> []"
  using assms by (auto simp: echo_maybe_send_next_def echo_initiate_tx_def and_then_Inr split: if_splits)


definition echo_inv :: "echo_connection \<Rightarrow> bool" where
  "echo_inv c \<longleftrightarrow> echo_send_inv c \<and> echo_state_inv c \<and> echo_timer_inv c"

lemma echo_invI: "echo_send_inv c \<Longrightarrow> echo_state_inv c \<Longrightarrow> echo_timer_inv c \<Longrightarrow> echo_inv c"
  by (simp add: echo_inv_def)

lemma echo_ec_state: "echo_state_inv c \<Longrightarrow> echo_ec c = (if echo_state c = Closing then Some operation_aborted else None)"
  by (simp add: echo_state_inv_def)

text \<open>The send invariant without its last clause: what holds before \<open>echo_maybe_send_next\<close>.\<close>

definition echo_send_pre :: "echo_connection \<Rightarrow> bool" where
  "echo_send_pre c \<longleftrightarrow>
     (if echo_sending_state c = Sending
      then echo_tx_queue c \<noteq> [] \<and> echo_state c \<noteq> Handshaking \<and>
           (writes (pending c) = [] \<or> writes (pending c) = [hd (echo_tx_queue c)])
      else writes (pending c) = [])"

lemma echo_maybe_send_next_inv:
  assumes "echo_maybe_send_next c = Inr d" "echo_send_pre c" "echo_state_inv c" "echo_timer_inv c"
  shows "echo_inv d"
  using assms(1)
proof (cases rule: echo_maybe_send_next_cases)
  case none
  then have "echo_send_inv c"
    using assms(2) echo_ec_state [OF assms(3)] by (auto simp: echo_send_pre_def echo_send_inv_def)
  with none assms show ?thesis by (simp add: echo_inv_def)
next
  case starts
  show ?thesis
  proof (rule echo_invI)
    show "echo_send_inv d" using starts assms(2) by (simp add: echo_send_pre_def echo_send_inv_def)
    show "echo_state_inv d" using starts assms(3) by (simp add: echo_state_inv_def)
    show "echo_timer_inv d" using starts assms(4) by (simp add: echo_timer_inv_def)
  qed
qed

lemma echo_handle_send_inv: "echo_handle_send m c = Inr d \<Longrightarrow> echo_inv c \<Longrightarrow> echo_inv d"
  unfolding echo_handle_send_def
  by (erule echo_maybe_send_next_inv)
    (auto simp: echo_inv_def echo_inv_defs echo_send_pre_def split: if_splits)

text \<open>Taking an operation out of the ledger keeps the invariant.\<close>

lemma echo_settle_inv:
  assumes "echo_inv c"
  shows "echo_inv (settle x c)"
proof (rule echo_invI)
  have "echo_send_inv c" "echo_state_inv c" "echo_timer_inv c"
    using assms by (simp_all add: echo_inv_def)
  then show "echo_send_inv (settle x c)"
    by (cases x) (auto simp: echo_send_inv_def writes_remove1_Write split: if_splits)
  show "echo_state_inv (settle x c)"
    using \<open>echo_state_inv c\<close> by (auto simp: echo_state_inv_def count_list_remove1 dest: notin_set_remove1)
  have "length (waits (remove1 x (pending c))) \<le> length (waits (pending c))"
    by (cases x) (simp_all add: waits_remove1_Wait length_remove1)
  then show "echo_timer_inv (settle x c)"
    using \<open>echo_timer_inv c\<close> by (simp add: echo_timer_inv_def)
qed

lemma echo_rxbuffer_inv [simp]: "echo_inv (c\<lparr>echo_rxbuffer := b\<rparr>) = echo_inv c"
  by (simp add: echo_inv_def echo_inv_defs)

lemma echo_handle_tx_inv:
  assumes "echo_handle_tx e (settle (Write_op m) c) = Inr d" "echo_inv c" "Write_op m \<in> set (pending c)"
  shows "echo_inv d"
proof -
  have send: "echo_send_inv c" using assms(2) by (simp add: echo_inv_def)
  from send assms(3) have q: "echo_sending_state c = Sending" "echo_state c \<noteq> Handshaking"
    "writes (pending c) = [m]"
    by (auto simp: echo_send_inv_def split: if_splits)
  obtain ms where ms: "echo_tx_queue c = m # ms"
    using send q by (cases "echo_tx_queue c") (auto simp: echo_send_inv_def split: if_splits)
  have pend: "writes (pending (settle (Write_op m) c)) = []"
    by (simp add: q writes_remove1_Write)
  have inv': "echo_inv (settle (Write_op m) c)"
    using assms(2) by (rule echo_settle_inv)
  show ?thesis
  proof (cases e)
    case None
    let ?c = "(settle (Write_op m) c)\<lparr>echo_tx_queue := ms, echo_sending_state := Send_idle\<rparr>"
    have "echo_maybe_send_next ?c = Inr d"
      using assms(1) None ms by (simp add: echo_handle_tx_def)
    then show ?thesis
    proof (rule echo_maybe_send_next_inv)
      show "echo_send_pre ?c" using pend by (simp add: echo_send_pre_def)
      show "echo_state_inv ?c" using inv' by (simp add: echo_inv_def echo_state_inv_def)
      show "echo_timer_inv ?c" using inv' by (simp add: echo_inv_def echo_timer_inv_def)
    qed
  next
    case (Some x)
    then have "d = settle (Write_op m) c"
      using assms(1) ms by (simp add: echo_handle_tx_def)
    with inv' show ?thesis by simp
  qed
qed

lemma echo_handle_stop_inv: "echo_inv c \<Longrightarrow> echo_inv (echo_handle_stop r c)"
  by (cases "echo_state c")
    (auto simp: echo_inv_def echo_inv_defs echo_handle_stop_def split: if_splits)

lemma echo_initiate_rx_inv:
  "echo_initiate_rx c = Inr d \<Longrightarrow> echo_state_inv c \<Longrightarrow> Read_op \<notin> set (pending c) \<Longrightarrow> echo_state_inv d"
  by (auto simp: echo_initiate_rx_def echo_state_inv_def and_then_Inr)

lemma echo_handle_rx_inv:
  assumes "echo_step c (Echo_read_done e bs) = Inr d" "echo_inv c" "Read_op \<in> set (pending c)"
  shows "echo_inv d"
proof -
  let ?c = "\<lambda>x. (settle Read_op c)\<lparr>echo_rxbuffer := x\<rparr>"
  have inv: "echo_inv (?c x)" for x
    using echo_settle_inv [OF assms(2)] by simp
  have no_read: "Read_op \<notin> set (pending (?c x))" for x
    using assms(2,3) by (simp add: echo_inv_def echo_state_inv_def count_list_remove1 flip: count_list_pos)
  show ?thesis
  proof (cases e)
    case None
    then obtain c1 where c1: "echo_initiate_rx (?c []) = Inr c1"
      and d: "echo_handle_send (echo_rxbuffer c @ bs) c1 = Inr d"
      using assms(1) by (auto simp: echo_handle_rx_def and_then_Inr)
    have "echo_state_inv c1"
      using echo_initiate_rx_inv [OF c1] inv [of "[]"] no_read [of "[]"] by (simp add: echo_inv_def)
    moreover have "echo_send_inv c1" "echo_timer_inv c1"
      using c1 inv [of "[]"] by (auto simp: echo_inv_def echo_inv_defs echo_initiate_rx_def and_then_Inr)
    ultimately show ?thesis using echo_handle_send_inv [OF d] by (simp add: echo_inv_def)
  next
    case (Some x)
    then show ?thesis using assms(1) inv by (auto simp: echo_handle_rx_def)
  qed
qed

lemma echo_initiate_timer_inv:
  assumes "echo_initiate_timer c = Inr d" "echo_inv c" "waits (pending c) = []" "started c \<noteq> []"
  shows "echo_inv d"
proof -
  have "echo_timer_inv c" using assms(2) by (simp add: echo_inv_def)
  then have "5 \<le> echo_time_remaining c"
    using assms(1) by (auto simp: echo_initiate_timer_def echo_timer_inv_def and_then_Inr dvd_def)
  then have d: "d = initiate (Wait_op 5) (c\<lparr>echo_time_remaining := echo_time_remaining c - 5\<rparr>)"
    using assms(1) by (simp add: echo_initiate_timer_def)
  show ?thesis
  proof (rule echo_invI)
    show "echo_send_inv d" using assms(2) by (simp add: d echo_inv_def echo_send_inv_def)
    show "echo_state_inv d" using assms(2,4) by (simp add: d echo_inv_def echo_state_inv_def)
    show "echo_timer_inv d"
      using assms(3) \<open>echo_timer_inv c\<close> \<open>5 \<le> echo_time_remaining c\<close>
      by (simp add: d echo_timer_inv_def)
  qed
qed

lemma echo_handle_send_frame:
  assumes "echo_handle_send m c = Inr d"
  shows "waits (pending d) = waits (pending c)" "waits (started d) = waits (started c)"
    "echo_time_remaining d = echo_time_remaining c" "started c \<noteq> [] \<Longrightarrow> started d \<noteq> []"
    "echo_ec d = echo_ec c" "echo_state d = echo_state c"
  using assms unfolding echo_handle_send_def by (auto elim!: echo_maybe_send_next_cases)

lemma echo_handle_timer_inv:
  assumes "echo_handle_timer (settle (Wait_op n) c) = Inr d" "echo_inv c" "Wait_op n \<in> set (pending c)"
  shows "echo_inv d"
proof -
  let ?c = "settle (Wait_op n) c"
  have inv: "echo_inv ?c"
    using assms(2) by (rule echo_settle_inv)
  have w: "waits (pending ?c) = []"
  proof -
    have "length (waits (pending c)) \<le> 1" "n \<in> set (waits (pending c))"
      using assms(2,3) by (simp_all add: echo_inv_def echo_timer_inv_def)
    then show ?thesis by (cases "waits (pending c)") (auto simp: waits_remove1_Wait)
  qed
  have s: "started ?c \<noteq> []"
    using assms(2,3) by (auto simp: echo_inv_def echo_state_inv_def)
  consider "d = ?c" | "d = echo_handle_stop (going_away, ''session timed out'') ?c"
    | c1 where "echo_handle_send (echo_timer_message (echo_time_remaining c)) ?c = Inr c1"
        "echo_initiate_timer c1 = Inr d"
    using assms(1) by (auto simp: echo_handle_timer_def and_then_Inr split: if_splits)
  then show ?thesis
  proof cases
    case 3
    show ?thesis
      using echo_initiate_timer_inv [OF 3(2) echo_handle_send_inv [OF 3(1) inv]]
        echo_handle_send_frame(1,4) [OF 3(1)] w s by simp
  qed (use inv echo_handle_stop_inv in auto)
qed

lemma echo_handle_accept_inv:
  assumes "echo_handle_accept e (settle Accept_op c) = Inr d" "echo_inv c" "Accept_op \<in> set (pending c)"
  shows "echo_inv d"
proof -
  let ?c = "settle Accept_op c"
  have inv: "echo_inv ?c"
    using assms(2) by (rule echo_settle_inv)
  have none: "Read_op \<notin> set (pending ?c)" "Accept_op \<notin> set (pending ?c)" "started c \<noteq> []"
    using assms(2,3) by (auto simp: echo_inv_def echo_state_inv_def count_list_remove1 simp flip: count_list_pos)
  consider "d = ?c" | c1 where "echo_ec c = None" "echo_initiate_rx (?c\<lparr>echo_state := Chatting\<rparr>) = Inr c1"
      "echo_maybe_send_next c1 = Inr d"
    using assms(1) by (auto simp: echo_handle_accept_def and_then_Inr split: if_splits)
  then show ?thesis
  proof cases
    case 1
    with inv show ?thesis by simp
  next
    case 2
    have hs: "echo_state c = Handshaking"
      using assms(2,3) 2(1) by (cases "echo_state c") (auto simp: echo_inv_def echo_state_inv_def)
    have c1: "c1 = initiate Read_op (?c\<lparr>echo_state := Chatting\<rparr>)"
      using 2(1,2) by (auto simp: echo_initiate_rx_def)
    from 2(3) show ?thesis
    proof (rule echo_maybe_send_next_inv)
      show "echo_send_pre c1"
        using inv hs by (auto simp: c1 echo_inv_def echo_send_inv_def echo_send_pre_def split: if_splits)
      show "echo_state_inv c1"
        using none 2(1) assms(2)
        by (simp add: c1 echo_inv_def echo_state_inv_def count_list_remove1 count_list_0_iff)
      show "echo_timer_inv c1" using inv by (simp add: c1 echo_inv_def echo_timer_inv_def)
    qed
  qed
qed

lemma echo_handle_run_inv:
  assumes "echo_handle_run c = Inr d" "echo_inv c" "started c = []"
  shows "echo_inv d"
proof -
  have "pending c = []" "echo_state c = Handshaking"
    using assms(2,3) by (simp_all add: echo_inv_def echo_state_inv_def)
  then have "echo_inv (initiate Accept_op c)" "waits (pending (initiate Accept_op c)) = []"
    using assms(2) by (auto simp: echo_inv_def echo_inv_defs split: if_splits)
  then show ?thesis
    using echo_initiate_timer_inv assms(1) by (simp add: echo_handle_run_def)
qed

lemma echo_inv_step:
  assumes "echo_inv c" "echo_enabled c e" "echo_step c e = Inr d"
  shows "echo_inv d"
proof (cases e)
  case (Echo_close_done x r)
  then show ?thesis
    using assms echo_settle_inv by auto
next
  case (Echo_wait_done x n)
  show ?thesis
  proof (cases x)
    case None
    with Echo_wait_done show ?thesis using assms echo_handle_timer_inv by simp
  next
    case (Some y)
    with Echo_wait_done show ?thesis
      using assms echo_settle_inv by auto
  qed
next
  case (Echo_read_done x bs)
  with assms echo_handle_rx_inv [of c x bs d] show ?thesis by simp
qed (use assms echo_handle_run_inv echo_handle_stop_inv echo_handle_send_inv echo_handle_accept_inv
      echo_handle_tx_inv in auto)

lemma echo_reachable_inv: "echo_reachable c \<Longrightarrow> echo_inv c"
  by (induction rule: reachable_invariant) (blast intro: echo_invI echo_inv_init echo_inv_step)+

section \<open>Flow of messages\<close>

definition echo_written :: "echo_connection \<Rightarrow> string list" where
  "echo_written c = writes (started c)"

definition echo_in_flight :: "echo_connection \<Rightarrow> string list" where
  "echo_in_flight c = writes (pending c)"

definition echo_backlog :: "echo_connection \<Rightarrow> string list" where
  "echo_backlog c = (if echo_sending_state c = Sending then tl (echo_tx_queue c) else echo_tx_queue c)"

text \<open>What each event puts into the transmit queue.\<close>

fun echo_accepted :: "echo_connection \<Rightarrow> echo_event \<Rightarrow> string list" where
  "echo_accepted c (Echo_send msg) = [msg]"
| "echo_accepted c (Echo_read_done None bytes) = [echo_rxbuffer c @ bytes]"
| "echo_accepted c (Echo_wait_done None d) =
     (if echo_ec c = None \<and> echo_time_remaining c \<noteq> 0
      then [echo_timer_message (echo_time_remaining c)] else [])"
| "echo_accepted c _ = []"

definition echo_ready :: "echo_connection \<Rightarrow> bool" where
  "echo_ready c \<longleftrightarrow> echo_ec c = None \<and> echo_state c = Chatting \<and> echo_sending_state c = Send_idle"

abbreviation echo_flow :: "echo_connection \<Rightarrow> string list" where
  "echo_flow c \<equiv> echo_written c @ echo_backlog c"

lemmas echo_flow_defs = echo_written_def echo_backlog_def

lemma echo_flow_frame [simp]:
  "echo_flow (settle x c) = echo_flow c"
  "echo_flow (c\<lparr>echo_rxbuffer := b\<rparr>) = echo_flow c"
  "echo_flow (c\<lparr>echo_state := st\<rparr>) = echo_flow c"
  "echo_flow (initiate Read_op c) = echo_flow c"
  "echo_flow (initiate Accept_op c) = echo_flow c"
  by (simp_all add: echo_flow_defs)

lemma echo_flow_maybe_send_next: "echo_maybe_send_next c = Inr d \<Longrightarrow> echo_flow d = echo_flow c"
  by (erule echo_maybe_send_next_cases) (auto simp: echo_flow_defs)

lemma echo_flow_handle_send:
  "echo_handle_send m c = Inr d \<Longrightarrow> echo_sending_state c = Sending \<longrightarrow> echo_tx_queue c \<noteq> [] \<Longrightarrow>
     echo_flow d = echo_flow c @ [m]"
  unfolding echo_handle_send_def by (drule echo_flow_maybe_send_next) (auto simp: echo_flow_defs)

lemma echo_flow_initiate_timer: "echo_initiate_timer c = Inr d \<Longrightarrow> echo_flow d = echo_flow c"
  by (auto simp: echo_initiate_timer_def echo_flow_defs and_then_Inr Let_def)

lemma echo_flow_handle_stop: "echo_flow (echo_handle_stop r c) = echo_flow c"
  by (cases "echo_state c") (simp_all add: echo_handle_stop_def echo_flow_defs)

lemma echo_sending_queue: "echo_inv c \<Longrightarrow> echo_sending_state c = Sending \<longrightarrow> echo_tx_queue c \<noteq> []"
  by (auto simp: echo_inv_def echo_send_inv_def split: if_splits)

lemma echo_flow_step:
  assumes "echo_inv c" "echo_enabled c e" "echo_step c e = Inr d"
  shows "echo_flow d = echo_flow c @ echo_accepted c e"
proof (cases e)
  case Echo_run
  then show ?thesis using assms(3) echo_flow_initiate_timer [of "initiate Accept_op c" d]
    by (simp add: echo_handle_run_def)
next
  case Echo_stop
  then show ?thesis using assms(3) by (auto simp: echo_flow_handle_stop)
next
  case (Echo_send m)
  then show ?thesis using assms(3) echo_flow_handle_send echo_sending_queue [OF assms(1)] by simp
next
  case (Echo_accept_done x)
  then show ?thesis using assms(3)
    by (auto simp: echo_handle_accept_def and_then_Inr echo_initiate_rx_def dest!: echo_flow_maybe_send_next split: if_splits)
next
  case (Echo_read_done x bs)
  then show ?thesis using assms(3) echo_sending_queue [OF assms(1)]
    by (cases x) (auto simp: echo_handle_rx_def and_then_Inr echo_initiate_rx_def dest!: echo_flow_handle_send)
next
  case (Echo_write_done x m)
  then have "echo_sending_state c = Sending"
    using assms(1,2) by (auto simp: echo_inv_def echo_send_inv_def split: if_splits)
  with Echo_write_done show ?thesis using assms(3)
    by (auto simp: echo_handle_tx_def echo_flow_defs split: list.splits if_splits
        dest!: echo_flow_maybe_send_next)
next
  case (Echo_close_done x r)
  then show ?thesis using assms(3) by auto
next
  case (Echo_wait_done x n)
  then show ?thesis using assms(3) echo_sending_queue [OF assms(1)]
    by (cases x) (auto simp: echo_handle_timer_def and_then_Inr echo_flow_handle_stop
        dest!: echo_flow_handle_send echo_flow_initiate_timer split: if_splits)
qed

interpretation echo: prompt_send_region
  echo_enabled echo_step echo_construct echo_written echo_in_flight echo_backlog echo_accepted echo_ready
proof unfold_locales
  show "echo_written echo_construct = [] \<and> echo_backlog echo_construct = []"
    by (simp add: echo_flow_defs echo_construct_def)
  show "echo_flow t = echo_written s @ echo_backlog s @ echo_accepted s e"
    if "echo_reachable s" "echo_enabled s e" "echo_step s e = Inr t" for s e t
    using echo_flow_step [OF echo_reachable_inv] that by simp
  show "length (echo_in_flight s) \<le> 1" if "echo_reachable s" for s
    using echo_reachable_inv [OF that]
    by (auto simp: echo_inv_def echo_send_inv_def echo_in_flight_def split: if_splits)
  show "echo_backlog s = []" if "echo_reachable s" "echo_ready s" for s
    using echo_reachable_inv [OF that(1)] that(2)
    by (auto simp: echo_inv_def echo_send_inv_def echo_ready_def echo_backlog_def)
qed

section \<open>Faults\<close>

lemma echo_handle_send_total: "\<exists>d. echo_handle_send m c = Inr d"
  by (simp add: echo_handle_send_def echo_maybe_send_next_total)

lemma echo_handle_timer_total: "\<exists>d. echo_handle_timer c = Inr d"
proof -
  obtain c1 where c1: "echo_handle_send (echo_timer_message (echo_time_remaining c)) c = Inr c1"
    using echo_handle_send_total by blast
  show ?thesis
    using c1 echo_handle_send_frame(3) [OF c1]
    by (auto simp: echo_handle_timer_def echo_initiate_timer_def Let_def)
qed

lemma echo_handle_accept_total:
  assumes "echo_inv c"
  shows "\<exists>d. echo_handle_accept e (settle Accept_op c) = Inr d"
  using echo_maybe_send_next_total by (auto simp: echo_handle_accept_def echo_initiate_rx_def)

lemma echo_handle_tx_total:
  assumes "echo_inv c" "Write_op m \<in> set (pending c)"
  shows "\<exists>d. echo_handle_tx e (settle (Write_op m) c) = Inr d"
proof -
  have "echo_tx_queue c \<noteq> []"
    using assms by (auto simp: echo_inv_def echo_send_inv_def split: if_splits)
  then show ?thesis
    using echo_maybe_send_next_total by (auto simp: echo_handle_tx_def split: list.splits)
qed

lemma echo_handle_rx_fault:
  assumes "echo_inv c" "Read_op \<in> set (pending c)"
  shows "(\<exists>d. echo_step c (Echo_read_done e bs) = Inr d) \<longleftrightarrow> \<not> (e = None \<and> echo_ec c \<noteq> None)"
    and "echo_step c (Echo_read_done e bs) = Inl x \<Longrightarrow> x = Assertion ''state_ == chatting''"
proof -
  have st: "echo_state c = (if echo_ec c = None then Chatting else Closing)"
    using assms by (cases "echo_state c") (auto simp: echo_inv_def echo_state_inv_def)
  show "(\<exists>d. echo_step c (Echo_read_done e bs) = Inr d) \<longleftrightarrow> \<not> (e = None \<and> echo_ec c \<noteq> None)"
    using st echo_handle_send_total by (auto simp: echo_handle_rx_def echo_initiate_rx_def)
  show "echo_step c (Echo_read_done e bs) = Inl x \<Longrightarrow> x = Assertion ''state_ == chatting''"
    using st echo_handle_send_total
    by (cases "echo_ec c") (auto simp: echo_handle_rx_def echo_initiate_rx_def and_then_Inl split: if_splits,
      (metis Inl_Inr_False)+)
qed

lemma echo_handle_run_total: "echo_inv c \<Longrightarrow> started c = [] \<Longrightarrow> \<exists>d. echo_handle_run c = Inr d"
  by (auto simp: echo_handle_run_def echo_initiate_timer_def echo_inv_def echo_timer_inv_def Let_def)

lemma echo_fault_iff:
  assumes "echo_reachable c" "echo_enabled c e"
  shows "(\<exists>x. echo_step c e = Inl x) \<longleftrightarrow> (\<exists>bytes. e = Echo_read_done None bytes \<and> echo_ec c \<noteq> None)"
proof -
  have inv: "echo_inv c" using assms(1) by (rule echo_reachable_inv)
  have "(\<exists>d. echo_step c e = Inr d) \<longleftrightarrow> \<not> (\<exists>bytes. e = Echo_read_done None bytes \<and> echo_ec c \<noteq> None)"
    using assms(2) inv echo_handle_run_total echo_handle_send_total echo_handle_accept_total
      echo_handle_tx_total echo_handle_timer_total echo_handle_rx_fault(1)
    by (cases e) (auto simp del: echo_step.simps(5))
  then show ?thesis by (metis Inl_Inr_False sum.exhaust)
qed

section \<open>Properties\<close>

text \<open>
  C9. When a handler of the session can fail. In every reachable state, every event the I/O
  layer can deliver is handled without a failed assertion and without touching an empty queue,
  with exactly one exception: a read that completes successfully after the session was
  stopped (the completion was already queued when \<open>stop\<close> ran) trips
  \<^verbatim>\<open>assert(state_ == chatting)\<close> in \<open>initiate_rx\<close>.
\<close>

theorem echo_faults_exactly:
  assumes "echo_reachable c" "echo_enabled c e"
  shows "(\<exists>x. echo_step c e = Inl x) \<longleftrightarrow> (\<exists>bytes. e = Echo_read_done None bytes \<and> echo_ec c \<noteq> None)"
  using assms by (rule echo_fault_iff)

theorem echo_faults_exactly_witness:
  "\<exists>c. run echo_enabled echo_step echo_construct [Echo_run, Echo_accept_done None, Echo_stop] = Some c \<and>
     echo_enabled c (Echo_read_done None ''hi'') \<and> (\<exists>x. echo_step c (Echo_read_done None ''hi'') = Inl x)"
proof -
  let ?es = "[Echo_run, Echo_accept_done None, Echo_stop]"
  obtain c where r: "run echo_enabled echo_step echo_construct ?es = Some c"
    and e: "echo_enabled c (Echo_read_done None ''hi'')" "echo_ec c \<noteq> None"
    by (simp add: echo_defs)
  have "\<exists>x. echo_step c (Echo_read_done None ''hi'') = Inl x"
    using echo_faults_exactly [OF run_reachable [OF r] e(1)] e(2) by blast
  with r e(1) show ?thesis by blast
qed

text \<open>
  C1. Messages leave in the order they came: over every run, the messages handed to
  \<^verbatim>\<open>async_write\<close> are a prefix of the messages the session took in (sent by the server,
  echoed, or announced by the timer), and they are all of them whenever the session is chatting
  and no write is in progress.
\<close>

theorem echo_messages_in_order:
  assumes "run echo_enabled echo_step echo_construct es = Some c"
  shows "prefix (echo_written c) (taken echo_step echo_accepted echo_construct es) \<and>
    (echo_ready c \<longrightarrow> echo_written c = taken echo_step echo_accepted echo_construct es)"
  using echo.written_prefix [OF assms] echo.ready_all_written [OF assms] by blast

theorem echo_messages_in_order_witness:
  "\<exists>c. run echo_enabled echo_step echo_construct
      [Echo_run, Echo_send ''a'', Echo_accept_done None, Echo_read_done None ''b'', Echo_write_done None ''a''] = Some c \<and>
     echo_written c = [''a'', ''b''] \<and> prefix [''a'', ''b''] (taken echo_step echo_accepted echo_construct
      [Echo_run, Echo_send ''a'', Echo_accept_done None, Echo_read_done None ''b'', Echo_write_done None ''a''])"
proof -
  let ?es = "[Echo_run, Echo_send ''a'', Echo_accept_done None, Echo_read_done None ''b'', Echo_write_done None ''a'']"
  obtain c where r: "run echo_enabled echo_step echo_construct ?es = Some c" and w: "echo_written c = [''a'', ''b'']"
    by (simp add: echo_defs echo_written_def)
  from echo_messages_in_order [OF r] r w show ?thesis by auto
qed

text \<open>
  C22. Beast's rule for a WebSocket stream is kept: a session never has two reads, two writes
  or two accepts outstanding, and the write outstanding is of the message at the front of the
  queue, which therefore stays in place (and at a stable address) until it completes.
\<close>

theorem echo_one_operation_of_each_kind:
  assumes "echo_reachable c"
  shows "count_list (pending c) Accept_op + count_list (pending c) Read_op \<le> 1 \<and>
    length (writes (pending c)) \<le> 1 \<and> length (waits (pending c)) \<le> 1 \<and>
    (Write_op m \<in> set (pending c) \<longrightarrow>
       echo_sending_state c = Sending \<and> (\<exists>ms. echo_tx_queue c = m # ms))"
proof -
  have inv: "echo_send_inv c" "echo_state_inv c" "echo_timer_inv c"
    using echo_reachable_inv [OF assms] by (simp_all add: echo_inv_def)
  then show ?thesis
    by (auto simp: echo_inv_defs neq_Nil_conv split: if_splits)
qed

theorem echo_one_operation_of_each_kind_witness:
  "\<exists>c. run echo_enabled echo_step echo_construct
      [Echo_run, Echo_send ''a'', Echo_send ''b'', Echo_accept_done None] = Some c \<and>
     Write_op ''a'' \<in> set (pending c) \<and> length (writes (pending c)) \<le> 1 \<and> (\<exists>ms. echo_tx_queue c = ''a'' # ms)"
proof -
  obtain c where r: "run echo_enabled echo_step echo_construct
      [Echo_run, Echo_send ''a'', Echo_send ''b'', Echo_accept_done None] = Some c"
    and p: "Write_op ''a'' \<in> set (pending c)"
    by (simp add: echo_defs)
  from echo_one_operation_of_each_kind [OF run_reachable [OF r], of "''a''"] r p show ?thesis by blast
qed

text \<open>
  Once stopped: \<^verbatim>\<open>ec_\<close> stays set, and no handler starts another operation; a repeated
  \<open>stop\<close> only cancels the timer again.
\<close>

lemma echo_stopped_step:
  assumes "echo_inv c" "echo_ec c \<noteq> None" "echo_enabled c e" "echo_step c e = Inr d"
  shows "echo_ec d \<noteq> None \<and> started d = started c @ (if e = Echo_stop then [Cancel_wait] else [])"
proof -
  have st: "echo_state c = Closing" "started c \<noteq> []"
    using assms(1,2) by (auto simp: echo_inv_def echo_state_inv_def split: if_splits)
  have send: "echo_handle_send m c = Inr (c\<lparr>echo_tx_queue := echo_tx_queue c @ [m]\<rparr>)" for m
    using assms(2) by (simp add: echo_handle_send_def echo_maybe_send_next_def)
  show ?thesis
    using assms(2,3,4) st
    by (cases e) (auto simp: send echo_handle_stop_def echo_handle_accept_def echo_handle_rx_def
        echo_initiate_rx_def echo_handle_tx_def echo_handle_timer_def echo_maybe_send_next_def
        split: if_splits list.splits)
qed

lemma echo_stopped_run:
  assumes "echo_reachable c" "echo_ec c \<noteq> None" "run echo_enabled echo_step c es = Some d"
  shows "echo_ec d \<noteq> None \<and> started d = started c @ replicate (count_list es Echo_stop) Cancel_wait"
  using assms(3,1,2)
proof (induction rule: run_induct)
  case Nil
  then show ?case by simp
next
  case (Cons c e es c1)
  have "echo_ec c1 \<noteq> None" "started c1 = started c @ (if e = Echo_stop then [Cancel_wait] else [])"
    using echo_stopped_step [OF echo_reachable_inv [OF Cons.prems(1)] Cons.prems(2) Cons.hyps(1,2)] by simp_all
  with Cons.IH [OF reachable_step [OF Cons.prems(1) Cons.hyps(1,2)]] show ?case
    by simp
qed

text \<open>
  C23. Stopping is final: from a stopped state, whatever sequence of events follows (late
  completions of the accept, of reads, writes and the timer included), no operation is
  started any more, except that each further \<open>stop\<close> cancels the timer.
\<close>

theorem echo_stop_is_final:
  assumes "echo_reachable c" "echo_ec c \<noteq> None" "run echo_enabled echo_step c es = Some d"
  shows "echo_ec d \<noteq> None \<and>
    started d = started c @ replicate (count_list es Echo_stop) Cancel_wait"
  using assms by (rule echo_stopped_run)

theorem echo_stop_is_final_witness:
  "\<exists>c d. run echo_enabled echo_step echo_construct [Echo_run, Echo_send ''a'', Echo_stop] = Some c \<and>
     run echo_enabled echo_step c [Echo_accept_done None, Echo_stop, Echo_wait_done None 5] = Some d \<and>
     started d = started c @ [Cancel_wait]"
proof -
  obtain c where r: "run echo_enabled echo_step echo_construct [Echo_run, Echo_send ''a'', Echo_stop] = Some c"
    and "echo_ec c \<noteq> None"
    and "\<exists>d. run echo_enabled echo_step c [Echo_accept_done None, Echo_stop, Echo_wait_done None 5] = Some d"
    by (simp add: echo_defs)
  then obtain d where "run echo_enabled echo_step c [Echo_accept_done None, Echo_stop, Echo_wait_done None 5] = Some d"
    "echo_ec c \<noteq> None" by blast
  from echo_stop_is_final [OF run_reachable [OF r] this(2) this(1)] r this(1) show ?thesis by simp
qed

fun closes :: "ws_op list \<Rightarrow> close_reason list" where
  "closes [] = []"
| "closes (Close_op r # xs) = r # closes xs"
| "closes (_ # xs) = closes xs"

lemma closes_append [simp]: "closes (xs @ ys) = closes xs @ closes ys"
  by (induction xs rule: closes.induct) auto

lemma closes_replicate [simp]: "closes (replicate n Cancel_wait) = []"
  by (induction n) auto

text \<open>The closing handshake is started only by the step that stops a chatting session.\<close>

lemma echo_open_step_closes:
  assumes "echo_ec c = None" "echo_step c e = Inr d"
  shows "closes (started d) = closes (started c) @
    (if echo_ec d \<noteq> None \<and> echo_state c = Chatting
     then [if e = Echo_stop then (going_away, []) else (going_away, ''session timed out'')] else [])"
  using assms
  by (cases e; cases "echo_state c")
    (auto simp: echo_handle_run_def echo_initiate_timer_def echo_handle_stop_def echo_handle_send_def
      echo_handle_accept_def echo_handle_rx_def echo_initiate_rx_def echo_handle_tx_def
      echo_handle_timer_def and_then_Inr Let_def
      elim!: echo_maybe_send_next_cases split: if_splits list.splits)

text \<open>
  At most one WebSocket close is ever started on a session, and none before the session
  is stopped.
\<close>

theorem echo_closes_at_most_once:
  assumes "echo_reachable c"
  shows "length (closes (started c)) \<le> 1 \<and> (echo_ec c = None \<longrightarrow> closes (started c) = [])"
  using assms
proof (induction rule: reachable_invariant)
  case start
  show ?case by (simp add: echo_construct_def)
next
  case (step s e t)
  show ?case
  proof (cases "echo_ec s")
    case None
    with step.IH step.hyps echo_open_step_closes [OF None] show ?thesis
      using step by auto
  next
    case (Some x)
    then have "echo_ec t \<noteq> None \<and> closes (started t) = closes (started s)"
      using echo_stopped_step [OF echo_reachable_inv] step by auto
    with step show ?thesis by auto
  qed
qed

theorem echo_closes_at_most_once_witness:
  "\<exists>c. run echo_enabled echo_step echo_construct [Echo_run, Echo_accept_done None, Echo_stop, Echo_stop] = Some c \<and>
     closes (started c) = [(going_away, [])] \<and> length (closes (started c)) \<le> 1"
proof -
  obtain c where r: "run echo_enabled echo_step echo_construct [Echo_run, Echo_accept_done None, Echo_stop, Echo_stop] = Some c"
    and s: "closes (started c) = [(going_away, [])]"
    by (simp add: echo_defs)
  from echo_closes_at_most_once [OF run_reachable [OF r]] r s show ?thesis by blast
qed

text \<open>Expiries of the session timer in a run.\<close>

fun expiry :: "echo_event \<Rightarrow> bool" where
  "expiry (Echo_wait_done None d) = True"
| "expiry _ = False"

abbreviation expiries :: "echo_event list \<Rightarrow> nat" where
  "expiries es \<equiv> length (filter expiry es)"

lemma echo_waits_mono:
  assumes "echo_step c e = Inr d"
  shows "\<exists>ws. waits (started d) = waits (started c) @ ws"
  using assms
  by (cases e; cases "echo_state c")
    (auto simp: echo_handle_run_def echo_initiate_timer_def echo_handle_stop_def echo_handle_send_def
      echo_handle_accept_def echo_handle_rx_def echo_initiate_rx_def echo_handle_tx_def
      echo_handle_timer_def and_then_Inr Let_def
      elim!: echo_maybe_send_next_cases split: if_splits list.splits)

text \<open>The history of a session only grows.\<close>

lemma echo_started_mono:
  assumes "echo_step c e = Inr d"
  shows "prefix (started c) (started d)"
  using assms
  by (cases e; cases "echo_state c")
    (auto simp: echo_handle_run_def echo_initiate_timer_def echo_handle_stop_def echo_handle_send_def
      echo_handle_accept_def echo_handle_rx_def echo_initiate_rx_def echo_handle_tx_def
      echo_handle_timer_def and_then_Inr Let_def
      elim!: echo_maybe_send_next_cases split: if_splits list.splits)

lemma echo_expiry_rearms:
  assumes "echo_inv c" "echo_step c (Echo_wait_done None d) = Inr c'" "echo_ec c' = None"
  shows "length (waits (started c')) = Suc (length (waits (started c)))"
proof -
  have "echo_ec c = None" "echo_time_remaining c \<noteq> 0"
    using assms(2,3) by (auto simp: echo_handle_timer_def echo_handle_stop_def Let_def split: if_splits echo_state_t.splits)
  then show ?thesis
    using assms(2) by (auto simp: echo_handle_timer_def echo_initiate_timer_def and_then_Inr Let_def
        dest!: echo_handle_send_frame(2))
qed

lemma echo_expiries_bound:
  "run echo_enabled echo_step c es = Some d \<Longrightarrow> echo_reachable c \<Longrightarrow> echo_ec d = None \<Longrightarrow>
     length (waits (started c)) + expiries es \<le> length (waits (started d))"
proof (induction rule: run_induct)
  case Nil
  then show ?case by simp
next
  case (Cons c e es c1)
  note c1 = Cons.hyps
  have r1: "echo_reachable c1" by (rule reachable_step [OF Cons.prems(1) c1(1,2)])
  have ec1: "echo_ec c1 = None"
    using echo_stopped_run [OF r1 _ c1(3)] Cons.prems(2) by blast
  have "length (waits (started c)) + expiries [e] \<le> length (waits (started c1))"
  proof (cases "expiry e")
    case True
    then obtain n where "e = Echo_wait_done None n" by (cases e rule: expiry.cases) auto
    then show ?thesis
      using echo_expiry_rearms [OF echo_reachable_inv [OF Cons.prems(1)]] c1(2) ec1 by simp
  next
    case False
    then show ?thesis using echo_waits_mono [OF c1(2)] by auto
  qed
  with Cons.IH [OF r1 Cons.prems(2)] show ?case by auto
qed

text \<open>
  C34. A session lives for at most thirty seconds: the timer is armed for five seconds at a
  time, at most six times; after the sixth expiry, at the latest, the session is stopped.
\<close>

theorem echo_session_times_out:
  assumes "run echo_enabled echo_step echo_construct es = Some c"
  shows "sum_list (waits (started c)) \<le> 30 \<and> (echo_ec c = None \<longrightarrow> expiries es \<le> 5)"
proof -
  have inv: "echo_timer_inv c"
    using echo_reachable_inv [OF run_reachable [OF assms]] by (simp add: echo_inv_def)
  have len: "length (waits (started c)) \<le> 6"
  proof -
    have "sum_list ws = 5 * int (length ws)" if "set ws \<subseteq> {5}" for ws :: "int list"
      using that by (induction ws) auto
    with inv show ?thesis by (fastforce simp: echo_timer_inv_def)
  qed
  have "expiries es \<le> 5" if ec: "echo_ec c = None"
  proof (cases "expiries es = 0")
    case False
    then obtain fs e gs where es: "es = fs @ e # gs" and e: "expiry e" and fs: "\<forall>x \<in> set fs. \<not> expiry x"
      by (metis filter_empty_conv list.size(3) split_list_first_prop)
    obtain n where n: "e = Echo_wait_done None n" using e by (cases e rule: expiry.cases) auto
    obtain b where b: "run echo_enabled echo_step echo_construct fs = Some b"
      "run echo_enabled echo_step b (e # gs) = Some c"
      using assms by (auto simp: es run_append bind_eq_Some_conv)
    have rb: "echo_reachable b" by (rule run_reachable [OF b(1)])
    have "n \<in> set (waits (pending b))" using b(2) n by (auto split: if_splits)
    then have "1 \<le> length (waits (pending b))" by (cases "waits (pending b)") auto
    then have "1 \<le> length (waits (started b))"
      using echo_reachable_inv [OF rb] by (auto simp: echo_inv_def echo_timer_inv_def)
    with echo_expiries_bound [OF b(2) rb ec] len fs show ?thesis
      by (simp add: es)
  qed simp
  with inv show ?thesis by (auto simp: echo_timer_inv_def)
qed

text \<open>Six expiries stop the session.\<close>

theorem echo_session_times_out_witness:
  "\<exists>c. run echo_enabled echo_step echo_construct (Echo_run # replicate 6 (Echo_wait_done None 5)) = Some c \<and>
     expiries (Echo_run # replicate 6 (Echo_wait_done None 5)) = 6 \<and> echo_ec c \<noteq> None"
proof -
  let ?es = "Echo_run # replicate 6 (Echo_wait_done None 5)"
  obtain c where r: "run echo_enabled echo_step echo_construct ?es = Some c"
    by (simp add: echo_defs numeral_eq_Suc)
  have n: "expiries ?es = 6" by simp
  from echo_session_times_out [OF r] n have "echo_ec c \<noteq> None" by linarith
  with r n show ?thesis by blast
qed

end
