(* ===== verification/Chat_Connection.thy ===== *)
theory Chat_Connection
  imports Echo_Connection
begin

text \<open>
  \<^verbatim>\<open>pre-cxx20/chatterbox/connection.hpp\<close> and \<^verbatim>\<open>connection.cpp\<close>: a client connection
  of the chatterbox. It connects to the echo server, performs the WebSocket handshake and sends
  back every message it receives. Its sending state is the one of the echo server's sessions.
\<close>

section \<open>State\<close>

datatype cc_state_t = cc_handshaking | cc_chatting

record chat_connection = "ws_op io" +
  cc_rxbuffer :: string
  cc_tx_queue :: "string list"
  cc_ec :: error_code
  cc_state :: cc_state_t
  cc_sending_state :: sending_state_t

text \<open>\<open>e\<close> is the error of opening or binding the socket, which throws.\<close>

definition cc_construct :: "error_code \<Rightarrow> chat_connection result" where
  "cc_construct e = (case e of
      Some x \<Rightarrow> Inl (System_error x)
    | None \<Rightarrow> Inr \<lparr>pending = [], started = [], cc_rxbuffer = [], cc_tx_queue = [], cc_ec = None,
        cc_state = cc_handshaking, cc_sending_state = Send_idle\<rparr>)"

definition cc_fresh :: chat_connection where
  "cc_fresh = \<lparr>pending = [], started = [], cc_rxbuffer = [], cc_tx_queue = [], cc_ec = None,
     cc_state = cc_handshaking, cc_sending_state = Send_idle\<rparr>"

section \<open>Operations\<close>

definition cc_initiate_tx :: "chat_connection \<Rightarrow> chat_connection result" where
  "cc_initiate_tx c =
     and_then (check (cc_sending_state c = Send_idle) ''sending_state_ == send_idle'' c) (\<lambda>c.
     and_then (check (cc_ec c = None) ''!ec_'' c) (\<lambda>c.
     and_then (check (cc_tx_queue c \<noteq> []) ''!tx_queue_.empty()'' c) (\<lambda>c.
       Inr (initiate (Write_op (hd (cc_tx_queue c))) (c\<lparr>cc_sending_state := Sending\<rparr>)))))"

definition cc_maybe_send_next :: "chat_connection \<Rightarrow> chat_connection result" where
  "cc_maybe_send_next c =
     (if cc_ec c \<noteq> None \<or> cc_state c \<noteq> cc_chatting \<or> cc_sending_state c = Sending \<or> cc_tx_queue c = []
      then Inr c else cc_initiate_tx c)"

definition cc_send :: "string \<Rightarrow> chat_connection \<Rightarrow> chat_connection result" where
  "cc_send msg c = cc_maybe_send_next (c\<lparr>cc_tx_queue := cc_tx_queue c @ [msg]\<rparr>)"

definition cc_handle_tx :: "error_code \<Rightarrow> chat_connection \<Rightarrow> chat_connection result" where
  "cc_handle_tx e c =
     (case cc_tx_queue c of
        [] \<Rightarrow> Inl (Undefined ''front() or pop() of an empty queue'')
      | m # ms \<Rightarrow>
          if e \<noteq> None then Inr c
          else cc_maybe_send_next (c\<lparr>cc_tx_queue := ms, cc_sending_state := Send_idle\<rparr>))"

definition cc_initiate_rx :: "chat_connection \<Rightarrow> chat_connection result" where
  "cc_initiate_rx c =
     and_then (check (cc_state c = cc_chatting) ''state_ == chatting'' c) (\<lambda>c.
     and_then (check (cc_ec c = None) ''!ec_'' c) (\<lambda>c.
       Inr (initiate Read_op c)))"

text \<open>
  \<open>at\<close> is the error of \<open>local_endpoint\<close>, which a message is reported with and which throws,
  say because the socket has been closed in the meantime.
\<close>

definition cc_handle_rx :: "error_code \<Rightarrow> error_code \<Rightarrow> chat_connection \<Rightarrow> chat_connection result" where
  "cc_handle_rx e at c =
     (if e \<noteq> None then Inr c
      else let message = cc_rxbuffer c in
        if at \<noteq> None then Inl (System_error (the at))
        else and_then (cc_initiate_rx (c\<lparr>cc_rxbuffer := drop (length message) (cc_rxbuffer c)\<rparr>)) (cc_send message))"

definition cc_handle_run :: "chat_connection \<Rightarrow> chat_connection" where
  "cc_handle_run c = initiate Connect_op c"

definition cc_initiate_handshake :: "chat_connection \<Rightarrow> chat_connection" where
  "cc_initiate_handshake c = initiate Handshake_op c"

definition cc_handle_connect :: "error_code \<Rightarrow> chat_connection \<Rightarrow> chat_connection" where
  "cc_handle_connect e c = (if e = None then cc_initiate_handshake c else c)"

definition cc_handle_handshake :: "error_code \<Rightarrow> chat_connection \<Rightarrow> chat_connection result" where
  "cc_handle_handshake e c =
     (if cc_ec c \<noteq> None then Inr c
      else if e \<noteq> None then Inr c
      else and_then (cc_initiate_rx (c\<lparr>cc_state := cc_chatting\<rparr>)) cc_maybe_send_next)"

definition cc_handle_stop :: "chat_connection \<Rightarrow> chat_connection" where
  "cc_handle_stop c =
     (let c = c\<lparr>cc_ec := Some operation_aborted\<rparr> in
      if cc_state c = cc_chatting then initiate (Close_op (going_away, [])) c else perform Cancel_socket c)"

lemmas cc_defs [model_defs] =
  cc_construct_def cc_fresh_def cc_initiate_tx_def cc_maybe_send_next_def cc_send_def cc_handle_tx_def
  cc_initiate_rx_def cc_handle_rx_def cc_handle_run_def cc_initiate_handshake_def cc_handle_connect_def
  cc_handle_handshake_def cc_handle_stop_def

section \<open>Events\<close>

datatype cc_event =
    Cc_run
  | Cc_stop
  | Cc_send string
  | Cc_connect_done error_code
  | Cc_handshake_done error_code
  | Cc_read_done error_code error_code string
  | Cc_write_done error_code string
  | Cc_close_done error_code

fun cc_step :: "chat_connection \<Rightarrow> cc_event \<Rightarrow> chat_connection result" where
  "cc_step c Cc_run = Inr (cc_handle_run c)"
| "cc_step c Cc_stop = Inr (cc_handle_stop c)"
| "cc_step c (Cc_send msg) = cc_send msg c"
| "cc_step c (Cc_connect_done e) = Inr (cc_handle_connect e (settle Connect_op c))"
| "cc_step c (Cc_handshake_done e) = cc_handle_handshake e (settle Handshake_op c)"
| "cc_step c (Cc_read_done e at bytes) = cc_handle_rx e at ((settle Read_op c)\<lparr>cc_rxbuffer := cc_rxbuffer c @ bytes\<rparr>)"
| "cc_step c (Cc_write_done e m) = cc_handle_tx e (settle (Write_op m) c)"
| "cc_step c (Cc_close_done e) = Inr (settle (Close_op (going_away, [])) c)"

fun cc_enabled :: "chat_connection \<Rightarrow> cc_event \<Rightarrow> bool" where
  "cc_enabled c Cc_run = (started c = [])"
| "cc_enabled c Cc_stop = True"
| "cc_enabled c (Cc_send msg) = True"
| "cc_enabled c (Cc_connect_done e) = (Connect_op \<in> set (pending c))"
| "cc_enabled c (Cc_handshake_done e) = (Handshake_op \<in> set (pending c))"
| "cc_enabled c (Cc_read_done e at bytes) = (Read_op \<in> set (pending c))"
| "cc_enabled c (Cc_write_done e m) = (Write_op m \<in> set (pending c))"
| "cc_enabled c (Cc_close_done e) = (Close_op (going_away, []) \<in> set (pending c))"

abbreviation cc_reachable :: "chat_connection \<Rightarrow> bool" where
  "cc_reachable \<equiv> reachable cc_enabled cc_step cc_fresh"

lemma cc_construct_ok: "cc_construct e = Inr c \<longleftrightarrow> e = None \<and> c = cc_fresh"
  by (cases e) (auto simp: cc_construct_def cc_fresh_def)

lemma cc_ledger_frame [simp]:
  "cc_rxbuffer (initiate x c) = cc_rxbuffer c" "cc_rxbuffer (settle x c) = cc_rxbuffer c" "cc_rxbuffer (perform x c) = cc_rxbuffer c"
  "cc_tx_queue (initiate x c) = cc_tx_queue c" "cc_tx_queue (settle x c) = cc_tx_queue c" "cc_tx_queue (perform x c) = cc_tx_queue c"
  "cc_ec (initiate x c) = cc_ec c" "cc_ec (settle x c) = cc_ec c" "cc_ec (perform x c) = cc_ec c"
  "cc_state (initiate x c) = cc_state c" "cc_state (settle x c) = cc_state c" "cc_state (perform x c) = cc_state c"
  "cc_sending_state (initiate x c) = cc_sending_state c" "cc_sending_state (settle x c) = cc_sending_state c"
  "cc_sending_state (perform x c) = cc_sending_state c"
  by (simp_all add: initiate_def settle_def perform_def)

section \<open>Invariant\<close>

definition cc_send_pre :: "chat_connection \<Rightarrow> bool" where
  "cc_send_pre c \<longleftrightarrow>
     (if cc_sending_state c = Sending
      then cc_tx_queue c \<noteq> [] \<and> cc_state c = cc_chatting \<and>
           (writes (pending c) = [] \<or> writes (pending c) = [hd (cc_tx_queue c)])
      else writes (pending c) = [])"

definition cc_idle_inv :: "chat_connection \<Rightarrow> bool" where
  "cc_idle_inv c \<longleftrightarrow> (cc_sending_state c = Send_idle \<and> cc_state c = cc_chatting \<and> cc_ec c = None \<longrightarrow> cc_tx_queue c = [])"

abbreviation cc_count :: "chat_connection \<Rightarrow> nat" where
  "cc_count c \<equiv> count_list (pending c) Connect_op + count_list (pending c) Handshake_op + count_list (pending c) Read_op"

definition cc_state_inv :: "chat_connection \<Rightarrow> bool" where
  "cc_state_inv c \<longleftrightarrow> cc_count c \<le> 1 \<and>
     (0 < count_list (pending c) Connect_op + count_list (pending c) Handshake_op \<longrightarrow> cc_state c = cc_handshaking) \<and>
     (0 < count_list (pending c) Read_op \<longrightarrow> cc_state c = cc_chatting) \<and>
     (started c = [] \<longrightarrow> pending c = [] \<and> cc_state c = cc_handshaking)"

definition cc_inv :: "chat_connection \<Rightarrow> bool" where
  "cc_inv c \<longleftrightarrow> cc_send_pre c \<and> cc_idle_inv c \<and> cc_state_inv c"

lemmas cc_inv_defs = cc_inv_def cc_send_pre_def cc_idle_inv_def cc_state_inv_def

lemma cc_inv_fresh: "cc_inv cc_fresh"
  by (simp add: cc_inv_defs cc_fresh_def)

lemma cc_maybe_send_next_cases:
  obtains (none) "cc_maybe_send_next c = Inr c"
      "cc_ec c \<noteq> None \<or> cc_state c \<noteq> cc_chatting \<or> cc_sending_state c = Sending \<or> cc_tx_queue c = []"
    | (starts) "cc_maybe_send_next c = Inr (initiate (Write_op (hd (cc_tx_queue c))) (c\<lparr>cc_sending_state := Sending\<rparr>))"
        "cc_ec c = None" "cc_state c = cc_chatting" "cc_sending_state c = Send_idle" "cc_tx_queue c \<noteq> []"
proof (cases "cc_ec c \<noteq> None \<or> cc_state c \<noteq> cc_chatting \<or> cc_sending_state c = Sending \<or> cc_tx_queue c = []")
  case True
  then show ?thesis using none by (simp add: cc_maybe_send_next_def)
next
  case False
  moreover from this have "cc_sending_state c = Send_idle" by (cases "cc_sending_state c") auto
  ultimately show ?thesis using starts by (simp add: cc_maybe_send_next_def cc_initiate_tx_def)
qed

lemma cc_maybe_send_next_inv:
  assumes "cc_send_pre c" "cc_state_inv c"
  shows "\<exists>d. cc_maybe_send_next c = Inr d \<and> cc_inv d"
proof (cases rule: cc_maybe_send_next_cases [of c])
  case none
  with assms show ?thesis by (auto simp: cc_inv_def cc_idle_inv_def)
next
  case starts
  with assms show ?thesis by (auto simp: cc_inv_defs)
qed

lemma cc_send_inv:
  assumes "cc_inv c"
  shows "\<exists>d. cc_send m c = Inr d \<and> cc_inv d"
  unfolding cc_send_def
  by (rule cc_maybe_send_next_inv) (use assms in \<open>auto simp: cc_inv_defs split: if_splits\<close>)

lemma cc_settle_inv:
  assumes "cc_inv c"
  shows "cc_inv (settle x c)"
proof -
  have "writes (remove1 x (pending c)) \<in> {writes (pending c), remove1 (hd (cc_tx_queue c)) (writes (pending c)), []}"
    using assms by (cases x) (auto simp: writes_remove1_Write cc_inv_def cc_send_pre_def split: if_splits)
  then have "cc_send_pre (settle x c)" using assms by (auto simp: cc_inv_def cc_send_pre_def split: if_splits)
  moreover have "cc_state_inv (settle x c)"
    using assms by (auto simp: cc_inv_def cc_state_inv_def count_list_remove1 simp del: count_list_pos)
  moreover have "cc_idle_inv (settle x c)" using assms by (simp add: cc_inv_def cc_idle_inv_def)
  ultimately show ?thesis by (simp add: cc_inv_def)
qed

lemma cc_rxbuffer_inv [simp]: "cc_inv (c\<lparr>cc_rxbuffer := b\<rparr>) = cc_inv c"
  by (simp add: cc_inv_defs)

text \<open>What a read does, stopped or not.\<close>

lemma cc_handle_rx_ok:
  assumes "cc_inv c" "Read_op \<in> set (pending c)"
  shows "if e = None \<and> at \<noteq> None then cc_step c (Cc_read_done e at bytes) = Inl (System_error (the at))
    else if e = None \<and> cc_ec c \<noteq> None then cc_step c (Cc_read_done e at bytes) = Inl (Assertion ''!ec_'')
    else \<exists>d. cc_step c (Cc_read_done e at bytes) = Inr d \<and> cc_inv d"
proof -
  have "0 < count_list (pending c) Read_op" using assms(2) by simp
  then have st: "cc_state c = cc_chatting" and one: "count_list (pending c) Read_op = 1"
      "count_list (pending c) Connect_op = 0" "count_list (pending c) Handshake_op = 0" "started c \<noteq> []"
    using assms(1) by (auto simp: cc_inv_def cc_state_inv_def simp del: count_list_pos)
  let ?c = "(settle Read_op c)\<lparr>cc_rxbuffer := []\<rparr>"
  have inv: "cc_inv ?c" using cc_settle_inv [OF assms(1)] by simp
  have "cc_inv (initiate Read_op ?c)" if "cc_ec c = None"
    using assms(1) one st that by (auto simp: cc_inv_defs count_list_remove1 simp del: count_list_pos split: if_splits)
  with cc_send_inv [of "initiate Read_op ?c"] show ?thesis
    using st inv by (auto simp: cc_handle_rx_def cc_initiate_rx_def)
qed

lemma cc_handle_handshake_ok:
  assumes "cc_inv c" "Handshake_op \<in> set (pending c)"
  shows "\<exists>d. cc_step c (Cc_handshake_done e) = Inr d \<and> cc_inv d"
proof -
  have "0 < count_list (pending c) Handshake_op" using assms(2) by simp
  then have one: "count_list (pending c) Read_op = 0" "count_list (pending c) Connect_op = 0"
      "count_list (pending c) Handshake_op = 1" "started c \<noteq> []" and st: "cc_state c = cc_handshaking"
    using assms(1) by (auto simp: cc_inv_def cc_state_inv_def simp del: count_list_pos)
  have inv: "cc_inv (settle Handshake_op c)" using assms(1) by (rule cc_settle_inv)
  let ?d = "initiate Read_op ((settle Handshake_op c)\<lparr>cc_state := cc_chatting\<rparr>)"
  have "cc_send_pre ?d" "cc_state_inv ?d"
    using inv one st by (auto simp: cc_inv_defs count_list_remove1 split: if_splits)
  from cc_maybe_send_next_inv [OF this] inv show ?thesis
    by (auto simp: cc_handle_handshake_def cc_initiate_rx_def)
qed

lemma cc_handle_tx_ok:
  assumes "cc_inv c" "Write_op m \<in> set (pending c)"
  shows "\<exists>d. cc_step c (Cc_write_done e m) = Inr d \<and> cc_inv d"
proof -
  have q: "cc_sending_state c = Sending" "writes (pending c) = [m]" "cc_tx_queue c \<noteq> []"
    using assms by (auto simp: cc_inv_def cc_send_pre_def split: if_splits)
  then obtain x ms where ms: "cc_tx_queue c = x # ms" by (cases "cc_tx_queue c") auto
  have inv: "cc_inv (settle (Write_op m) c)" using assms(1) by (rule cc_settle_inv)
  let ?d = "(settle (Write_op m) c)\<lparr>cc_tx_queue := ms, cc_sending_state := Send_idle\<rparr>"
  have "cc_send_pre ?d" using q(2) by (simp add: cc_send_pre_def writes_remove1_Write)
  moreover have "cc_state_inv ?d" using inv by (simp add: cc_inv_def cc_state_inv_def)
  ultimately show ?thesis
    using cc_maybe_send_next_inv [of ?d] inv by (auto simp: cc_handle_tx_def ms)
qed

lemma cc_handle_connect_inv:
  assumes "cc_inv c" "Connect_op \<in> set (pending c)"
  shows "cc_inv (cc_handle_connect e (settle Connect_op c))"
proof -
  have "0 < count_list (pending c) Connect_op" using assms(2) by simp
  then have one: "count_list (pending c) Read_op = 0" "count_list (pending c) Handshake_op = 0"
      "count_list (pending c) Connect_op = 1" "started c \<noteq> []" and st: "cc_state c = cc_handshaking"
    using assms(1) by (auto simp: cc_inv_def cc_state_inv_def simp del: count_list_pos)
  have "cc_inv (initiate Handshake_op (settle Connect_op c))"
    using assms(1) one st by (auto simp: cc_inv_defs count_list_remove1 simp del: count_list_pos split: if_splits)
  with cc_settle_inv [OF assms(1)] show ?thesis
    by (simp add: cc_handle_connect_def cc_initiate_handshake_def)
qed

lemma cc_step_ok:
  assumes "cc_inv c" "cc_enabled c e"
  shows "if \<exists>at bytes. e = Cc_read_done None at bytes \<and> (at \<noteq> None \<or> cc_ec c \<noteq> None) then \<exists>x. cc_step c e = Inl x
    else \<exists>d. cc_step c e = Inr d \<and> cc_inv d"
proof (cases e)
  case (Cc_read_done x at bytes)
  with assms cc_handle_rx_ok [OF assms(1), of x at bytes] show ?thesis by (auto split: if_splits)
next
  case Cc_run
  with assms show ?thesis by (auto simp: cc_handle_run_def cc_inv_defs)
next
  case Cc_stop
  with assms show ?thesis by (auto simp: cc_handle_stop_def cc_inv_defs Let_def)
next
  case (Cc_send m)
  with assms cc_send_inv show ?thesis by simp
next
  case (Cc_connect_done x)
  with assms cc_handle_connect_inv show ?thesis by simp
next
  case (Cc_handshake_done x)
  with assms cc_handle_handshake_ok show ?thesis by simp
next
  case (Cc_write_done x m)
  with assms cc_handle_tx_ok show ?thesis by simp
next
  case (Cc_close_done x)
  with assms cc_settle_inv show ?thesis by simp
qed

lemma cc_reachable_inv: "cc_reachable c \<Longrightarrow> cc_inv c"
proof (induction rule: reachable_invariant)
  case start
  show ?case by (rule cc_inv_fresh)
next
  case (step c e d)
  then show ?case using cc_step_ok [of c e] by (auto split: if_splits)
qed

section \<open>Flow of messages\<close>

definition cc_written :: "chat_connection \<Rightarrow> string list" where
  "cc_written c = writes (started c)"

definition cc_in_flight :: "chat_connection \<Rightarrow> string list" where
  "cc_in_flight c = writes (pending c)"

definition cc_backlog :: "chat_connection \<Rightarrow> string list" where
  "cc_backlog c = (if cc_sending_state c = Sending then tl (cc_tx_queue c) else cc_tx_queue c)"

definition cc_ready :: "chat_connection \<Rightarrow> bool" where
  "cc_ready c \<longleftrightarrow> cc_ec c = None \<and> cc_state c = cc_chatting \<and> cc_sending_state c = Send_idle"

fun cc_accepted :: "chat_connection \<Rightarrow> cc_event \<Rightarrow> string list" where
  "cc_accepted c (Cc_send msg) = [msg]"
| "cc_accepted c (Cc_read_done None None bytes) = [cc_rxbuffer c @ bytes]"
| "cc_accepted c _ = []"

abbreviation cc_flow :: "chat_connection \<Rightarrow> string list" where
  "cc_flow c \<equiv> cc_written c @ cc_backlog c"

lemmas cc_flow_defs = cc_written_def cc_backlog_def

lemma cc_flow_frame [simp]:
  "cc_flow (settle x c) = cc_flow c" "cc_flow (c\<lparr>cc_rxbuffer := b\<rparr>) = cc_flow c"
  "cc_flow (c\<lparr>cc_state := st\<rparr>) = cc_flow c" "cc_flow (c\<lparr>cc_ec := e\<rparr>) = cc_flow c"
  "cc_flow (initiate Read_op c) = cc_flow c" "cc_flow (initiate Connect_op c) = cc_flow c"
  "cc_flow (initiate Handshake_op c) = cc_flow c" "cc_flow (initiate (Close_op r) c) = cc_flow c"
  "cc_flow (perform Cancel_socket c) = cc_flow c"
  by (simp_all add: cc_flow_defs)

lemma cc_flow_maybe_send_next: "cc_maybe_send_next c = Inr d \<Longrightarrow> cc_flow d = cc_flow c"
  by (cases rule: cc_maybe_send_next_cases [of c]) (auto simp: cc_flow_defs)

lemma cc_flow_send:
  "cc_send m c = Inr d \<Longrightarrow> cc_sending_state c = Sending \<longrightarrow> cc_tx_queue c \<noteq> [] \<Longrightarrow> cc_flow d = cc_flow c @ [m]"
  unfolding cc_send_def by (drule cc_flow_maybe_send_next) (auto simp: cc_flow_defs)

lemma cc_sending_queue: "cc_inv c \<Longrightarrow> cc_sending_state c = Sending \<longrightarrow> cc_tx_queue c \<noteq> []"
  by (auto simp: cc_inv_def cc_send_pre_def split: if_splits)

lemma cc_flow_step:
  assumes "cc_inv c" "cc_enabled c e" "cc_step c e = Inr d"
  shows "cc_flow d = cc_flow c @ cc_accepted c e"
proof (cases e)
  case (Cc_send m)
  then show ?thesis using assms(3) cc_flow_send cc_sending_queue [OF assms(1)] by simp
next
  case (Cc_read_done x at bs)
  then show ?thesis using assms(3) cc_sending_queue [OF assms(1)]
    by (cases x; cases at) (auto simp: cc_handle_rx_def and_then_Inr cc_initiate_rx_def dest!: cc_flow_send)
next
  case (Cc_write_done x m)
  then have "cc_sending_state c = Sending"
    using assms(1,2) by (auto simp: cc_inv_def cc_send_pre_def split: if_splits)
  with Cc_write_done show ?thesis using assms(3)
    by (auto simp: cc_handle_tx_def cc_flow_defs split: list.splits if_splits dest!: cc_flow_maybe_send_next)
next
  case (Cc_handshake_done x)
  then show ?thesis using assms(3)
    by (auto simp: cc_handle_handshake_def and_then_Inr cc_initiate_rx_def split: if_splits dest!: cc_flow_maybe_send_next)
qed (use assms(3) in \<open>auto simp: cc_handle_run_def cc_handle_stop_def cc_handle_connect_def cc_initiate_handshake_def Let_def\<close>)

interpretation cc: prompt_send_region
  cc_enabled cc_step cc_fresh cc_written cc_in_flight cc_backlog cc_accepted cc_ready
proof unfold_locales
  show "cc_written cc_fresh = [] \<and> cc_backlog cc_fresh = []"
    by (simp add: cc_flow_defs cc_fresh_def)
  show "cc_flow t = cc_written s @ cc_backlog s @ cc_accepted s e"
    if "cc_reachable s" "cc_enabled s e" "cc_step s e = Inr t" for s e t
    using cc_flow_step [OF cc_reachable_inv] that by simp
  show "length (cc_in_flight s) \<le> 1" if "cc_reachable s" for s
    using cc_reachable_inv [OF that] by (auto simp: cc_inv_def cc_send_pre_def cc_in_flight_def split: if_splits)
  show "cc_backlog s = []" if "cc_reachable s" "cc_ready s" for s
    using cc_reachable_inv [OF that(1)] that(2) by (auto simp: cc_inv_def cc_idle_inv_def cc_ready_def cc_backlog_def)
qed

section \<open>Properties\<close>

text \<open>
  When a handler of the client connection fails: exactly when a read completes successfully and
  the local endpoint cannot be had, which throws, or the connection was stopped before;
  \<open>handle_rx\<close> then trips \<^verbatim>\<open>assert(!ec_)\<close>.
\<close>

theorem cc_faults_exactly:
  assumes "cc_reachable c" "cc_enabled c e"
  shows "(\<exists>x. cc_step c e = Inl x) \<longleftrightarrow>
    (\<exists>at bytes. e = Cc_read_done None at bytes \<and> (at \<noteq> None \<or> cc_ec c \<noteq> None))"
  using cc_step_ok [OF cc_reachable_inv [OF assms(1)] assms(2)]
  by (metis Inl_Inr_False)

theorem cc_faults_exactly_witness:
  "\<exists>c. run cc_enabled cc_step cc_fresh [Cc_run, Cc_connect_done None, Cc_handshake_done None, Cc_stop] = Some c \<and>
     (\<exists>x. cc_step c (Cc_read_done None None ''hi'') = Inl x)"
proof -
  obtain c where r: "run cc_enabled cc_step cc_fresh [Cc_run, Cc_connect_done None, Cc_handshake_done None, Cc_stop] = Some c"
    and e: "cc_enabled c (Cc_read_done None None ''hi'')" "cc_ec c \<noteq> None"
    by (simp add: cc_defs)
  from cc_faults_exactly [OF run_reachable [OF r] e(1)] e(2) r show ?thesis by blast
qed

text \<open>
  The client echoes in order: over every run the messages written are a prefix of those sent
  or received, and all of them while the connection is chatting and idle.
\<close>

theorem cc_messages_in_order:
  assumes "run cc_enabled cc_step cc_fresh es = Some c"
  shows "prefix (cc_written c) (taken cc_step cc_accepted cc_fresh es) \<and>
    (cc_ready c \<longrightarrow> cc_written c = taken cc_step cc_accepted cc_fresh es)"
  using cc.written_prefix [OF assms] cc.ready_all_written [OF assms] by blast

theorem cc_messages_in_order_witness:
  "\<exists>c. run cc_enabled cc_step cc_fresh
      [Cc_run, Cc_connect_done None, Cc_handshake_done None, Cc_read_done None None ''hi'', Cc_write_done None ''hi''] = Some c \<and>
     cc_ready c \<and> cc_written c = taken cc_step cc_accepted cc_fresh
      [Cc_run, Cc_connect_done None, Cc_handshake_done None, Cc_read_done None None ''hi'', Cc_write_done None ''hi'']"
proof -
  let ?es = "[Cc_run, Cc_connect_done None, Cc_handshake_done None, Cc_read_done None None ''hi'', Cc_write_done None ''hi'']"
  obtain c where r: "run cc_enabled cc_step cc_fresh ?es = Some c" and i: "cc_ready c"
    by (simp add: cc_defs cc_ready_def Let_def)
  from cc_messages_in_order [OF r] i r show ?thesis by blast
qed

text \<open>
  A stop that crosses the connection being made does not prevent the handshake:
  \<open>handle_connect\<close> does not look at \<^verbatim>\<open>ec_\<close>, so a connect that had already completed when
  \<open>stop\<close> ran starts a handshake nobody cancels. Nothing follows it: when it completes, the
  connection starts no further operation.
\<close>

theorem cc_stop_crossing_connect:
  assumes "cc_reachable c" "Connect_op \<in> set (pending c)" "cc_ec c \<noteq> None"
  shows "\<exists>d. cc_step c (Cc_connect_done None) = Inr d \<and> started d = started c @ [Handshake_op] \<and>
    (\<forall>e f. cc_step d (Cc_handshake_done e) = Inr f \<longrightarrow> started f = started d)"
  using assms(3) by (simp add: cc_handle_connect_def cc_initiate_handshake_def cc_handle_handshake_def)

theorem cc_stop_crossing_connect_witness:
  "\<exists>c d. run cc_enabled cc_step cc_fresh [Cc_run, Cc_stop] = Some c \<and> cc_step c (Cc_connect_done None) = Inr d \<and>
     started d = [Connect_op, Cancel_socket, Handshake_op]"
proof -
  obtain c where r: "run cc_enabled cc_step cc_fresh [Cc_run, Cc_stop] = Some c"
    and c: "Connect_op \<in> set (pending c)" "cc_ec c \<noteq> None" "started c = [Connect_op, Cancel_socket]"
    by (simp add: cc_defs)
  from cc_stop_crossing_connect [OF run_reachable [OF r] c(1,2)] c(3) r show ?thesis by auto
qed

end
