(* ===== verification/Echo_Server.thy ===== *)
theory Echo_Server
  imports Echo_Connection "HOL-Library.AList"
begin

text \<open>
  \<^verbatim>\<open>pre-cxx20/echo_server/server.hpp\<close>, \<^verbatim>\<open>server.cpp\<close>, \<^verbatim>\<open>app.hpp\<close> and
  \<^verbatim>\<open>app.cpp\<close>: the acceptor that creates sessions, and the application that stops it on
  a signal. The objects live on one \<^verbatim>\<open>io_context\<close> run by one thread, so a
  \<^verbatim>\<open>dispatch\<close> made from a handler runs its function at once. The server's state holds
  the heap of the sessions it created; a session is alive as long as one of its operations is
  pending, since every completion handler owns a \<^verbatim>\<open>shared_ptr\<close> to it.
\<close>

section \<open>The server\<close>

text \<open>A remote endpoint: the address as \<^verbatim>\<open>to_string\<close> prints it, and the port.\<close>

type_synonym endpoint = "string \<times> nat"

datatype acceptor_op = Async_accept | Cancel_acceptor

record server = "acceptor_op io" +
  srv_connections :: "(endpoint \<times> nat) list"
  srv_ec :: error_code
  srv_sessions :: "(endpoint \<times> echo_connection) list"

text \<open>
  Construction: \<open>e\<close> is the first error of opening, configuring, binding and listening, each of
  which throws.
\<close>

definition srv_construct :: "error_code \<Rightarrow> server result" where
  "srv_construct e = (case e of
      Some x \<Rightarrow> Inl (System_error x)
    | None \<Rightarrow> Inr \<lparr>pending = [], started = [], srv_connections = [], srv_ec = None, srv_sessions = []\<rparr>)"

definition srv_initiate_accept :: "server \<Rightarrow> server" where
  "srv_initiate_accept s = initiate Async_accept s"

definition srv_handle_run :: "server \<Rightarrow> server" where
  "srv_handle_run s = srv_initiate_accept (s\<lparr>srv_ec := None\<rparr>)"

text \<open>An event on session \<open>i\<close>: a call of its public functions or a completion.\<close>

definition srv_on_session :: "nat \<Rightarrow> echo_event \<Rightarrow> server \<Rightarrow> server result" where
  "srv_on_session i e s =
     (if i < length (srv_sessions s) then
        (case srv_sessions s ! i of (ep, c) \<Rightarrow>
          and_then (echo_step c e) (\<lambda>d. Inr (s\<lparr>srv_sessions := (srv_sessions s)[i := (ep, d)]\<rparr>)))
      else Inl (Undefined ''no such session''))"

fun srv_on_session_all :: "nat \<Rightarrow> echo_event list \<Rightarrow> server \<Rightarrow> server result" where
  "srv_on_session_all i [] s = Inr s"
| "srv_on_session_all i (e # es) s = and_then (srv_on_session i e s) (srv_on_session_all i es)"

definition srv_welcome :: "nat \<Rightarrow> endpoint \<Rightarrow> string list" where
  "srv_welcome visitors ep =
     [''Welcome to my websocket server!'' @ newline,
      ''You are visitor number '' @ to_string visitors @ newline,
      ''You connected from '' @ fst ep @ '':'' @ to_string (snd ep) @ newline,
      ''Be good!'' @ newline]"

text \<open>
  \<open>sock\<close> is what \<^verbatim>\<open>sock.remote_endpoint()\<close> gives: it throws when the peer has already
  disconnected.
\<close>

definition srv_handle_accept :: "error_code \<Rightarrow> error + endpoint \<Rightarrow> server \<Rightarrow> server result" where
  "srv_handle_accept e sock s =
     (if srv_ec s \<noteq> None then Inr s
      else if e = Some connection_aborted then Inr (srv_initiate_accept s)
      else if e = Some operation_aborted then Inr s
      else if e \<noteq> None then Inr s
      else
        let s1 = srv_initiate_accept s in
        case sock of
          Inl x \<Rightarrow> Inl (System_error x)
        | Inr ep \<Rightarrow>
            let conn = length (srv_sessions s1);
                s2 = s1\<lparr>srv_connections := AList.update ep conn (srv_connections s1),
                        srv_sessions := srv_sessions s1 @ [(ep, echo_construct)]\<rparr>
            in srv_on_session_all conn
                 (Echo_run # map Echo_send (srv_welcome (length (srv_connections s2)) ep)) s2)"

text \<open>\<^verbatim>\<open>weak_conn.lock()\<close> succeeds exactly when an operation of the session is pending.\<close>

fun srv_stop_all :: "(endpoint \<times> nat) list \<Rightarrow> server \<Rightarrow> server result" where
  "srv_stop_all [] s = Inr s"
| "srv_stop_all ((ep, i) # cs) s =
     and_then (if pending (snd (srv_sessions s ! i)) \<noteq> [] then srv_on_session i Echo_stop s else Inr s)
       (srv_stop_all cs)"

definition srv_handle_stop :: "server \<Rightarrow> server result" where
  "srv_handle_stop s =
     (let s1 = perform Cancel_acceptor (s\<lparr>srv_ec := Some operation_aborted\<rparr>)
      in and_then (srv_stop_all (srv_connections s1) s1) (\<lambda>s2. Inr (s2\<lparr>srv_connections := []\<rparr>)))"

lemmas srv_defs [model_defs] =
  srv_construct_def srv_initiate_accept_def srv_handle_run_def srv_on_session_def newline_def
  srv_welcome_def srv_handle_accept_def srv_handle_stop_def

section \<open>The application\<close>

text \<open>
  \<open>app_signal_waits\<close> counts the outstanding \<^verbatim>\<open>async_wait\<close>s on the signal set for
  \<^verbatim>\<open>SIGINT\<close> and \<^verbatim>\<open>SIGHUP\<close>.
\<close>

record echo_app =
  app_signal_waits :: nat
  app_server :: server

definition app_construct :: "error_code \<Rightarrow> echo_app result" where
  "app_construct e = and_then (srv_construct e) (\<lambda>s. Inr \<lparr>app_signal_waits = 0, app_server = s\<rparr>)"

definition app_handle_run :: "echo_app \<Rightarrow> echo_app" where
  "app_handle_run a = a\<lparr>app_signal_waits := Suc (app_signal_waits a), app_server := srv_handle_run (app_server a)\<rparr>"

definition app_handle_signal :: "error_code \<Rightarrow> echo_app \<Rightarrow> echo_app result" where
  "app_handle_signal e a =
     (if e = None then and_then (srv_handle_stop (app_server a)) (\<lambda>s. Inr (a\<lparr>app_server := s\<rparr>)) else Inr a)"

datatype app_event =
    App_run
  | App_signal error_code
  | App_accept_done error_code "error + endpoint"
  | App_session nat echo_event

fun app_step :: "echo_app \<Rightarrow> app_event \<Rightarrow> echo_app result" where
  "app_step a App_run = Inr (app_handle_run a)"
| "app_step a (App_signal e) = app_handle_signal e (a\<lparr>app_signal_waits := app_signal_waits a - 1\<rparr>)"
| "app_step a (App_accept_done e sock) =
     and_then (srv_handle_accept e sock (settle Async_accept (app_server a))) (\<lambda>s. Inr (a\<lparr>app_server := s\<rparr>))"
| "app_step a (App_session i e) =
     and_then (srv_on_session i e (app_server a)) (\<lambda>s. Inr (a\<lparr>app_server := s\<rparr>))"

text \<open>Completions of a session's own operations, as opposed to calls the server makes.\<close>

fun completion :: "echo_event \<Rightarrow> bool" where
  "completion Echo_run = False"
| "completion Echo_stop = False"
| "completion (Echo_send m) = False"
| "completion _ = True"

fun app_enabled :: "echo_app \<Rightarrow> app_event \<Rightarrow> bool" where
  "app_enabled a App_run = (started (app_server a) = [])"
| "app_enabled a (App_signal e) = (0 < app_signal_waits a)"
| "app_enabled a (App_accept_done e sock) = (Async_accept \<in> set (pending (app_server a)))"
| "app_enabled a (App_session i e) =
     (i < length (srv_sessions (app_server a)) \<and> completion e \<and>
      echo_enabled (snd (srv_sessions (app_server a) ! i)) e)"

definition app_start :: echo_app where
  "app_start = \<lparr>app_signal_waits = 0, app_server =
     \<lparr>pending = [], started = [], srv_connections = [], srv_ec = None, srv_sessions = []\<rparr>\<rparr>"

lemma app_construct_ok: "app_construct e = Inr a \<longleftrightarrow> e = None \<and> a = app_start"
  by (cases e) (auto simp: app_construct_def srv_construct_def app_start_def)

lemmas app_defs [model_defs] = app_construct_def app_handle_run_def app_handle_signal_def app_start_def

abbreviation app_reachable :: "echo_app \<Rightarrow> bool" where
  "app_reachable \<equiv> reachable app_enabled app_step app_start"

section \<open>A new session\<close>

text \<open>The state of a session right after the server created it, ran it and sent \<open>ms\<close>.\<close>

definition echo_greeted :: "string list \<Rightarrow> echo_connection" where
  "echo_greeted ms = \<lparr>pending = [Accept_op, Wait_op 5], started = [Accept_op, Wait_op 5],
     echo_time_remaining = 25, echo_rxbuffer = [], echo_tx_queue = ms, echo_ec = None,
     echo_state = Handshaking, echo_sending_state = Send_idle\<rparr>"

lemma echo_run_greeted: "echo_step echo_construct Echo_run = Inr (echo_greeted [])"
  by (simp add: echo_defs echo_greeted_def initiate_def)

lemma echo_send_greeted [simp]: "echo_step (echo_greeted ms) (Echo_send m) = Inr (echo_greeted (ms @ [m]))"
  by (simp add: echo_defs echo_greeted_def)

lemma echo_greeted_reachable: "echo_reachable (echo_greeted ms)"
proof (induction ms rule: rev_induct)
  case Nil
  show ?case
    by (rule reachable_step [where s = echo_construct and e = Echo_run])
      (rule reachable_start, simp add: echo_construct_def, rule echo_run_greeted)
next
  case (snoc m ms)
  then show ?case by (rule reachable_step [where e = "Echo_send m"]) (simp, rule echo_send_greeted)
qed

lemma srv_on_session_last:
  assumes "echo_step c e = Inr d"
  shows "srv_on_session (length ss) e (s\<lparr>srv_sessions := ss @ [(ep, c)]\<rparr>) = Inr (s\<lparr>srv_sessions := ss @ [(ep, d)]\<rparr>)"
  using assms by (simp add: srv_on_session_def)

lemma srv_send_all_greeted:
  "srv_on_session_all (length ss) (map Echo_send ms) (s\<lparr>srv_sessions := ss @ [(ep, echo_greeted ks)]\<rparr>) =
     Inr (s\<lparr>srv_sessions := ss @ [(ep, echo_greeted (ks @ ms))]\<rparr>)"
  by (induction ms arbitrary: ks) (simp_all add: srv_on_session_last [OF echo_send_greeted])

lemma srv_greet:
  "srv_on_session_all (length ss) (Echo_run # map Echo_send ms) (s\<lparr>srv_sessions := ss @ [(ep, echo_construct)]\<rparr>) =
     Inr (s\<lparr>srv_sessions := ss @ [(ep, echo_greeted ms)]\<rparr>)"
  by (simp add: srv_on_session_last [OF echo_run_greeted] srv_send_all_greeted)

text \<open>The successful branch of \<open>srv_handle_accept\<close>, in one step.\<close>

lemma srv_handle_accept_success:
  assumes "srv_ec s = None"
  shows "srv_handle_accept None (Inr ep) s =
    (let cs = AList.update ep (length (srv_sessions s)) (srv_connections s) in
     Inr ((srv_initiate_accept s)\<lparr>srv_connections := cs,
       srv_sessions := srv_sessions s @ [(ep, echo_greeted (srv_welcome (length cs) ep))]\<rparr>))"
  using assms srv_greet [where s = "(srv_initiate_accept s)\<lparr>srv_connections :=
      AList.update ep (length (srv_sessions s)) (srv_connections s)\<rparr>" and ss = "srv_sessions s"]
  by (simp add: srv_handle_accept_def Let_def srv_initiate_accept_def initiate_def
      del: srv_on_session_all.simps)

section \<open>Invariant\<close>

text \<open>
  Every session is in a state its own handlers can reach, and the messages it was given start
  with the four lines of welcome.
\<close>

definition srv_session_ok :: "nat \<Rightarrow> endpoint \<times> echo_connection \<Rightarrow> bool" where
  "srv_session_ok i p \<longleftrightarrow> echo_reachable (snd p) \<and> started (snd p) \<noteq> [] \<and>
     (\<exists>n rest. 1 \<le> n \<and> n \<le> Suc i \<and> echo_flow (snd p) = srv_welcome n (fst p) @ rest)"

text \<open>
  The map of connections: as long as the server runs, each endpoint seen is mapped to the last
  session accepted from it; a stopped server has an empty map.
\<close>

definition srv_map_ok :: "server \<Rightarrow> bool" where
  "srv_map_ok s \<longleftrightarrow> distinct (map fst (srv_connections s)) \<and>
     (\<forall>(ep, i) \<in> set (srv_connections s). i < length (srv_sessions s) \<and> fst (srv_sessions s ! i) = ep) \<and>
     (srv_ec s = None \<longrightarrow> (\<forall>i < length (srv_sessions s).
        \<exists>j \<ge> i. (fst (srv_sessions s ! i), j) \<in> set (srv_connections s))) \<and>
     (srv_ec s \<noteq> None \<longrightarrow> srv_connections s = [])"

definition srv_inv :: "server \<Rightarrow> bool" where
  "srv_inv s \<longleftrightarrow>
     (\<forall>i < length (srv_sessions s). srv_session_ok i (srv_sessions s ! i)) \<and> srv_map_ok s \<and>
     count_list (pending s) Async_accept \<le> 1 \<and>
     (started s = [] \<longrightarrow> srv_sessions s = [] \<and> pending s = [] \<and> srv_ec s = None)"

lemma srv_ledger_frame [simp]:
  "srv_connections (initiate x s) = srv_connections s"
  "srv_ec (initiate x s) = srv_ec s"
  "srv_sessions (initiate x s) = srv_sessions s"
  "srv_connections (settle x s) = srv_connections s"
  "srv_ec (settle x s) = srv_ec s"
  "srv_sessions (settle x s) = srv_sessions s"
  "srv_connections (perform x s) = srv_connections s"
  "srv_ec (perform x s) = srv_ec s"
  "srv_sessions (perform x s) = srv_sessions s"
  by (simp_all add: initiate_def settle_def perform_def)

lemma srv_session_ok_step:
  assumes "srv_session_ok i (ep, c)" "echo_enabled c e" "echo_step c e = Inr d"
  shows "srv_session_ok i (ep, d)"
proof -
  have r: "echo_reachable c" and st: "started c \<noteq> []"
    and "\<exists>n rest. 1 \<le> n \<and> n \<le> Suc i \<and> echo_flow c = srv_welcome n ep @ rest"
    using assms(1) by (simp_all add: srv_session_ok_def)
  then obtain n rest where n: "1 \<le> n" "n \<le> Suc i" and f: "echo_flow c = srv_welcome n ep @ rest" by blast
  have "echo_reachable d" using reachable_step [OF r assms(2,3)] .
  moreover have "echo_state_inv d"
    using echo_reachable_inv [OF \<open>echo_reachable d\<close>] by (simp add: echo_inv_def)
  moreover have "echo_flow d = srv_welcome n ep @ rest @ echo_accepted c e"
    using echo_flow_step [OF echo_reachable_inv [OF r] assms(2,3)] f by simp
  moreover have "started d \<noteq> []"
    using echo_started_mono [OF assms(3)] st by auto
  ultimately show ?thesis using n unfolding srv_session_ok_def by auto
qed

text \<open>A step of one session keeps the server's invariant.\<close>

lemma srv_on_sessionE:
  assumes "srv_on_session i e s = Inr t"
  obtains d where "i < length (srv_sessions s)" "echo_step (snd (srv_sessions s ! i)) e = Inr d"
    "t = s\<lparr>srv_sessions := (srv_sessions s)[i := (fst (srv_sessions s ! i), d)]\<rparr>"
  using assms by (auto simp: srv_on_session_def and_then_Inr split: if_splits prod.splits)

lemma srv_on_session_map_ok:
  assumes "srv_on_session i e s = Inr t"
  shows "srv_map_ok t = srv_map_ok s"
proof -
  obtain d where t: "i < length (srv_sessions s)"
    "t = s\<lparr>srv_sessions := (srv_sessions s)[i := (fst (srv_sessions s ! i), d)]\<rparr>"
    using srv_on_sessionE [OF assms] .
  have "fst ((srv_sessions s)[i := (fst (srv_sessions s ! i), d)] ! j) = fst (srv_sessions s ! j)" for j
    using t(1) by (cases "i = j") simp_all
  then show ?thesis by (simp add: t(2) srv_map_ok_def)
qed

lemma srv_on_session_inv:
  assumes "srv_on_session i e s = Inr t" "srv_inv s" "echo_enabled (snd (srv_sessions s ! i)) e"
  shows "srv_inv t"
proof -
  obtain d where t: "i < length (srv_sessions s)" "echo_step (snd (srv_sessions s ! i)) e = Inr d"
    "t = s\<lparr>srv_sessions := (srv_sessions s)[i := (fst (srv_sessions s ! i), d)]\<rparr>"
    using srv_on_sessionE [OF assms(1)] .
  have "srv_session_ok i (srv_sessions s ! i)"
    using assms(2) t(1) by (simp add: srv_inv_def)
  then have "srv_session_ok i (fst (srv_sessions s ! i), d)"
    using srv_session_ok_step [OF _ assms(3) t(2), of i "fst (srv_sessions s ! i)"] by simp
  moreover have "srv_map_ok t"
    using assms(2) srv_on_session_map_ok [OF assms(1)] by (simp add: srv_inv_def)
  ultimately show ?thesis
    using assms(2) t(1) by (auto simp: t(3) srv_inv_def nth_list_update)
qed

text \<open>
  What the loop of \<open>srv_handle_stop\<close> does, in one expression: exactly the sessions in the map
  that are still alive are stopped.
\<close>

definition srv_stopped_sessions :: "nat set \<Rightarrow> (endpoint \<times> echo_connection) list \<Rightarrow> (endpoint \<times> echo_connection) list" where
  "srv_stopped_sessions is ss = map (\<lambda>i. (fst (ss ! i),
     if i \<in> is \<and> pending (snd (ss ! i)) \<noteq> [] then echo_handle_stop (going_away, []) (snd (ss ! i))
     else snd (ss ! i))) [0..<length ss]"

lemma srv_stopped_sessions_nth [simp]:
  "length (srv_stopped_sessions is ss) = length ss"
  "i < length ss \<Longrightarrow> fst (srv_stopped_sessions is ss ! i) = fst (ss ! i)"
  "i < length ss \<Longrightarrow> snd (srv_stopped_sessions is ss ! i) =
     (if i \<in> is \<and> pending (snd (ss ! i)) \<noteq> [] then echo_handle_stop (going_away, []) (snd (ss ! i))
      else snd (ss ! i))"
  by (simp_all add: srv_stopped_sessions_def)

lemma srv_stopped_sessions_empty: "srv_stopped_sessions {} ss = ss"
  by (simp add: srv_stopped_sessions_def map_nth)

lemma srv_stopped_sessions_insert:
  assumes "i < length ss" "i \<notin> is"
  shows "srv_stopped_sessions is (if pending (snd (ss ! i)) \<noteq> []
      then ss[i := (fst (ss ! i), echo_handle_stop (going_away, []) (snd (ss ! i)))] else ss) =
    srv_stopped_sessions (insert i is) ss"
proof (rule nth_equalityI)
  fix j assume "j < length (srv_stopped_sessions is (if pending (snd (ss ! i)) \<noteq> []
      then ss[i := (fst (ss ! i), echo_handle_stop (going_away, []) (snd (ss ! i)))] else ss))"
  then have "j < length ss" by (simp split: if_splits)
  then show "srv_stopped_sessions is (if pending (snd (ss ! i)) \<noteq> []
      then ss[i := (fst (ss ! i), echo_handle_stop (going_away, []) (snd (ss ! i)))] else ss) ! j =
    srv_stopped_sessions (insert i is) ss ! j"
    using assms by (cases "i = j") (simp_all add: prod_eq_iff)
qed simp

lemma srv_stop_all_spec:
  "(\<And>ep i. (ep, i) \<in> set cs \<Longrightarrow> i < length (srv_sessions s)) \<Longrightarrow> distinct (map snd cs) \<Longrightarrow>
     srv_stop_all cs s = Inr (s\<lparr>srv_sessions := srv_stopped_sessions (snd ` set cs) (srv_sessions s)\<rparr>)"
proof (induction cs s rule: srv_stop_all.induct)
  case (1 s)
  then show ?case by (simp add: srv_stopped_sessions_empty)
next
  case (2 ep i cs s)
  have i: "i < length (srv_sessions s)" "i \<notin> snd ` set cs"
    using "2.prems"(1) [of ep i] "2.prems"(2) by auto
  let ?s = "s\<lparr>srv_sessions := if pending (snd (srv_sessions s ! i)) \<noteq> []
      then (srv_sessions s)[i := (fst (srv_sessions s ! i), echo_handle_stop (going_away, []) (snd (srv_sessions s ! i)))]
      else srv_sessions s\<rparr>"
  have step: "(if pending (snd (srv_sessions s ! i)) \<noteq> [] then srv_on_session i Echo_stop s else Inr s) = Inr ?s"
    using i(1) by (simp add: srv_on_session_def split: prod.splits)
  have "srv_stop_all cs ?s = Inr (?s\<lparr>srv_sessions := srv_stopped_sessions (snd ` set cs) (srv_sessions ?s)\<rparr>)"
    by (rule "2.IH") (use "2.prems" in \<open>auto split: if_splits\<close>)
  then show ?case
    using srv_stopped_sessions_insert [OF i] by (simp only: srv_stop_all.simps step and_then_simps) simp
qed

text \<open>Two endpoints of the map never share a session.\<close>

lemma srv_map_ok_ids:
  assumes "srv_map_ok s"
  shows "distinct (map snd (srv_connections s))"
    and "(ep, i) \<in> set (srv_connections s) \<Longrightarrow> i < length (srv_sessions s)"
proof -
  have ok: "\<And>ep i. (ep, i) \<in> set (srv_connections s) \<Longrightarrow> i < length (srv_sessions s) \<and> fst (srv_sessions s ! i) = ep"
    using assms by (auto simp: srv_map_ok_def)
  then show "(ep, i) \<in> set (srv_connections s) \<Longrightarrow> i < length (srv_sessions s)" by blast
  have "distinct (map fst (srv_connections s))" using assms by (simp add: srv_map_ok_def)
  moreover have "inj_on snd (set (srv_connections s))"
    using ok by (metis (mono_tags, lifting) inj_onI prod.collapse)
  ultimately show "distinct (map snd (srv_connections s))"
    by (simp add: distinct_map)
qed

definition srv_stopped :: "server \<Rightarrow> server" where
  "srv_stopped s = (perform Cancel_acceptor s)\<lparr>srv_ec := Some operation_aborted, srv_connections := [],
     srv_sessions := srv_stopped_sessions (snd ` set (srv_connections s)) (srv_sessions s)\<rparr>"

lemma srv_handle_stop_spec:
  assumes "srv_map_ok s"
  shows "srv_handle_stop s = Inr (srv_stopped s)"
proof -
  let ?s = "perform Cancel_acceptor (s\<lparr>srv_ec := Some operation_aborted\<rparr>)"
  have "srv_stop_all (srv_connections s) ?s =
      Inr (?s\<lparr>srv_sessions := srv_stopped_sessions (snd ` set (srv_connections s)) (srv_sessions s)\<rparr>)"
    using srv_stop_all_spec [of "srv_connections s" ?s] srv_map_ok_ids [OF assms] by simp
  then show ?thesis
    by (simp add: srv_handle_stop_def srv_stopped_def Let_def perform_def)
qed

lemma srv_stopped_inv:
  assumes "srv_inv s"
  shows "srv_inv (srv_stopped s)"
proof -
  have "srv_session_ok i (srv_stopped_sessions is (srv_sessions s) ! i)" if "i < length (srv_sessions s)" for i "is"
  proof -
    have ok: "srv_session_ok i (fst (srv_sessions s ! i), snd (srv_sessions s ! i))"
      using assms that by (simp add: srv_inv_def)
    have "srv_session_ok i (fst (srv_sessions s ! i), echo_handle_stop (going_away, []) (snd (srv_sessions s ! i)))"
      by (rule srv_session_ok_step [OF ok, where e = Echo_stop]) simp_all
    with ok that show ?thesis by (simp add: srv_stopped_sessions_def)
  qed
  then show ?thesis
    using assms by (auto simp: srv_stopped_def srv_inv_def srv_map_ok_def)
qed

lemma srv_greeted_ok: "1 \<le> n \<Longrightarrow> n \<le> Suc i \<Longrightarrow> srv_session_ok i (ep, echo_greeted (srv_welcome n ep))"
  unfolding srv_session_ok_def using echo_greeted_reachable
  by (auto simp: echo_flow_defs echo_greeted_def intro!: exI [of _ n])

lemma AList_update_mem:
  assumes "distinct (map fst al)"
  shows "(k', v') \<in> set (AList.update k v al) \<longleftrightarrow> (if k' = k then v' = v else (k', v') \<in> set al)"
  unfolding map_of_eq_Some_iff [OF assms, symmetric] map_of_eq_Some_iff [OF distinct_update [OF assms], symmetric]
  by (auto simp: AList.update_conv')

lemma srv_accept_map_ok:
  assumes "srv_map_ok s" "srv_ec s = None" "srv_ec t = None"
    "srv_sessions t = srv_sessions s @ [(ep, c)]"
    "srv_connections t = AList.update ep (length (srv_sessions s)) (srv_connections s)"
  shows "srv_map_ok t"
proof -
  let ?n = "length (srv_sessions s)"
  have d: "distinct (map fst (srv_connections s))"
    and ids: "\<And>ep i. (ep, i) \<in> set (srv_connections s) \<Longrightarrow> i < ?n \<and> fst (srv_sessions s ! i) = ep"
    and cover: "\<And>i. i < ?n \<Longrightarrow> \<exists>j \<ge> i. (fst (srv_sessions s ! i), j) \<in> set (srv_connections s)"
    using assms(1,2) by (auto simp: srv_map_ok_def)
  have mem: "(ep', i) \<in> set (srv_connections t) \<longleftrightarrow> (if ep' = ep then i = ?n else (ep', i) \<in> set (srv_connections s))" for ep' i
    unfolding assms(5) using AList_update_mem [OF d] .
  have "i < length (srv_sessions t) \<and> fst (srv_sessions t ! i) = ep'" if "(ep', i) \<in> set (srv_connections t)" for ep' i
    using that ids [of ep' i] by (cases "ep' = ep") (auto simp: mem assms(4) nth_append)
  moreover have "\<exists>j \<ge> i. (fst (srv_sessions t ! i), j) \<in> set (srv_connections t)" if "i < length (srv_sessions t)" for i
  proof (cases "i < ?n \<and> fst (srv_sessions s ! i) \<noteq> ep")
    case True
    then show ?thesis using cover [of i] by (auto simp: mem assms(4) nth_append)
  next
    case False
    then have "fst (srv_sessions t ! i) = ep" using that by (auto simp: assms(4) nth_append less_Suc_eq)
    then show ?thesis using that by (auto simp: mem assms(4) intro!: exI [of _ ?n])
  qed
  moreover have "distinct (map fst (srv_connections t))"
    unfolding assms(5) using d by (rule distinct_update)
  ultimately show ?thesis using assms(3) by (auto simp: srv_map_ok_def)
qed

lemma srv_map_ok_length: "srv_map_ok s \<Longrightarrow> length (srv_connections s) \<le> length (srv_sessions s)"
proof -
  assume ok: "srv_map_ok s"
  then have "set (map snd (srv_connections s)) \<subseteq> {..<length (srv_sessions s)}"
    using srv_map_ok_ids(2) by fastforce
  then have "card (set (map snd (srv_connections s))) \<le> length (srv_sessions s)"
    by (metis card_lessThan card_mono finite_lessThan)
  then show ?thesis using distinct_card [OF srv_map_ok_ids(1) [OF ok]] by simp
qed

lemma srv_handle_accept_cases:
  assumes "srv_handle_accept e sock s = Inr t"
  obtains (ignored) "t = s" | (again) "t = srv_initiate_accept s" "e = Some connection_aborted"
    | (accepted) ep where "srv_ec s = None" "e = None" "sock = Inr ep" "srv_handle_accept None (Inr ep) s = Inr t"
proof (cases "srv_ec s = None \<and> e = None")
  case True
  then show ?thesis using assms accepted by (cases sock) (simp_all add: srv_handle_accept_def)
next
  case False
  then show ?thesis using assms ignored again by (auto simp: srv_handle_accept_def split: if_splits)
qed

lemma srv_accept_inv:
  assumes "srv_handle_accept e sock (settle Async_accept s) = Inr t" "srv_inv s" "Async_accept \<in> set (pending s)"
  shows "srv_inv t"
proof -
  let ?s = "settle Async_accept s"
  have inv: "srv_inv ?s"
    using assms(2,3) by (auto simp: srv_inv_def srv_map_ok_def count_list_remove1)
  have none: "count_list (pending ?s) Async_accept = 0" "started s \<noteq> []"
    using assms(2,3) by (auto simp: srv_inv_def count_list_remove1)
  from assms(1) show ?thesis
  proof (cases rule: srv_handle_accept_cases)
    case ignored
    with inv show ?thesis by simp
  next
    case again
    with inv none show ?thesis by (auto simp: srv_initiate_accept_def srv_inv_def srv_map_ok_def)
  next
    case (accepted ep)
    let ?cs = "AList.update ep (length (srv_sessions s)) (srv_connections s)"
    have t: "t = (srv_initiate_accept ?s)\<lparr>srv_connections := ?cs,
       srv_sessions := srv_sessions s @ [(ep, echo_greeted (srv_welcome (length ?cs) ep))]\<rparr>"
      using accepted srv_handle_accept_success [of ?s ep] by (simp add: Let_def)
    have ok: "srv_map_ok t"
      by (rule srv_accept_map_ok [of s]) (use assms(2) accepted(1) in \<open>simp_all add: t srv_initiate_accept_def srv_inv_def\<close>)
    have "1 \<le> length ?cs" by (cases ?cs) (auto dest: arg_cong [of _ _ set])
    moreover have "length ?cs \<le> Suc (length (srv_sessions s))"
      using srv_map_ok_length [OF ok] by (simp add: t)
    ultimately have "srv_session_ok (length (srv_sessions s)) (ep, echo_greeted (srv_welcome (length ?cs) ep))"
      by (rule srv_greeted_ok)
    with ok assms(2) none show ?thesis
      by (auto simp: t srv_inv_def nth_append less_Suc_eq srv_initiate_accept_def)
  qed
qed

lemma app_inv_step:
  assumes "srv_inv (app_server a)" "app_enabled a e" "app_step a e = Inr b"
  shows "srv_inv (app_server b)"
proof (cases e)
  case App_run
  with assms have "srv_sessions (app_server a) = []" "pending (app_server a) = []" "srv_ec (app_server a) = None"
    "b = app_handle_run a" "srv_map_ok (app_server a)"
    by (auto simp: srv_inv_def)
  then show ?thesis
    by (simp add: app_handle_run_def srv_handle_run_def srv_initiate_accept_def srv_inv_def srv_map_ok_def)
next
  case (App_signal x)
  moreover have "srv_map_ok (app_server a)" using assms(1) by (simp add: srv_inv_def)
  ultimately show ?thesis
    using assms srv_stopped_inv by (auto simp: app_handle_signal_def srv_handle_stop_spec split: if_splits)
next
  case (App_accept_done x sock)
  then show ?thesis using assms srv_accept_inv by (auto simp: and_then_Inr)
next
  case (App_session i x)
  then show ?thesis using assms srv_on_session_inv by (auto simp: and_then_Inr)
qed

lemma app_reachable_inv: "app_reachable a \<Longrightarrow> srv_inv (app_server a)"
  by (induction rule: reachable_invariant)
    (simp add: app_start_def srv_inv_def srv_map_ok_def, blast intro: app_inv_step)

section \<open>Properties\<close>

lemma srv_session_reachable:
  "app_reachable a \<Longrightarrow> i < length (srv_sessions (app_server a)) \<Longrightarrow>
     echo_reachable (snd (srv_sessions (app_server a) ! i))"
  using app_reachable_inv [of a] by (simp add: srv_inv_def srv_session_ok_def)

lemma srv_handle_accept_fault:
  "(\<exists>x. srv_handle_accept e sock s = Inl x) \<longleftrightarrow> srv_ec s = None \<and> e = None \<and> (\<exists>x. sock = Inl x)"
proof (cases "srv_ec s = None \<and> e = None")
  case True
  then show ?thesis
    using srv_handle_accept_success [of s]
    by (cases sock) (simp_all add: Let_def, simp add: srv_handle_accept_def)
next
  case False
  then show ?thesis by (auto simp: srv_handle_accept_def)
qed

lemma srv_on_session_fault:
  "i < length (srv_sessions s) \<Longrightarrow>
     (\<exists>x. srv_on_session i e s = Inl x) \<longleftrightarrow> (\<exists>x. echo_step (snd (srv_sessions s ! i)) e = Inl x)"
  by (cases "srv_sessions s ! i") (auto simp: srv_on_session_def and_then_Inl)

text \<open>
  When the echo server's program ends in an exception or a failed assertion: exactly when a
  connection is accepted whose peer has disconnected before its address is asked for (the
  exception of \<^verbatim>\<open>remote_endpoint\<close> leaves \<^verbatim>\<open>io_context::run\<close>, "program bombed"), or when
  a session's read completes successfully after that session was stopped.
\<close>

theorem app_faults_exactly:
  assumes "app_reachable a" "app_enabled a e"
  shows "(\<exists>x. app_step a e = Inl x) \<longleftrightarrow>
    (\<exists>x. e = App_accept_done None (Inl x) \<and> srv_ec (app_server a) = None) \<or>
    (\<exists>i bytes. e = App_session i (Echo_read_done None bytes) \<and>
       echo_ec (snd (srv_sessions (app_server a) ! i)) \<noteq> None)"
proof (cases e)
  case (App_signal x)
  have "srv_map_ok (app_server a)" using app_reachable_inv [OF assms(1)] by (simp add: srv_inv_def)
  with App_signal show ?thesis by (simp add: app_handle_signal_def srv_handle_stop_spec)
next
  case (App_accept_done x sock)
  then show ?thesis
    using srv_handle_accept_fault [of x sock "settle Async_accept (app_server a)"]
    by (auto simp: and_then_Inl)
next
  case (App_session i x)
  then have "i < length (srv_sessions (app_server a))" "echo_enabled (snd (srv_sessions (app_server a) ! i)) x"
    using assms(2) by simp_all
  with App_session show ?thesis
    using srv_on_session_fault [of i "app_server a" x]
      echo_fault_iff [OF srv_session_reachable [OF assms(1)], of i x]
    by (auto simp: and_then_Inl)
qed simp

theorem app_faults_exactly_witness:
  "\<exists>a. run app_enabled app_step app_start [App_run] = Some a \<and>
     (\<exists>x. app_step a (App_accept_done None (Inl connection_aborted)) = Inl x)"
proof -
  obtain a where r: "run app_enabled app_step app_start [App_run] = Some a"
    and e: "app_enabled a (App_accept_done None (Inl connection_aborted))" "srv_ec (app_server a) = None"
    by (simp add: app_defs srv_defs)
  from app_faults_exactly [OF run_reachable [OF r] e(1)] e(2) r show ?thesis by blast
qed

text \<open>
  Every session is greeted first: whatever happens later, the messages a session hands to
  \<^verbatim>\<open>async_write\<close> begin with the four lines of welcome (as far as they were written), the
  visitor number in them being between one and the number of sessions accepted so far.
\<close>

theorem app_welcome_first:
  assumes "app_reachable a" "i < length (srv_sessions (app_server a))"
    "srv_sessions (app_server a) ! i = (ep, c)"
  shows "\<exists>n. 1 \<le> n \<and> n \<le> Suc i \<and>
    (prefix (echo_written c) (srv_welcome n ep) \<or> prefix (srv_welcome n ep) (echo_written c))"
proof -
  have "srv_session_ok i (ep, c)"
    using app_reachable_inv [OF assms(1)] assms(2,3) by (metis srv_inv_def)
  then obtain n rest where "1 \<le> n" "n \<le> Suc i" "echo_flow c = srv_welcome n ep @ rest"
    by (auto simp: srv_session_ok_def)
  then show ?thesis by (metis prefixI prefix_same_cases)
qed

theorem app_welcome_first_witness:
  "\<exists>a c. run app_enabled app_step app_start
       [App_run, App_accept_done None (Inr (''::1'', 99)), App_session 0 (Echo_accept_done None)] = Some a \<and>
     srv_sessions (app_server a) = [((''::1'', 99), c)] \<and> length (echo_written c) = 1 \<and>
     prefix (echo_written c) (srv_welcome 1 (''::1'', 99))"
proof -
  let ?es = "[App_run, App_accept_done None (Inr (''::1'', 99)), App_session 0 (Echo_accept_done None)]"
  obtain a c where r: "run app_enabled app_step app_start ?es = Some a"
    and s: "srv_sessions (app_server a) = [((''::1'', 99), c)]" and w: "length (echo_written c) = 1"
    by (simp add: app_defs srv_defs echo_defs echo_written_def)
  obtain n where n: "1 \<le> n" "n \<le> Suc 0"
    "prefix (echo_written c) (srv_welcome n (''::1'', 99)) \<or> prefix (srv_welcome n (''::1'', 99)) (echo_written c)"
    using app_welcome_first [OF run_reachable [OF r], of 0 "(''::1'', 99)" c] s by auto
  moreover have "\<not> prefix (srv_welcome n (''::1'', 99)) (echo_written c)"
    using w by (auto simp: srv_welcome_def dest: prefix_length_le)
  ultimately have "prefix (echo_written c) (srv_welcome 1 (''::1'', 99))"
    using le_antisym by fastforce
  with r s w show ?thesis by blast
qed

text \<open>
  C35. A signal stops the server: it always succeeds, empties the map, and each session still
  alive is told to stop, except one whose peer address was taken over by a later session
  (the map keeps one session per endpoint). Sessions outside the map are left as they were.
\<close>

theorem app_signal_stops_sessions:
  assumes "app_reachable a" "app_enabled a (App_signal None)" "srv_ec (app_server a) = None"
  shows "\<exists>b. app_step a (App_signal None) = Inr b \<and> srv_ec (app_server b) \<noteq> None \<and>
    srv_connections (app_server b) = [] \<and>
    length (srv_sessions (app_server b)) = length (srv_sessions (app_server a)) \<and>
    (\<forall>i < length (srv_sessions (app_server a)).
       let (ep, c) = srv_sessions (app_server a) ! i; d = snd (srv_sessions (app_server b) ! i) in
       if pending c = [] then d = c
       else if \<exists>j < length (srv_sessions (app_server a)). i < j \<and> fst (srv_sessions (app_server a) ! j) = ep then d = c
       else d = echo_handle_stop (going_away, []) c)"
proof -
  let ?s = "app_server a"
  let ?b = "a\<lparr>app_signal_waits := app_signal_waits a - 1, app_server := srv_stopped ?s\<rparr>"
  have ok: "srv_map_ok ?s" using app_reachable_inv [OF assms(1)] by (simp add: srv_inv_def)
  then have step: "app_step a (App_signal None) = Inr ?b"
    by (simp add: app_handle_signal_def srv_handle_stop_spec)
  have ids: "\<And>ep i. (ep, i) \<in> set (srv_connections ?s) \<Longrightarrow> i < length (srv_sessions ?s) \<and> fst (srv_sessions ?s ! i) = ep"
    and d: "distinct (map fst (srv_connections ?s))"
    and cover: "\<And>i. i < length (srv_sessions ?s) \<Longrightarrow> \<exists>j \<ge> i. (fst (srv_sessions ?s ! i), j) \<in> set (srv_connections ?s)"
    using ok assms(3) by (auto simp: srv_map_ok_def)
  have mem: "i \<in> snd ` set (srv_connections ?s) \<longleftrightarrow>
      \<not> (\<exists>j < length (srv_sessions ?s). i < j \<and> fst (srv_sessions ?s ! j) = fst (srv_sessions ?s ! i))"
    if i: "i < length (srv_sessions ?s)" for i
  proof
    assume "i \<in> snd ` set (srv_connections ?s)"
    then obtain ep where e: "(ep, i) \<in> set (srv_connections ?s)" by force
    show "\<not> (\<exists>j < length (srv_sessions ?s). i < j \<and> fst (srv_sessions ?s ! j) = fst (srv_sessions ?s ! i))"
    proof
      assume "\<exists>j < length (srv_sessions ?s). i < j \<and> fst (srv_sessions ?s ! j) = fst (srv_sessions ?s ! i)"
      then obtain j k where j: "i < j" "j \<le> k" "(fst (srv_sessions ?s ! i), k) \<in> set (srv_connections ?s)"
        using cover by metis
      with e ids [OF e] d show False by (metis eq_key_imp_eq_value leD)
    qed
  next
    assume last: "\<not> (\<exists>j < length (srv_sessions ?s). i < j \<and> fst (srv_sessions ?s ! j) = fst (srv_sessions ?s ! i))"
    obtain k where k: "i \<le> k" "(fst (srv_sessions ?s ! i), k) \<in> set (srv_connections ?s)" using cover [OF i] by blast
    with last ids [OF k(2)] have "k = i" by (metis le_neq_implies_less)
    with k(2) show "i \<in> snd ` set (srv_connections ?s)" by force
  qed
  show ?thesis
    by (intro exI [of _ ?b] conjI step) (auto simp: srv_stopped_def Let_def mem split: prod.splits if_splits)
qed

theorem app_signal_stops_sessions_witness:
  "\<exists>a b. run app_enabled app_step app_start [App_run, App_accept_done None (Inr (''::1'', 99))] = Some a \<and>
     app_step a (App_signal None) = Inr b \<and> echo_ec (snd (srv_sessions (app_server b) ! 0)) = Some operation_aborted"
proof -
  let ?es = "[App_run, App_accept_done None (Inr (''::1'', 99))]"
  obtain a where r: "run app_enabled app_step app_start ?es = Some a"
    and e: "app_enabled a (App_signal None)" "srv_ec (app_server a) = None"
    and s: "srv_sessions (app_server a) = [((''::1'', 99), echo_greeted (srv_welcome 1 (''::1'', 99)))]"
    by (simp add: app_defs srv_initiate_accept_def srv_handle_run_def srv_handle_accept_success)
  from app_signal_stops_sessions [OF run_reachable [OF r] e] obtain b
    where b: "app_step a (App_signal None) = Inr b"
      "snd (srv_sessions (app_server b) ! 0) = echo_handle_stop (going_away, []) (echo_greeted (srv_welcome 1 (''::1'', 99)))"
    by (auto simp: s echo_greeted_def)
  have "echo_ec (snd (srv_sessions (app_server b) ! 0)) = Some operation_aborted"
    by (simp add: b(2) echo_greeted_def echo_handle_stop_def)
  with r b(1) show ?thesis by blast
qed

lemma app_stopped_step:
  assumes "srv_inv (app_server a)" "srv_ec (app_server a) \<noteq> None" "app_enabled a e" "app_step a e = Inr b"
  shows "srv_ec (app_server b) \<noteq> None \<and>
    count_list (started (app_server b)) Async_accept = count_list (started (app_server a)) Async_accept \<and>
    map fst (srv_sessions (app_server b)) = map fst (srv_sessions (app_server a)) \<and>
    app_signal_waits b \<le> app_signal_waits a"
proof (cases e)
  case App_run
  with assms show ?thesis by (simp add: srv_inv_def)
next
  case (App_signal x)
  moreover have "srv_map_ok (app_server a)" using assms(1) by (simp add: srv_inv_def)
  ultimately show ?thesis
    using assms by (auto simp: app_handle_signal_def srv_handle_stop_spec srv_stopped_def srv_stopped_sessions_def
      comp_def map_nth [of "map fst _", simplified] split: if_splits intro!: nth_equalityI)
next
  case (App_accept_done x sock)
  then show ?thesis using assms by (auto simp: srv_handle_accept_def)
next
  case (App_session i x)
  then show ?thesis
    using assms by (auto simp: and_then_Inr map_update list_update_same_conv elim!: srv_on_sessionE)
qed

text \<open>
  Stopping the server is final: after a signal, whatever happens next, no accept is started,
  no session is created and no signal is waited for again.
\<close>

theorem app_stop_is_final:
  assumes "app_reachable a" "srv_ec (app_server a) \<noteq> None" "run app_enabled app_step a es = Some b"
  shows "srv_ec (app_server b) \<noteq> None \<and>
    count_list (started (app_server b)) Async_accept = count_list (started (app_server a)) Async_accept \<and>
    map fst (srv_sessions (app_server b)) = map fst (srv_sessions (app_server a)) \<and>
    app_signal_waits b \<le> app_signal_waits a"
  using assms(3,1,2)
proof (induction rule: run_induct)
  case (Cons a e es c)
  from app_stopped_step [OF app_reachable_inv [OF Cons.prems(1)] Cons.prems(2) Cons.hyps(1,2)]
    Cons.IH [OF reachable_step [OF Cons.prems(1) Cons.hyps(1,2)]] show ?case by simp
qed simp

theorem app_stop_is_final_witness:
  "\<exists>a b. run app_enabled app_step app_start [App_run, App_signal None] = Some a \<and>
     run app_enabled app_step a [App_accept_done None (Inr (''::1'', 99))] = Some b \<and>
     count_list (started (app_server b)) Async_accept = 1"
proof -
  let ?es = "[App_run, App_signal None]"
  obtain a where r: "run app_enabled app_step app_start ?es = Some a"
    and e: "srv_ec (app_server a) \<noteq> None" "count_list (started (app_server a)) Async_accept = 1"
      "\<exists>b. run app_enabled app_step a [App_accept_done None (Inr (''::1'', 99))] = Some b"
    by (simp add: app_defs srv_defs)
  then obtain b where b: "run app_enabled app_step a [App_accept_done None (Inr (''::1'', 99))] = Some b" by blast
  from app_stop_is_final [OF run_reachable [OF r] e(1) b] e(2) r b show ?thesis by auto
qed

end
