(* ===== verification/Chatterbox.thy ===== *)
theory Chatterbox
  imports Chat_Connection Echo_Server
begin

text \<open>
  \<^verbatim>\<open>pre-cxx20/chatterbox\<close>: the connection pool (\<^verbatim>\<open>connection_pool.hpp\<close>,
  \<^verbatim>\<open>connection_pool.cpp\<close>), the console reader (\<^verbatim>\<open>console.hpp\<close>) and the
  application that connects them (\<^verbatim>\<open>app.hpp\<close>, \<^verbatim>\<open>app.cpp\<close>).
\<close>

section \<open>The connection pool\<close>

record connection_pool = "ws_op io" +
  cp_connections :: "(endpoint \<times> nat) list"
  cp_sessions :: "chat_connection list"
  cp_ec :: error_code

definition cp_construct :: connection_pool where
  "cp_construct = \<lparr>pending = [], started = [], cp_connections = [], cp_sessions = [], cp_ec = None\<rparr>"

text \<open>
  \<open>sock\<close>: the error of opening or binding the new socket or of asking for its local endpoint, each
  of which throws, or that endpoint.
\<close>

definition cp_another_connection :: "error + endpoint \<Rightarrow> connection_pool \<Rightarrow> connection_pool result" where
  "cp_another_connection sock p = (case sock of
      Inl x \<Rightarrow> and_then (cc_construct (Some x)) (\<lambda>_. Inr p)
    | Inr ep \<Rightarrow> and_then (cc_construct None) (\<lambda>con.
        let i = length (cp_sessions p) in
        Inr (p\<lparr>cp_sessions := cp_sessions p @ [cc_handle_run con],
               cp_connections := AList.update ep i (cp_connections p)\<rparr>)))"

definition cp_handle_run :: "error + endpoint \<Rightarrow> connection_pool \<Rightarrow> connection_pool result" where
  "cp_handle_run sock p = cp_another_connection sock (p\<lparr>cp_ec := None\<rparr>)"

definition cp_initiate_timer :: "connection_pool \<Rightarrow> connection_pool" where
  "cp_initiate_timer p =
     (if cp_ec p = None \<and> length (cp_connections p) < 100 then initiate (Wait_op 1) p else p)"

definition cp_handle_timer :: "error_code \<Rightarrow> error + endpoint \<Rightarrow> connection_pool \<Rightarrow> connection_pool result" where
  "cp_handle_timer e sock p =
     (if cp_ec p \<noteq> None then Inr p
      else if e = Some operation_aborted then Inr p
      else if e \<noteq> None then Inr p
      else cp_another_connection sock p)"

text \<open>The loop over the map: each connection still alive is stopped.\<close>

definition cp_stop_one :: "endpoint \<times> nat \<Rightarrow> connection_pool \<Rightarrow> connection_pool" where
  "cp_stop_one entry p =
     (let i = snd entry; c = cp_sessions p ! i in
      if i < length (cp_sessions p) \<and> pending c \<noteq> [] then p\<lparr>cp_sessions := (cp_sessions p)[i := cc_handle_stop c]\<rparr> else p)"

definition cp_handle_stop :: "connection_pool \<Rightarrow> connection_pool" where
  "cp_handle_stop p =
     (let p1 = perform Cancel_wait (p\<lparr>cp_ec := Some operation_aborted\<rparr>)
      in (fold cp_stop_one (cp_connections p1) p1)\<lparr>cp_connections := []\<rparr>)"

definition cp_on_session :: "nat \<Rightarrow> cc_event \<Rightarrow> connection_pool \<Rightarrow> connection_pool result" where
  "cp_on_session i e p =
     and_then (cc_step (cp_sessions p ! i) e) (\<lambda>c. Inr (p\<lparr>cp_sessions := (cp_sessions p)[i := c]\<rparr>))"

lemmas cp_defs [model_defs] =
  cp_construct_def cp_another_connection_def cp_handle_run_def cp_initiate_timer_def cp_handle_timer_def
  cp_stop_one_def cp_handle_stop_def cp_on_session_def

datatype cp_event =
    Cp_run "error + endpoint"
  | Cp_stop
  | Cp_timer_done error_code "error + endpoint"
  | Cp_session nat cc_event

fun cp_step :: "connection_pool \<Rightarrow> cp_event \<Rightarrow> connection_pool result" where
  "cp_step p (Cp_run sock) = cp_handle_run sock p"
| "cp_step p Cp_stop = Inr (cp_handle_stop p)"
| "cp_step p (Cp_timer_done e sock) = cp_handle_timer e sock (settle (Wait_op 1) p)"
| "cp_step p (Cp_session i e) = cp_on_session i e p"

text \<open>Completions of a connection's own operations.\<close>

fun cc_completion :: "cc_event \<Rightarrow> bool" where
  "cc_completion Cc_run = False"
| "cc_completion Cc_stop = False"
| "cc_completion (Cc_send m) = False"
| "cc_completion _ = True"

fun cp_enabled :: "connection_pool \<Rightarrow> cp_event \<Rightarrow> bool" where
  "cp_enabled p (Cp_run sock) = (cp_sessions p = [])"
| "cp_enabled p Cp_stop = True"
| "cp_enabled p (Cp_timer_done e sock) = (Wait_op 1 \<in> set (pending p))"
| "cp_enabled p (Cp_session i e) =
     (i < length (cp_sessions p) \<and> cc_completion e \<and> cc_enabled (cp_sessions p ! i) e)"

abbreviation cp_reachable :: "connection_pool \<Rightarrow> bool" where
  "cp_reachable \<equiv> reachable cp_enabled cp_step cp_construct"

lemma cp_ledger_frame [simp]:
  "cp_connections (perform x p) = cp_connections p" "cp_sessions (perform x p) = cp_sessions p" "cp_ec (perform x p) = cp_ec p"
  "cp_connections (settle x p) = cp_connections p" "cp_sessions (settle x p) = cp_sessions p" "cp_ec (settle x p) = cp_ec p"
  by (simp_all add: perform_def settle_def)

lemma cp_stop_fold_frame:
  "pending (fold cp_stop_one cs p) = pending p \<and> started (fold cp_stop_one cs p) = started p \<and>
   cp_ec (fold cp_stop_one cs p) = cp_ec p \<and> length (cp_sessions (fold cp_stop_one cs p)) = length (cp_sessions p)"
  by (induction cs arbitrary: p) (simp_all add: cp_stop_one_def Let_def)

text \<open>The pool holds at most one connection, found in the map under session 0.\<close>

definition cp_inv :: "connection_pool \<Rightarrow> bool" where
  "cp_inv p \<longleftrightarrow> pending p = [] \<and> waits (started p) = [] \<and>
     (case cp_sessions p of
        [] \<Rightarrow> cp_connections p = []
      | [c] \<Rightarrow> cc_reachable c \<and>
          (if cp_ec p = None then \<exists>ep. cp_connections p = [(ep, 0)]
           else cp_connections p = [] \<and> (pending c \<noteq> [] \<longrightarrow> cc_ec c \<noteq> None))
      | _ \<Rightarrow> False)"

lemma cc_run_reachable: "cc_reachable (cc_handle_run cc_fresh)"
  by (rule reachable_step [where s = cc_fresh and e = Cc_run])
    (rule reachable_start, simp_all add: cc_fresh_def)

lemma cc_stopped_step:
  "cc_step c e = Inr d \<Longrightarrow> cc_ec c \<noteq> None \<Longrightarrow> cc_ec d \<noteq> None"
  by (cases e)
    (auto simp: cc_handle_run_def cc_handle_stop_def cc_send_def cc_handle_connect_def cc_initiate_handshake_def
      cc_handle_handshake_def cc_handle_rx_def cc_handle_tx_def cc_maybe_send_next_def cc_initiate_rx_def and_then_Inr Let_def
      split: if_splits list.splits)

lemma cp_inv_stop:
  assumes "cp_inv p"
  shows "cp_inv (cp_handle_stop p)"
proof (cases "cp_sessions p")
  case Nil
  with assms show ?thesis by (simp add: cp_inv_def cp_handle_stop_def)
next
  case (Cons c cs)
  then have cs: "cs = []" "cc_reachable c" using assms by (auto simp: cp_inv_def split: list.splits)
  have stopped: "cc_reachable (cc_handle_stop c)" "cc_ec (cc_handle_stop c) \<noteq> None"
    using reachable_step [OF cs(2), of Cc_stop "cc_handle_stop c"] by (simp_all add: cc_handle_stop_def Let_def)
  show ?thesis
    using assms Cons cs stopped
    by (auto simp: cp_inv_def cp_handle_stop_def cp_stop_one_def Let_def split: if_splits)
qed

lemma cp_inv_step:
  assumes "cp_inv p" "cp_enabled p e" "cp_step p e = Inr q"
  shows "cp_inv q"
proof (cases e)
  case (Cp_run sock)
  then obtain ep where "sock = Inr ep" using assms(3)
    by (cases sock) (auto simp: cp_handle_run_def cp_another_connection_def cc_construct_def)
  then have "q = p\<lparr>cp_ec := None, cp_sessions := [cc_handle_run cc_fresh], cp_connections := [(ep, 0)]\<rparr>"
    using assms Cp_run by (auto simp: cp_inv_def cp_handle_run_def cp_another_connection_def cc_construct_def cc_fresh_def)
  then show ?thesis using assms(1) cc_run_reachable by (simp add: cp_inv_def)
next
  case Cp_stop
  with assms cp_inv_stop show ?thesis by auto
next
  case (Cp_timer_done x sock)
  with assms show ?thesis by (simp add: cp_inv_def)
next
  case (Cp_session i x)
  with assms obtain c where c: "cp_sessions p = [c]" "i = 0" "cc_reachable c" "cc_enabled c x"
    by (cases "cp_sessions p") (auto simp: cp_inv_def split: list.splits)
  then obtain d where d: "cc_step c x = Inr d" "q = p\<lparr>cp_sessions := [d]\<rparr>"
    using assms(3) Cp_session by (auto simp: cp_on_session_def and_then_Inr)
  have "cc_reachable d" using c(3,4) d(1) by (rule reachable_step)
  moreover have "pending c \<noteq> []" using c(4) assms(2) Cp_session by (cases x) auto
  ultimately show ?thesis
    using assms(1) c(1) d cc_stopped_step [OF d(1)] by (auto simp: cp_inv_def split: if_splits)
qed

lemma cp_reachable_inv: "cp_reachable p \<Longrightarrow> cp_inv p"
  by (induction rule: reachable_invariant)
    (simp add: cp_inv_def cp_construct_def, blast intro: cp_inv_step)

text \<open>
  The pool never grows: although it is written to open up to a hundred connections, one per
  second, nothing calls \<open>initiate_timer\<close>; the timer is never started and at most one connection
  is ever made.
\<close>

theorem cp_single_connection:
  assumes "cp_reachable p"
  shows "length (cp_sessions p) \<le> 1 \<and> waits (started p) = [] \<and> \<not> cp_enabled p (Cp_timer_done e sock)"
  using cp_reachable_inv [OF assms] by (auto simp: cp_inv_def split: list.splits)

theorem cp_single_connection_witness:
  "\<exists>p. run cp_enabled cp_step cp_construct [Cp_run (Inr (''127.0.0.1'', 5000)), Cp_session 0 (Cc_connect_done None)] = Some p \<and>
     length (cp_sessions p) \<le> 1 \<and> \<not> cp_enabled p (Cp_timer_done None (Inr (''127.0.0.1'', 5001)))"
proof -
  let ?es = "[Cp_run (Inr (''127.0.0.1'', 5000)), Cp_session 0 (Cc_connect_done None)]"
  obtain p where r: "run cp_enabled cp_step cp_construct ?es = Some p"
    by (simp add: cp_defs cc_defs)
  from cp_single_connection [OF run_reachable [OF r]] r show ?thesis by blast
qed

text \<open>
  Stopping the pool stops its connection: after \<open>stop\<close> the map is empty, and from then on a
  connection that has an operation outstanding has been stopped, whatever completes later.
\<close>

theorem cp_stop_stops_connection:
  assumes "cp_reachable p" "run cp_enabled cp_step (cp_handle_stop p) es = Some q" "\<forall>sock. Cp_run sock \<notin> set es"
    "c \<in> set (cp_sessions q)" "pending c \<noteq> []"
  shows "cc_ec c \<noteq> None"
proof -
  have r: "cp_reachable (cp_handle_stop p)"
    using reachable_step [OF assms(1), of Cp_stop "cp_handle_stop p"] by simp
  have "cp_ec (cp_handle_stop p) \<noteq> None" using cp_stop_fold_frame by (simp add: cp_handle_stop_def)
  with assms(2) have "cp_ec q \<noteq> None"
  proof (rule run_keeps)
    fix u e w assume "e \<in> set es" "cp_step u e = Inr w" "cp_ec u \<noteq> None"
    with assms(3) cp_stop_fold_frame show "cp_ec w \<noteq> None"
      by (cases e) (auto simp: cp_handle_stop_def cp_handle_timer_def cp_on_session_def and_then_Inr Let_def)
  qed
  with cp_reachable_inv [OF run_reachable_from [OF r assms(2)]] assms(4,5) show ?thesis
    by (auto simp: cp_inv_def split: list.splits)
qed

theorem cp_stop_stops_connection_witness:
  "\<exists>p q. run cp_enabled cp_step cp_construct [Cp_run (Inr (''127.0.0.1'', 5000))] = Some p \<and>
     run cp_enabled cp_step (cp_handle_stop p) [Cp_session 0 (Cc_connect_done None)] = Some q \<and>
     cc_ec (cp_sessions q ! 0) \<noteq> None"
proof -
  obtain p where r: "run cp_enabled cp_step cp_construct [Cp_run (Inr (''127.0.0.1'', 5000))] = Some p"
    and e: "\<exists>q. run cp_enabled cp_step (cp_handle_stop p) [Cp_session 0 (Cc_connect_done None)] = Some q \<and>
      length (cp_sessions q) = 1 \<and> pending (cp_sessions q ! 0) \<noteq> []"
    by (simp add: cp_defs cc_defs Let_def)
  then obtain q where q: "run cp_enabled cp_step (cp_handle_stop p) [Cp_session 0 (Cc_connect_done None)] = Some q"
    "length (cp_sessions q) = 1" "pending (cp_sessions q ! 0) \<noteq> []" by blast
  have "cp_sessions q ! 0 \<in> set (cp_sessions q)" using q(2) by simp
  from cp_stop_stops_connection [OF run_reachable [OF r] q(1) _ this q(3)] r q(1) show ?thesis by auto
qed

end
