(* ===== verification/Cxx20_Chat.thy ===== *)
theory Cxx20_Chat
  imports Tx_Channel Send_Region
begin

text \<open>
  \<^verbatim>\<open>cxx20/states.hpp\<close>, \<^verbatim>\<open>connection.hpp\<close> and \<^verbatim>\<open>connection.cpp\<close>: a session of the
  coroutine server. A session has up to three kinds of coroutines: \<^verbatim>\<open>run_state\<close> with the
  receive loop inside it, \<^verbatim>\<open>dequeue_send\<close>, which takes messages out of an asynchronous queue
  and writes them, and one \<^verbatim>\<open>notify_error\<close> for each call of \<open>stop\<close>. A coroutine is modelled by
  the point it is suspended at and one definition for each point it can be resumed from. All of
  them run on one thread, so the functions the queue dispatches run at once; a coroutine given to
  \<^verbatim>\<open>co_spawn\<close> begins in a handler of its own.
\<close>

section \<open>State\<close>

datatype cx_state_t = cx_initial | cx_handshaking | cx_chatting | cx_exit

datatype run_point = Run_new | Run_spawned | Run_accepting | Run_reading | Run_over

datatype tx_point = Tx_new | Tx_spawned | Tx_popping | Tx_writing | Tx_over

text \<open>What the completion handler of a coroutine prints.\<close>

datatype coro_outcome = Coro_done | Coro_graceful | Coro_error error

text \<open>
  \<open>cx_popped\<close> counts the posts of the queue the transmitting coroutine has been resumed with,
  \<open>cx_stops\<close> the \<open>stop\<close> coroutines that have not begun; \<open>cx_sent\<close> is the history of the messages
  given to \<open>send\<close>.
\<close>

record cx_connection = "ws_op io" +
  cx_ec :: error_code
  cx_state :: cx_state_t
  cx_rxbuffer :: string
  cx_txqueue :: "(unit, string) async_queue"
  cx_popped :: nat
  cx_run :: run_point
  cx_tx :: tx_point
  cx_stops :: nat
  cx_logs :: "(string \<times> coro_outcome) list"
  cx_sent :: "string list"

definition cx_construct :: cx_connection where
  "cx_construct = \<lparr>pending = [], started = [], cx_ec = None, cx_state = cx_initial, cx_rxbuffer = [],
     cx_txqueue = aq_construct, cx_popped = 0, cx_run = Run_new, cx_tx = Tx_new, cx_stops = 0,
     cx_logs = [], cx_sent = []\<rparr>"

section \<open>The completion handler of a coroutine\<close>

definition spawn_handler :: "string \<Rightarrow> error_code \<Rightarrow> cx_connection \<Rightarrow> cx_connection" where
  "spawn_handler ctx ep c =
     c\<lparr>cx_logs := cx_logs c @ [(ctx,
        case ep of
          None \<Rightarrow> Coro_done
        | Some e \<Rightarrow> if e \<noteq> operation_aborted \<and> e \<noteq> websocket_closed then Coro_error e else Coro_graceful)]\<rparr>"

section \<open>Public functions\<close>

definition cx_call_run :: "cx_connection \<Rightarrow> cx_connection" where
  "cx_call_run c = c\<lparr>cx_run := Run_spawned\<rparr>"

definition cx_stop :: "cx_connection \<Rightarrow> cx_connection" where
  "cx_stop c = c\<lparr>cx_stops := Suc (cx_stops c)\<rparr>"

definition cx_send :: "string \<Rightarrow> cx_connection \<Rightarrow> cx_connection" where
  "cx_send msg c = c\<lparr>cx_txqueue := aq_push True [] msg (cx_txqueue c), cx_sent := cx_sent c @ [msg]\<rparr>"

section \<open>\<^verbatim>\<open>run_state\<close> and \<^verbatim>\<open>websocket_rx_state\<close>\<close>

definition cx_run_begin :: "cx_connection \<Rightarrow> cx_connection result" where
  "cx_run_begin c =
     and_then (check (cx_state c = cx_initial) ''state.state == chat_state_base::initial_state'' c) (\<lambda>c.
       Inr (initiate Accept_op (c\<lparr>cx_state := cx_handshaking, cx_run := Run_accepting\<rparr>)))"

text \<open>An exception leaves \<^verbatim>\<open>run_state\<close> through \<^verbatim>\<open>catch(...)\<close>.\<close>

definition cx_run_throw :: "error \<Rightarrow> cx_connection \<Rightarrow> cx_connection" where
  "cx_run_throw e c = spawn_handler ''run'' (Some e) (c\<lparr>cx_state := cx_exit, cx_run := Run_over\<rparr>)"

definition cx_on_connect :: "cx_connection \<Rightarrow> cx_connection" where
  "cx_on_connect c = c\<lparr>cx_tx := Tx_spawned\<rparr>"

definition cx_rx_read :: "cx_connection \<Rightarrow> cx_connection" where
  "cx_rx_read c = initiate Read_op (c\<lparr>cx_run := Run_reading\<rparr>)"

definition cx_run_accepted :: "error_code \<Rightarrow> cx_connection \<Rightarrow> cx_connection" where
  "cx_run_accepted e c =
     (case e of
        Some x \<Rightarrow> cx_run_throw x c
      | None \<Rightarrow>
         (case cx_ec c of
            Some x \<Rightarrow> cx_run_throw x c
          | None \<Rightarrow> cx_rx_read (cx_on_connect (c\<lparr>cx_state := cx_chatting\<rparr>))))"

text \<open>
  The receive loop: a message goes to \<open>on_message\<close>, which sends it; a \<^verbatim>\<open>system_error\<close> is caught
  in \<^verbatim>\<open>websocket_rx_state\<close>, after which \<^verbatim>\<open>run_state\<close> ends normally.
\<close>

definition cx_rx_resume :: "error_code \<Rightarrow> cx_connection \<Rightarrow> cx_connection" where
  "cx_rx_resume e c =
     (if e \<noteq> None then spawn_handler ''run'' None (c\<lparr>cx_state := cx_exit, cx_run := Run_over\<rparr>)
      else let message = cx_rxbuffer c in
        cx_rx_read (cx_send message (c\<lparr>cx_rxbuffer := drop (length message) (cx_rxbuffer c)\<rparr>)))"

section \<open>\<^verbatim>\<open>dequeue_send\<close>\<close>

definition cx_tx_pop :: "cx_connection \<Rightarrow> cx_connection result" where
  "cx_tx_pop c =
     and_then (aq_async_pop True [] () (cx_txqueue c)) (\<lambda>q.
       Inr (c\<lparr>cx_txqueue := q, cx_tx := Tx_popping\<rparr>))"

definition cx_tx_throw :: "error \<Rightarrow> cx_connection \<Rightarrow> cx_connection" where
  "cx_tx_throw e c = spawn_handler ''tx_state'' (Some e) (c\<lparr>cx_tx := Tx_over\<rparr>)"

definition cx_tx_popped :: "error_code \<Rightarrow> string \<Rightarrow> cx_connection \<Rightarrow> cx_connection" where
  "cx_tx_popped e v c =
     (case e of
        Some x \<Rightarrow> cx_tx_throw x c
      | None \<Rightarrow> initiate (Write_op v) (c\<lparr>cx_tx := Tx_writing\<rparr>))"

definition cx_tx_written :: "error_code \<Rightarrow> cx_connection \<Rightarrow> cx_connection result" where
  "cx_tx_written e c = (case e of Some x \<Rightarrow> Inr (cx_tx_throw x c) | None \<Rightarrow> cx_tx_pop c)"

section \<open>\<^verbatim>\<open>notify_error\<close>\<close>

definition shutting_down :: close_reason where
  "shutting_down = (normal_closure, ''shutting down'')"

definition cx_txqueue_stop :: "cx_connection \<Rightarrow> cx_connection" where
  "cx_txqueue_stop c = c\<lparr>cx_txqueue := aq_stop True [] (cx_txqueue c)\<rparr>"

text \<open>Only the branch of a chatting session waits, for the closing handshake.\<close>

definition cx_notify_error :: "cx_connection \<Rightarrow> cx_connection" where
  "cx_notify_error c =
     (if cx_ec c \<noteq> None then spawn_handler ''stop'' None c
      else let c1 = c\<lparr>cx_ec := Some operation_aborted\<rparr> in
        case cx_state c1 of
          cx_initial \<Rightarrow> spawn_handler ''stop'' None c1
        | cx_handshaking \<Rightarrow> spawn_handler ''stop'' None (cx_txqueue_stop (perform Cancel_socket c1))
        | cx_chatting \<Rightarrow> initiate (Close_op shutting_down) (cx_txqueue_stop c1)
        | cx_exit \<Rightarrow> spawn_handler ''stop'' None c1)"

lemmas cx_defs [model_defs] =
  cx_construct_def spawn_handler_def cx_call_run_def cx_stop_def cx_send_def cx_run_begin_def
  cx_run_throw_def cx_on_connect_def cx_rx_read_def cx_run_accepted_def cx_rx_resume_def cx_tx_pop_def
  cx_tx_throw_def cx_tx_popped_def cx_tx_written_def cx_txqueue_stop_def cx_notify_error_def

section \<open>Events\<close>

text \<open>Calls of the public functions, coroutines that begin, and completions.\<close>

datatype cx_event =
    Cx_run
  | Cx_send string
  | Cx_stop
  | Cx_run_begin
  | Cx_tx_begin
  | Cx_stop_begin
  | Cx_accept_done error_code
  | Cx_read_done error_code string
  | Cx_pop_done
  | Cx_write_done error_code string
  | Cx_close_done error_code

fun cx_step :: "cx_connection \<Rightarrow> cx_event \<Rightarrow> cx_connection result" where
  "cx_step c Cx_run = Inr (cx_call_run c)"
| "cx_step c (Cx_send msg) = Inr (cx_send msg c)"
| "cx_step c Cx_stop = Inr (cx_stop c)"
| "cx_step c Cx_run_begin = cx_run_begin c"
| "cx_step c Cx_tx_begin = cx_tx_pop c"
| "cx_step c Cx_stop_begin = Inr (cx_notify_error (c\<lparr>cx_stops := cx_stops c - 1\<rparr>))"
| "cx_step c (Cx_accept_done e) = Inr (cx_run_accepted e (settle Accept_op c))"
| "cx_step c (Cx_read_done e bytes) =
     Inr (cx_rx_resume e ((settle Read_op c)\<lparr>cx_rxbuffer := cx_rxbuffer c @ bytes\<rparr>))"
| "cx_step c Cx_pop_done =
     (case aq_posts (cx_txqueue c) ! cx_popped c of (h, e, v) \<Rightarrow>
        Inr (cx_tx_popped e v (c\<lparr>cx_popped := Suc (cx_popped c)\<rparr>)))"
| "cx_step c (Cx_write_done e m) = cx_tx_written e (settle (Write_op m) c)"
| "cx_step c (Cx_close_done e) = Inr (spawn_handler ''stop'' e (settle (Close_op shutting_down) c))"

fun cx_enabled :: "cx_connection \<Rightarrow> cx_event \<Rightarrow> bool" where
  "cx_enabled c Cx_run \<longleftrightarrow> cx_run c = Run_new"
| "cx_enabled c (Cx_send msg) \<longleftrightarrow> True"
| "cx_enabled c Cx_stop \<longleftrightarrow> True"
| "cx_enabled c Cx_run_begin \<longleftrightarrow> cx_run c = Run_spawned"
| "cx_enabled c Cx_tx_begin \<longleftrightarrow> cx_tx c = Tx_spawned"
| "cx_enabled c Cx_stop_begin \<longleftrightarrow> 0 < cx_stops c"
| "cx_enabled c (Cx_accept_done e) \<longleftrightarrow> Accept_op \<in> set (pending c)"
| "cx_enabled c (Cx_read_done e bytes) \<longleftrightarrow> Read_op \<in> set (pending c)"
| "cx_enabled c Cx_pop_done \<longleftrightarrow> cx_popped c < length (aq_posts (cx_txqueue c))"
| "cx_enabled c (Cx_write_done e m) \<longleftrightarrow> Write_op m \<in> set (pending c)"
| "cx_enabled c (Cx_close_done e) \<longleftrightarrow> Close_op shutting_down \<in> set (pending c)"

abbreviation cx_reachable :: "cx_connection \<Rightarrow> bool" where
  "cx_reachable c \<equiv> reachable cx_enabled cx_step cx_construct c"

text \<open>
  The session lives as long as a coroutine does: the completion handler of each holds a
  \<^verbatim>\<open>shared_ptr\<close> to it.
\<close>

definition cx_alive :: "cx_connection \<Rightarrow> bool" where
  "cx_alive c \<longleftrightarrow> cx_run c \<in> {Run_spawned, Run_accepting, Run_reading} \<or>
     cx_tx c \<in> {Tx_spawned, Tx_popping, Tx_writing} \<or> 0 < cx_stops c \<or>
     Close_op shutting_down \<in> set (pending c)"

section \<open>Invariants\<close>

text \<open>
  The transmitting coroutine against the channel: \<open>p\<close> answers have been taken by it, \<open>w\<close> are the
  messages it has written, \<open>sent\<close> those given to \<open>send\<close>, \<open>st\<close> says whether the session was stopped.
\<close>

definition tx_inv :: "(unit, string) channel \<Rightarrow> tx_point \<Rightarrow> nat \<Rightarrow> string list \<Rightarrow> string list \<Rightarrow> bool \<Rightarrow> bool" where
  "tx_inv ch tx p w sent st \<longleftrightarrow>
     (ch_waiter ch \<noteq> None \<longrightarrow> tx = Tx_popping \<and> ch_held ch = [] \<and> \<not> ch_abort ch) \<and>
     p + (if tx = Tx_popping \<and> ch_waiter ch = None then 1 else 0) = length (ch_out ch) \<and>
     w = List.map_filter snd (take p (ch_out ch)) \<and>
     prefix (ch_values ch) sent \<and>
     (if ch_abort ch \<or> None \<in> snd ` set (ch_out ch) then st else ch_values ch @ ch_held ch = sent) \<and>
     (None \<in> snd ` set (ch_out ch) \<longrightarrow>
        tx = Tx_over \<or> tx = Tx_popping \<and> ch_waiter ch = None \<and> snd (last (ch_out ch)) = None)"

lemma ch_values_append [simp]: "List.map_filter f (xs @ ys) = List.map_filter f xs @ List.map_filter f ys"
  by (simp add: map_filter_def)

lemma map_filter_single: "List.map_filter snd [(h, r)] = (case r of None \<Rightarrow> [] | Some v \<Rightarrow> [v])"
  by (simp add: map_filter_def split: option.splits)

lemma tx_inv_push: "tx_inv ch tx p w sent st \<Longrightarrow> tx_inv (ch_push m ch) tx p w (sent @ [m]) st"
  by (cases "ch_waiter ch") (auto simp: tx_inv_def ch_push_def ch_answer_def ch_values_def map_filter_single)

lemma tx_inv_stop: "tx_inv ch tx p w sent st \<Longrightarrow> tx_inv (ch_stop ch) tx p w sent True"
  by (cases "ch_waiter ch") (auto simp: tx_inv_def ch_stop_def ch_answer_def ch_values_def map_filter_single)

lemma tx_inv_pop:
  assumes "tx_inv ch tx p w sent st" "tx = Tx_spawned \<or> tx = Tx_writing" "ch_pop h ch = Inr ch'"
  shows "tx_inv ch' Tx_popping p w sent st"
proof -
  have ch: "ch_waiter ch = None" "p = length (ch_out ch)" "None \<notin> snd ` set (ch_out ch)"
    using assms(1,2) by (auto simp: tx_inv_def)
  show ?thesis
  proof (cases "ch_abort ch")
    case True
    with ch assms show ?thesis
      by (auto simp: tx_inv_def ch_pop_def ch_answer_def ch_values_def map_filter_single)
  next
    case False
    with ch assms(1) have "w = ch_values ch" "ch_values ch @ ch_held ch = sent"
      by (simp_all add: tx_inv_def ch_values_def)
    with ch assms(3) False show ?thesis
      by (cases "ch_held ch") (auto simp: tx_inv_def ch_pop_def ch_answer_def ch_values_def map_filter_single)
  qed
qed

lemma tx_inv_popped:
  assumes "tx_inv ch tx p w sent st" "p < length (ch_out ch)"
  shows "tx = Tx_popping \<and>
    (case snd (ch_out ch ! p) of
       None \<Rightarrow> tx_inv ch Tx_over (Suc p) w sent st
     | Some v \<Rightarrow> tx_inv ch Tx_writing (Suc p) (w @ [v]) sent st)"
proof -
  have tx: "tx = Tx_popping" "ch_waiter ch = None" "Suc p = length (ch_out ch)"
    using assms by (auto simp: tx_inv_def split: if_splits)
  then obtain xs r where out: "ch_out ch = xs @ [((), r)]" "p = length xs"
    by (cases "ch_out ch" rule: rev_cases) auto
  with assms(1) tx show ?thesis
    by (cases r) (auto simp: tx_inv_def map_filter_single)
qed

definition cx_run_inv :: "cx_connection \<Rightarrow> bool" where
  "cx_run_inv c \<longleftrightarrow>
     count_list (pending c) Accept_op = (if cx_run c = Run_accepting then 1 else 0) \<and>
     count_list (pending c) Read_op = (if cx_run c = Run_reading then 1 else 0) \<and>
     cx_state c = (case cx_run c of
        Run_accepting \<Rightarrow> cx_handshaking | Run_reading \<Rightarrow> cx_chatting | Run_over \<Rightarrow> cx_exit | _ \<Rightarrow> cx_initial) \<and>
     (cx_run c \<in> {Run_new, Run_spawned, Run_accepting} \<longrightarrow> cx_tx c = Tx_new)"

definition cx_tx_inv :: "cx_connection \<Rightarrow> bool" where
  "cx_tx_inv c \<longleftrightarrow>
     aq_settled (cx_txqueue c) \<and> length (writes (pending c)) = (if cx_tx c = Tx_writing then 1 else 0) \<and>
     tx_inv (aq_channel (cx_txqueue c)) (cx_tx c) (cx_popped c) (writes (started c)) (cx_sent c) (cx_ec c \<noteq> None)"

abbreviation cx_inv :: "cx_connection \<Rightarrow> bool" where
  "cx_inv c \<equiv> cx_run_inv c \<and> cx_tx_inv c"

lemma cx_inv_construct: "cx_inv cx_construct"
  using aqc.start_law
  by (auto simp: cx_run_inv_def cx_tx_inv_def cx_construct_def tx_inv_def ch_values_def ch_empty_def map_filter_def)

text \<open>The operations that only the transmitting side or only the receiving side is affected by.\<close>

lemma cx_run_inv_frame:
  "cx_run_inv (spawn_handler x e c) = cx_run_inv c" "cx_tx_inv (spawn_handler x e c) = cx_tx_inv c"
  by (simp_all add: spawn_handler_def cx_run_inv_def cx_tx_inv_def)

lemma cx_send_inv: "cx_inv c \<Longrightarrow> cx_inv (cx_send m c)"
  using aqc.push_law [of "cx_txqueue c" "[]" m]
  by (auto simp: cx_send_def cx_run_inv_def cx_tx_inv_def intro: tx_inv_push)

lemma cx_txqueue_stop_inv: "cx_inv c \<Longrightarrow> cx_ec c \<noteq> None \<Longrightarrow> cx_inv (cx_txqueue_stop c)"
  using aqc.stop_law [of "cx_txqueue c" "[]"] tx_inv_stop
  by (auto simp: cx_txqueue_stop_def cx_run_inv_def cx_tx_inv_def)

lemma tx_inv_weaken: "tx_inv ch tx p w sent st \<Longrightarrow> tx_inv ch tx p w sent True"
  by (auto simp: tx_inv_def)

lemma cx_notify_error_inv: "cx_inv c \<Longrightarrow> cx_inv (cx_notify_error c)"
proof -
  assume c: "cx_inv c"
  let ?c = "c\<lparr>cx_ec := Some operation_aborted\<rparr>"
  have 1: "cx_inv ?c" using c by (auto simp: cx_run_inv_def cx_tx_inv_def intro: tx_inv_weaken)
  then have 2: "cx_inv (cx_txqueue_stop ?c)" by (rule cx_txqueue_stop_inv) simp
  have 3: "cx_inv (initiate (Close_op r) d)" "cx_inv (perform Cancel_socket d)" if "cx_inv d" for d r
    using that by (auto simp: cx_run_inv_def cx_tx_inv_def initiate_def perform_def)
  have "cx_txqueue_stop (perform Cancel_socket ?c) = perform Cancel_socket (cx_txqueue_stop ?c)"
    by (simp add: cx_txqueue_stop_def perform_def)
  with 1 2 3 c show ?thesis by (cases "cx_state c") (simp_all add: cx_notify_error_def Let_def cx_run_inv_frame)
qed

text \<open>The next request of the transmitting coroutine.\<close>

lemma cx_tx_pop_inv:
  assumes "cx_run_inv c" "cx_tx_inv (c\<lparr>pending := ops\<rparr>)" "cx_tx c = Tx_spawned \<or> cx_tx c = Tx_writing" "writes (pending c) = []"
  shows "\<exists>d. cx_tx_pop c = Inr d \<and> cx_inv d"
proof -
  let ?q = "cx_txqueue c"
  have ok: "aq_settled ?q" and inv: "tx_inv (aq_channel ?q) (cx_tx c) (cx_popped c) (writes (started c)) (cx_sent c) (cx_ec c \<noteq> None)"
    using assms(2) by (simp_all add: cx_tx_inv_def)
  then have "ch_waiter (aq_channel ?q) = None" using assms(3) by (auto simp: tx_inv_def)
  with ok obtain r where r: "aq_async_pop True [] () ?q = Inr r" "aq_settled r" "ch_pop () (aq_channel ?q) = Inr (aq_channel r)"
    using aqc.pop_Inr by metis
  from tx_inv_pop [OF inv assms(3) r(3)] r(2) assms show ?thesis
    by (auto simp: cx_tx_pop_def r(1) cx_run_inv_def cx_tx_inv_def)
qed

text \<open>Completions: the operation leaves the ledger, and its coroutine goes on.\<close>

lemma cx_accept_inv:
  assumes "cx_inv c" "Accept_op \<in> set (pending c)"
  shows "cx_inv (cx_run_accepted e (settle Accept_op c))"
proof -
  have "cx_run c = Run_accepting" "cx_tx c = Tx_new"
    using assms by (auto simp: cx_run_inv_def count_list_0_iff split: if_splits)
  with assms(1) show ?thesis
    by (auto simp: cx_run_accepted_def cx_run_throw_def cx_rx_read_def cx_on_connect_def cx_run_inv_frame
        split: option.splits)
      (auto simp: cx_run_inv_def cx_tx_inv_def count_list_remove1 initiate_def settle_def tx_inv_def)
qed

lemma cx_read_inv:
  assumes "cx_inv c" "Read_op \<in> set (pending c)"
  shows "cx_inv (cx_rx_resume e ((settle Read_op c)\<lparr>cx_rxbuffer := b\<rparr>))"
proof -
  have r: "cx_run c = Run_reading" using assms by (auto simp: cx_run_inv_def count_list_0_iff split: if_splits)
  show ?thesis
  proof (cases e)
    case None
    let ?d = "(settle Read_op c)\<lparr>cx_rxbuffer := []\<rparr>"
    have "cx_inv (initiate Read_op (cx_send b ?d))"
    proof -
      have "cx_inv (initiate Read_op ?d)"
        using assms(1) r by (auto simp: cx_run_inv_def cx_tx_inv_def count_list_remove1 initiate_def settle_def)
      moreover have "initiate Read_op (cx_send b ?d) = cx_send b (initiate Read_op ?d)"
        by (simp add: cx_send_def initiate_def)
      ultimately show ?thesis by (simp only: cx_send_inv)
    qed
    moreover have "cx_send b ?d = (cx_send b ?d)\<lparr>cx_run := Run_reading\<rparr>"
      using r by (simp add: cx_send_def settle_def)
    ultimately show ?thesis using None by (simp add: cx_rx_resume_def cx_rx_read_def Let_def)
  next
    case (Some x)
    with assms(1) r show ?thesis
      by (simp add: cx_rx_resume_def cx_run_inv_frame)
        (auto simp: cx_run_inv_def cx_tx_inv_def count_list_remove1 settle_def)
  qed
qed

lemma cx_channel_post:
  "p < length (aq_posts q) \<Longrightarrow> aq_posts q ! p = (h, e, v) \<Longrightarrow>
     ch_out (aq_channel q) ! p = (the h, if e = None then Some v else None)"
  by (simp add: aq_channel_def)

lemma cx_pop_inv:
  assumes "cx_inv c" "cx_popped c < length (aq_posts (cx_txqueue c))"
  shows "\<exists>d. cx_step c Cx_pop_done = Inr d \<and> cx_inv d"
proof -
  obtain h e v where p: "aq_posts (cx_txqueue c) ! cx_popped c = (h, e, v)" by (cases "aq_posts (cx_txqueue c) ! cx_popped c")
  have "cx_popped c < length (ch_out (aq_channel (cx_txqueue c)))" using assms(2) by (simp add: aq_channel_def)
  with tx_inv_popped assms(1) cx_channel_post [OF assms(2) p]
  have "cx_tx c = Tx_popping"
      "case e of Some x \<Rightarrow> tx_inv (aq_channel (cx_txqueue c)) Tx_over (Suc (cx_popped c)) (writes (started c)) (cx_sent c) (cx_ec c \<noteq> None)
       | None \<Rightarrow> tx_inv (aq_channel (cx_txqueue c)) Tx_writing (Suc (cx_popped c)) (writes (started c) @ [v]) (cx_sent c) (cx_ec c \<noteq> None)"
    unfolding cx_tx_inv_def by (fastforce split: option.splits)+
  with assms(1) p show ?thesis
    by (cases e) (auto simp: cx_tx_popped_def cx_tx_throw_def cx_run_inv_frame, auto simp: cx_run_inv_def cx_tx_inv_def initiate_def)
qed

lemma cx_write_inv:
  assumes "cx_inv c" "Write_op m \<in> set (pending c)"
  shows "\<exists>d. cx_tx_written e (settle (Write_op m) c) = Inr d \<and> cx_inv d"
proof -
  have tx: "cx_tx c = Tx_writing" "writes (pending c) = [m]"
    using assms by (cases "writes (pending c)"; auto simp: cx_tx_inv_def split: if_splits)+
  let ?d = "settle (Write_op m) c"
  have w: "writes (pending ?d) = []" using tx by (simp add: writes_remove1_Write)
  have r: "cx_run_inv ?d" using assms(1) by (simp add: cx_run_inv_def count_list_remove1 settle_def)
  show ?thesis
  proof (cases e)
    case None
    have "cx_tx_inv (?d\<lparr>pending := pending c\<rparr>)" using assms(1) by (simp add: cx_tx_inv_def settle_def)
    from cx_tx_pop_inv [OF r this] tx w None show ?thesis by (simp add: cx_tx_written_def settle_def)
  next
    case (Some x)
    have "cx_tx_inv (?d\<lparr>cx_tx := Tx_over\<rparr>)" "cx_run_inv (?d\<lparr>cx_tx := Tx_over\<rparr>)"
      using assms(1) tx w r by (auto simp: cx_tx_inv_def settle_def tx_inv_def cx_run_inv_def split: if_splits)
    with Some show ?thesis by (simp add: cx_tx_written_def cx_tx_throw_def cx_run_inv_frame)
  qed
qed

lemma cx_step_ok:
  assumes "cx_inv c" "cx_enabled c e"
  shows "\<exists>d. cx_step c e = Inr d \<and> cx_inv d"
proof (cases e)
  case Cx_tx_begin
  with assms cx_tx_pop_inv [of c "pending c"] show ?thesis by (auto simp: cx_tx_inv_def)
next
  case Cx_stop_begin
  have "cx_inv (c\<lparr>cx_stops := cx_stops c - 1\<rparr>)" using assms(1) by (simp add: cx_run_inv_def cx_tx_inv_def)
  with Cx_stop_begin cx_notify_error_inv show ?thesis by simp
next
  case Cx_run_begin
  with assms show ?thesis
    by (auto simp: cx_run_begin_def cx_run_inv_def cx_tx_inv_def initiate_def)
next
  case (Cx_close_done x)
  with assms show ?thesis
    by (simp add: cx_run_inv_frame) (auto simp: cx_run_inv_def cx_tx_inv_def settle_def count_list_remove1)
next
  case Cx_pop_done
  with assms cx_pop_inv show ?thesis by simp
qed (use assms in \<open>auto simp: cx_send_inv cx_accept_inv cx_read_inv cx_write_inv cx_call_run_def cx_stop_def\<close>,
     (use assms in \<open>auto simp: cx_run_inv_def cx_tx_inv_def\<close>)?)

lemma cx_reachable_inv: "cx_reachable c \<Longrightarrow> cx_inv c"
  by (induction rule: reachable_invariant) (use cx_inv_construct cx_step_ok in fastforce)+

section \<open>The session as a send region\<close>

text \<open>Messages given to \<open>send\<close>: by the server, and by the receive loop for each message that arrives.\<close>

fun cx_accepted :: "cx_connection \<Rightarrow> cx_event \<Rightarrow> string list" where
  "cx_accepted c (Cx_send m) = [m]"
| "cx_accepted c (Cx_read_done e bytes) = (if e = None then [cx_rxbuffer c @ bytes] else [])"
| "cx_accepted c _ = []"

lemma cx_sent_frame [simp]:
  "cx_sent (initiate x c) = cx_sent c" "cx_sent (settle x c) = cx_sent c" "cx_sent (perform x c) = cx_sent c"
  "cx_rxbuffer (settle x c) = cx_rxbuffer c"
  by (simp_all add: initiate_def settle_def perform_def)

lemma cx_sent_step: "cx_step c e = Inr d \<Longrightarrow> cx_sent d = cx_sent c @ cx_accepted c e"
  by (cases e)
    (auto simp: cx_defs Let_def and_then_Inr split: option.splits if_splits cx_state_t.splits prod.splits)

abbreviation cx_written :: "cx_connection \<Rightarrow> string list" where
  "cx_written c \<equiv> writes (started c)"

definition cx_backlog :: "cx_connection \<Rightarrow> string list" where
  "cx_backlog c = drop (length (cx_written c)) (cx_sent c)"

text \<open>Not stopped, and the transmitting coroutine waiting for a message.\<close>

definition cx_ready :: "cx_connection \<Rightarrow> bool" where
  "cx_ready c \<longleftrightarrow> cx_ec c = None \<and> aq_state (cx_txqueue c) = Waiting"

lemma cx_written_prefix:
  assumes "cx_inv c"
  shows "prefix (cx_written c) (cx_sent c)"
proof -
  let ?ch = "aq_channel (cx_txqueue c)"
  have "prefix (List.map_filter snd (take (cx_popped c) (ch_out ?ch))) (ch_values ?ch)"
    unfolding ch_values_def by (metis append_take_drop_id ch_values_append prefixI)
  with assms show ?thesis by (auto simp: cx_tx_inv_def tx_inv_def dest: prefix_order.order_trans)
qed

lemma cx_ready_written:
  assumes "cx_inv c" "cx_ready c"
  shows "cx_written c = cx_sent c"
proof -
  have "ch_waiter (aq_channel (cx_txqueue c)) \<noteq> None"
    using assms by (auto simp: cx_ready_def cx_tx_inv_def aq_settled_def aq_channel_def)
  with assms show ?thesis by (auto simp: cx_tx_inv_def tx_inv_def cx_ready_def ch_values_def split: if_splits)
qed

interpretation cx: prompt_send_region cx_enabled cx_step cx_construct cx_written "\<lambda>c. writes (pending c)"
  cx_backlog cx_accepted cx_ready
proof unfold_locales
  have flow: "cx_written c @ cx_backlog c = cx_sent c" if "cx_reachable c" for c
    using cx_written_prefix [OF cx_reachable_inv [OF that]] by (auto simp: cx_backlog_def prefix_def)
  show "cx_written cx_construct = [] \<and> cx_backlog cx_construct = []"
    by (simp add: cx_construct_def cx_backlog_def)
  fix c e d assume c: "cx_reachable c"
  show "length (writes (pending c)) \<le> 1" using cx_reachable_inv [OF c] by (simp add: cx_tx_inv_def)
  show "cx_backlog c = []" if "cx_ready c"
    using cx_ready_written [OF cx_reachable_inv [OF c] that] by (simp add: cx_backlog_def)
  assume "cx_enabled c e" "cx_step c e = Inr d"
  with c have "cx_reachable d" by (rule reachable_step)
  with flow [OF c] flow [of d] cx_sent_step [OF \<open>cx_step c e = Inr d\<close>]
  show "cx_written d @ cx_backlog d = cx_written c @ cx_backlog c @ cx_accepted c e"
    by (metis append_assoc)
qed

section \<open>How a session ends\<close>

text \<open>The transmit queue has been stopped: an abort is pending or was answered.\<close>

definition cx_queue_stopped :: "cx_connection \<Rightarrow> bool" where
  "cx_queue_stopped c \<longleftrightarrow> aq_ec (cx_txqueue c) \<noteq> None \<or> (\<exists>(h, e, v) \<in> set (aq_posts (cx_txqueue c)). e \<noteq> None)"

lemma cx_queue_stopped_channel:
  "cx_queue_stopped c \<longleftrightarrow> ch_abort (aq_channel (cx_txqueue c)) \<or> None \<in> snd ` set (ch_out (aq_channel (cx_txqueue c)))"
  by (force simp: cx_queue_stopped_def aq_channel_def image_iff)

text \<open>Only calls from outside are possible: no coroutine is about to begin, nothing is outstanding.\<close>

definition cx_quiet :: "cx_connection \<Rightarrow> bool" where
  "cx_quiet c \<longleftrightarrow> (\<forall>e. cx_enabled c e \<longrightarrow> e = Cx_run \<or> e = Cx_stop \<or> (\<exists>m. e = Cx_send m))"

lemma cx_quietD:
  assumes "cx_quiet c"
  shows "cx_run c \<noteq> Run_spawned" "cx_tx c \<noteq> Tx_spawned" "cx_stops c = 0"
    "Accept_op \<notin> set (pending c)" "Read_op \<notin> set (pending c)" "writes (pending c) = []"
    "Close_op shutting_down \<notin> set (pending c)" "\<not> cx_popped c < length (aq_posts (cx_txqueue c))"
proof -
  have q: "\<not> cx_enabled c e" if "e \<noteq> Cx_run" "e \<noteq> Cx_stop" "\<And>m. e \<noteq> Cx_send m" for e
    using assms that unfolding cx_quiet_def by blast
  show "cx_run c \<noteq> Run_spawned" "cx_tx c \<noteq> Tx_spawned" "cx_stops c = 0"
    "Accept_op \<notin> set (pending c)" "Read_op \<notin> set (pending c)" 
    "Close_op shutting_down \<notin> set (pending c)" "\<not> cx_popped c < length (aq_posts (cx_txqueue c))"
    using q [of Cx_run_begin] q [of Cx_tx_begin] q [of Cx_stop_begin] q [of "Cx_accept_done None"]
      q [of "Cx_read_done None []"] q [of "Cx_close_done None"] q [of Cx_pop_done] by simp_all
  show "writes (pending c) = []" using q [of "Cx_write_done None m" for m] by (cases "writes (pending c)") auto
qed

text \<open>
  The receive loop is over and the transmitting coroutine waits for a message: the state a session
  is left in when its peer goes away.
\<close>

definition cx_stranded :: "cx_connection \<Rightarrow> bool" where
  "cx_stranded c \<longleftrightarrow> cx_run c = Run_over \<and> cx_tx c = Tx_popping \<and> aq_state (cx_txqueue c) = Waiting"

lemma cx_stranded_step:
  assumes "cx_inv c" "cx_stranded c" "cx_enabled c e" "cx_step c e = Inr d" "\<And>m. e \<noteq> Cx_send m"
  shows "cx_stranded d"
proof -
  have st: "cx_state c = cx_exit" "Accept_op \<notin> set (pending c)" "Read_op \<notin> set (pending c)" "writes (pending c) = []"
    using assms(1,2) by (auto simp: cx_run_inv_def cx_tx_inv_def cx_stranded_def count_list_0_iff)
  have "cx_popped c = length (aq_posts (cx_txqueue c))"
    using assms(1,2) by (auto simp: cx_tx_inv_def cx_stranded_def tx_inv_def aq_settled_def aq_channel_def)
  with assms(2-5) st show ?thesis
    by (cases e) (auto simp: cx_stranded_def cx_defs Let_def settle_def split: if_splits)
qed

lemma cx_stranded_run:
  "run cx_enabled cx_step c es = Some d \<Longrightarrow> cx_inv c \<Longrightarrow> cx_stranded c \<Longrightarrow> (\<And>m. Cx_send m \<notin> set es) \<Longrightarrow> cx_stranded d"
proof (induction rule: run_induct)
  case (Cons c e es u)
  have "cx_inv u" using cx_step_ok [OF Cons.prems(1) Cons.hyps(1)] Cons.hyps(2) by auto
  moreover have "cx_stranded u"
    by (rule cx_stranded_step [OF Cons.prems(1,2) Cons.hyps(1,2)]) (use Cons.prems(3) in auto)
  ultimately show ?case using Cons.IH Cons.prems(3) by auto
qed simp

section \<open>Properties\<close>

text \<open>
  No handler of a coroutine session fails: in every reachable state every event is handled
  without a failed assertion, neither the one on the initial state nor the one of the queue
  against a second waiting consumer.
\<close>

theorem cx_handlers_total:
  assumes "cx_reachable c" "cx_enabled c e"
  shows "\<exists>d. cx_step c e = Inr d"
  using cx_step_ok [OF cx_reachable_inv [OF assms(1)] assms(2)] by blast

theorem cx_handlers_total_witness:
  "\<exists>c. cx_reachable c \<and> (\<exists>d. cx_step c Cx_pop_done = Inr d)"
proof -
  obtain c where r: "run cx_enabled cx_step cx_construct
      [Cx_run, Cx_send ''hi'', Cx_run_begin, Cx_accept_done None, Cx_tx_begin] = Some c" and e: "cx_enabled c Cx_pop_done"
    by (simp add: cx_defs aq_defs initiate_def settle_def)
  from cx_handlers_total [OF run_reachable [OF r] e] run_reachable [OF r] show ?thesis by blast
qed

text \<open>
  C5. Messages leave in order: over every run the messages handed to \<^verbatim>\<open>async_write\<close> are a
  prefix of those sent, by the server or as the echo of a message received, and all of them
  whenever the session has not been stopped and the transmitting coroutine waits for a message.
\<close>

theorem cx_messages_in_order:
  assumes "run cx_enabled cx_step cx_construct es = Some c"
  shows "prefix (cx_written c) (taken cx_step cx_accepted cx_construct es) \<and>
    (cx_ready c \<longrightarrow> cx_written c = taken cx_step cx_accepted cx_construct es)"
  using cx.written_prefix [OF assms] cx.ready_all_written [OF assms] by blast

theorem cx_messages_in_order_witness:
  "\<exists>c. run cx_enabled cx_step cx_construct [Cx_run, Cx_send ''hi'', Cx_run_begin, Cx_accept_done None, Cx_tx_begin,
      Cx_pop_done, Cx_write_done None ''hi''] = Some c \<and> cx_written c = [''hi'']"
proof -
  let ?es = "[Cx_run, Cx_send ''hi'', Cx_run_begin, Cx_accept_done None, Cx_tx_begin, Cx_pop_done, Cx_write_done None ''hi'']"
  obtain c where r: "run cx_enabled cx_step cx_construct ?es = Some c" and rd: "cx_ready c"
    by (simp add: cx_defs aq_defs initiate_def settle_def cx_ready_def)
  have "taken cx_step cx_accepted cx_construct ?es = [''hi'']"
    by (simp add: cx_defs aq_defs initiate_def settle_def)
  with cx_messages_in_order [OF r] rd r show ?thesis by auto
qed

text \<open>
  C20. A stop that reached the queue ends the session: once the transmit queue has been stopped, a
  state in which no coroutine can begin and no completion is outstanding has no coroutine left,
  so nothing keeps the session alive.
\<close>

theorem cx_stopped_session_ends:
  assumes "cx_reachable c" "cx_queue_stopped c" "cx_quiet c"
  shows "\<not> cx_alive c"
proof -
  have i: "cx_inv c" using cx_reachable_inv [OF assms(1)] .
  note q = cx_quietD [OF assms(3)]
  have "cx_run c \<noteq> Run_accepting" "cx_run c \<noteq> Run_reading"
    using i q(4,5) by (auto simp: cx_run_inv_def count_list_0_iff)
  moreover have "cx_tx c \<noteq> Tx_writing" using i q(6) by (auto simp: cx_tx_inv_def)
  moreover have "cx_tx c \<noteq> Tx_popping"
    using i q(8) assms(2) unfolding cx_queue_stopped_channel
    by (auto simp: cx_tx_inv_def tx_inv_def aq_channel_def split: if_splits)
  ultimately show ?thesis using q by (auto simp: cx_alive_def)
qed

theorem cx_stopped_session_ends_witness:
  "\<exists>c. run cx_enabled cx_step cx_construct [Cx_run, Cx_run_begin, Cx_accept_done None, Cx_tx_begin, Cx_stop,
      Cx_stop_begin, Cx_read_done (Some websocket_closed) [], Cx_pop_done, Cx_close_done None] = Some c \<and> \<not> cx_alive c"
proof -
  obtain c where r: "run cx_enabled cx_step cx_construct [Cx_run, Cx_run_begin, Cx_accept_done None, Cx_tx_begin, Cx_stop,
      Cx_stop_begin, Cx_read_done (Some websocket_closed) [], Cx_pop_done, Cx_close_done None] = Some c"
    and c: "cx_queue_stopped c" "pending c = []" "cx_run c = Run_over" "cx_tx c = Tx_over" "cx_stops c = 0"
      "cx_popped c = length (aq_posts (cx_txqueue c))"
    by (simp add: cx_defs aq_defs initiate_def settle_def Let_def cx_queue_stopped_def shutting_down_def)
  have "e = Cx_run \<or> e = Cx_stop \<or> (\<exists>m. e = Cx_send m)" if "cx_enabled c e" for e
    using that c(2-) by (cases e) simp_all
  then have "cx_quiet c" by (simp add: cx_quiet_def)
  from cx_stopped_session_ends [OF run_reachable [OF r] c(1) this] r show ?thesis by blast
qed

text \<open>
  C40. A session whose peer has gone never ends: when the receive loop is over and the transmitting
  coroutine waits for a message, nothing but another message resumes it, whatever completes and
  however often \<open>stop\<close> is called; the coroutine keeps the session alive for ever.
\<close>

theorem cx_peer_gone_keeps_session:
  assumes "cx_reachable c" "cx_stranded c" "run cx_enabled cx_step c es = Some d" "\<forall>m. Cx_send m \<notin> set es"
  shows "cx_alive d \<and> cx_stranded d"
  using cx_stranded_run [OF assms(3) cx_reachable_inv [OF assms(1)] assms(2)] assms(4)
  by (auto simp: cx_alive_def cx_stranded_def)

theorem cx_peer_gone_keeps_session_witness:
  "\<exists>c d. run cx_enabled cx_step cx_construct [Cx_run, Cx_run_begin, Cx_accept_done None, Cx_tx_begin,
      Cx_read_done (Some websocket_closed) []] = Some c \<and>
     run cx_enabled cx_step c [Cx_stop, Cx_stop_begin] = Some d \<and> pending d = [] \<and> cx_alive d"
proof -
  obtain c where r: "run cx_enabled cx_step cx_construct [Cx_run, Cx_run_begin, Cx_accept_done None, Cx_tx_begin,
      Cx_read_done (Some websocket_closed) []] = Some c" and c: "cx_stranded c"
    and s: "\<exists>d. run cx_enabled cx_step c [Cx_stop, Cx_stop_begin] = Some d \<and> pending d = []"
    by (simp add: cx_defs aq_defs initiate_def settle_def Let_def cx_stranded_def)
  from s obtain d where d: "run cx_enabled cx_step c [Cx_stop, Cx_stop_begin] = Some d" "pending d = []" by blast
  from cx_peer_gone_keeps_session [OF run_reachable [OF r] c d(1)] d r show ?thesis by auto
qed

end
