(* ===== verification/Cxx20_Server.thy ===== *)
theory Cxx20_Server
  imports Cxx20_Chat Echo_Server
begin

text \<open>
  \<^verbatim>\<open>cxx20/server.hpp\<close>, \<^verbatim>\<open>server.cpp\<close>, \<^verbatim>\<open>app.hpp\<close> and \<^verbatim>\<open>app.cpp\<close>: the coroutine that
  accepts connections, and the application that stops the server on a signal. The greeting is the
  one of the echo server, line for line.
\<close>

section \<open>The server\<close>

datatype loop_point = Loop_new | Loop_spawned | Loop_accepting | Loop_over

record cx_server = "acceptor_op io" +
  cs_connections :: "(endpoint \<times> nat) list"
  cs_ec :: error_code
  cs_loop :: loop_point
  cs_sessions :: "cx_connection list"

text \<open>Construction: \<open>e\<close> is the first error of opening, configuring, binding and listening.\<close>

definition cs_construct :: "error_code \<Rightarrow> cx_server result" where
  "cs_construct e = (case e of
      Some x \<Rightarrow> Inl (System_error x)
    | None \<Rightarrow> Inr \<lparr>pending = [], started = [], cs_connections = [], cs_ec = None, cs_loop = Loop_new, cs_sessions = []\<rparr>)"

definition cs_run :: "cx_server \<Rightarrow> cx_server" where
  "cs_run s = s\<lparr>cs_loop := Loop_spawned\<rparr>"

text \<open>The head of the loop of \<^verbatim>\<open>handle_run\<close>.\<close>

definition cs_while :: "cx_server \<Rightarrow> cx_server" where
  "cs_while s =
     (if cs_ec s = None then initiate Async_accept (s\<lparr>cs_loop := Loop_accepting\<rparr>) else s\<lparr>cs_loop := Loop_over\<rparr>)"

text \<open>
  The \<^verbatim>\<open>catch\<close> clause: an aborted connection is ignored; any other error leaves the coroutine,
  whose completion token \<^verbatim>\<open>detached\<close> drops it.
\<close>

definition cs_catch :: "error \<Rightarrow> cx_server \<Rightarrow> cx_server" where
  "cs_catch x s = (if x \<noteq> connection_aborted then s\<lparr>cs_loop := Loop_over\<rparr> else cs_while s)"

text \<open>A new session, run and greeted.\<close>

definition cs_greeted :: "nat \<Rightarrow> endpoint \<Rightarrow> cx_connection" where
  "cs_greeted visitors ep = fold cx_send (srv_welcome visitors ep) (cx_call_run cx_construct)"

definition cs_accepted :: "error_code \<Rightarrow> error + endpoint \<Rightarrow> cx_server \<Rightarrow> cx_server" where
  "cs_accepted e sock s =
     (case e of
        Some x \<Rightarrow> cs_catch x s
      | None \<Rightarrow>
         (case sock of
            Inl x \<Rightarrow> cs_catch x s
          | Inr ep \<Rightarrow>
             (let conn = length (cs_sessions s);
                  s1 = s\<lparr>cs_connections := AList.update ep conn (cs_connections s)\<rparr>;
                  s2 = s1\<lparr>cs_sessions := cs_sessions s1 @ [cs_greeted (length (cs_connections s1)) ep]\<rparr>
              in cs_while s2)))"

text \<open>\<^verbatim>\<open>weak_conn.lock()\<close> succeeds exactly when a coroutine of the session is alive.\<close>

fun cs_stop_all :: "(endpoint \<times> nat) list \<Rightarrow> cx_connection list \<Rightarrow> cx_connection list" where
  "cs_stop_all [] ss = ss"
| "cs_stop_all ((ep, i) # cs) ss =
     cs_stop_all cs (if cx_alive (ss ! i) then ss[i := cx_stop (ss ! i)] else ss)"

definition cs_handle_stop :: "cx_server \<Rightarrow> cx_server" where
  "cs_handle_stop s =
     (let s1 = perform Cancel_acceptor (s\<lparr>cs_ec := Some operation_aborted\<rparr>)
      in s1\<lparr>cs_sessions := cs_stop_all (cs_connections s1) (cs_sessions s1), cs_connections := []\<rparr>)"

lemmas cs_defs [model_defs] =
  cs_construct_def cs_run_def cs_while_def cs_catch_def cs_greeted_def cs_accepted_def cs_handle_stop_def

section \<open>The application\<close>

record cx_app =
  cxa_signal_waits :: nat
  cxa_server :: cx_server

definition cxa_construct :: "error_code \<Rightarrow> cx_app result" where
  "cxa_construct e = and_then (cs_construct e) (\<lambda>s. Inr \<lparr>cxa_signal_waits = 0, cxa_server = s\<rparr>)"

definition cxa_handle_run :: "cx_app \<Rightarrow> cx_app" where
  "cxa_handle_run a = a\<lparr>cxa_signal_waits := Suc (cxa_signal_waits a), cxa_server := cs_run (cxa_server a)\<rparr>"

definition cxa_handle_signal :: "error_code \<Rightarrow> cx_app \<Rightarrow> cx_app" where
  "cxa_handle_signal e a = (if e = None then a\<lparr>cxa_server := cs_handle_stop (cxa_server a)\<rparr> else a)"

lemmas cxa_defs [model_defs] = cxa_construct_def cxa_handle_run_def cxa_handle_signal_def

datatype cxa_event =
    Cxa_run
  | Cxa_signal error_code
  | Cxa_loop_begin
  | Cxa_accept_done error_code "error + endpoint"
  | Cxa_session nat cx_event

fun cxa_step :: "cx_app \<Rightarrow> cxa_event \<Rightarrow> cx_app result" where
  "cxa_step a Cxa_run = Inr (cxa_handle_run a)"
| "cxa_step a (Cxa_signal e) = Inr (cxa_handle_signal e (a\<lparr>cxa_signal_waits := cxa_signal_waits a - 1\<rparr>))"
| "cxa_step a Cxa_loop_begin = Inr (a\<lparr>cxa_server := cs_while (cxa_server a)\<rparr>)"
| "cxa_step a (Cxa_accept_done e sock) =
     Inr (a\<lparr>cxa_server := cs_accepted e sock (settle Async_accept (cxa_server a))\<rparr>)"
| "cxa_step a (Cxa_session i e) =
     (let s = cxa_server a in
      if i < length (cs_sessions s) then
        and_then (cx_step (cs_sessions s ! i) e) (\<lambda>d.
          Inr (a\<lparr>cxa_server := s\<lparr>cs_sessions := (cs_sessions s)[i := d]\<rparr>\<rparr>))
      else Inl (Undefined ''no such session''))"

text \<open>The public functions of a session are called by the server only.\<close>

fun cx_internal :: "cx_event \<Rightarrow> bool" where
  "cx_internal Cx_run = False"
| "cx_internal (Cx_send m) = False"
| "cx_internal Cx_stop = False"
| "cx_internal _ = True"

fun cxa_enabled :: "cx_app \<Rightarrow> cxa_event \<Rightarrow> bool" where
  "cxa_enabled a Cxa_run \<longleftrightarrow> cs_loop (cxa_server a) = Loop_new"
| "cxa_enabled a (Cxa_signal e) \<longleftrightarrow> 0 < cxa_signal_waits a"
| "cxa_enabled a Cxa_loop_begin \<longleftrightarrow> cs_loop (cxa_server a) = Loop_spawned"
| "cxa_enabled a (Cxa_accept_done e sock) \<longleftrightarrow> Async_accept \<in> set (pending (cxa_server a))"
| "cxa_enabled a (Cxa_session i e) \<longleftrightarrow>
     i < length (cs_sessions (cxa_server a)) \<and> cx_internal e \<and> cx_enabled (cs_sessions (cxa_server a) ! i) e"

definition cxa_start :: cx_app where
  "cxa_start = projr (cxa_construct None)"

abbreviation cxa_reachable :: "cx_app \<Rightarrow> bool" where
  "cxa_reachable a \<equiv> reachable cxa_enabled cxa_step cxa_start a"

section \<open>Invariants\<close>

text \<open>Every session is in a state its own events can reach, greeted first.\<close>

definition cs_session_ok :: "cx_connection \<Rightarrow> bool" where
  "cs_session_ok c \<longleftrightarrow> cx_reachable c \<and> cx_run c \<noteq> Run_new \<and> (\<exists>n ep. prefix (srv_welcome n ep) (cx_sent c))"

definition cs_inv :: "cx_server \<Rightarrow> bool" where
  "cs_inv s \<longleftrightarrow>
     pending s = (if cs_loop s = Loop_accepting then [Async_accept] else []) \<and>
     (\<forall>c \<in> set (cs_sessions s). cs_session_ok c) \<and>
     (\<forall>(ep, i) \<in> set (cs_connections s). i < length (cs_sessions s))"

lemma cx_run_kept: "cx_step c e = Inr d \<Longrightarrow> cx_run c \<noteq> Run_new \<Longrightarrow> cx_run d \<noteq> Run_new"
  by (cases e)
    (auto simp: cx_defs Let_def and_then_Inr initiate_def settle_def perform_def
      split: option.splits if_splits cx_state_t.splits prod.splits)

lemma cs_session_step: "cs_session_ok c \<Longrightarrow> cx_enabled c e \<Longrightarrow> cx_step c e = Inr d \<Longrightarrow> cs_session_ok d"
  unfolding cs_session_ok_def
  using reachable_step [of cx_enabled cx_step cx_construct c e d] cx_run_kept [of c e d] cx_sent_step [of c e d]
  by (metis prefix_append)

lemma cs_session_stop: "cs_session_ok c \<Longrightarrow> cs_session_ok (cx_stop c)"
  by (rule cs_session_step [of _ Cx_stop]) simp_all

lemma fold_cx_send:
  "cx_reachable c \<Longrightarrow> cx_reachable (fold cx_send ms c) \<and> cx_sent (fold cx_send ms c) = cx_sent c @ ms \<and>
     cx_run (fold cx_send ms c) = cx_run c \<and> cx_stops (fold cx_send ms c) = cx_stops c"
proof (induction ms arbitrary: c)
  case Nil
  then show ?case by simp
next
  case (Cons m ms)
  have "cx_reachable (cx_send m c)" using reachable_step [OF Cons.prems, of "Cx_send m"] by simp
  from Cons.IH [OF this] show ?case by (simp add: cx_send_def)
qed

lemma cs_greeted_ok: "cs_session_ok (cs_greeted n ep)" "cx_stops (cs_greeted n ep) = 0" "cx_run (cs_greeted n ep) = Run_spawned"
proof -
  have "cx_reachable (cx_call_run cx_construct)"
    using reachable_step [OF reachable_start, of cx_enabled cx_construct Cx_run cx_step] by (simp add: cx_construct_def)
  from fold_cx_send [OF this, of "srv_welcome n ep"]
  have g: "cx_reachable (cs_greeted n ep)" "cx_sent (cs_greeted n ep) = srv_welcome n ep"
      "cx_run (cs_greeted n ep) = Run_spawned" "cx_stops (cs_greeted n ep) = 0"
    by (simp_all add: cs_greeted_def cx_call_run_def cx_construct_def)
  then show "cx_stops (cs_greeted n ep) = 0" "cx_run (cs_greeted n ep) = Run_spawned" by simp_all
  from g have "prefix (srv_welcome n ep) (cx_sent (cs_greeted n ep))" by simp
  with g show "cs_session_ok (cs_greeted n ep)" unfolding cs_session_ok_def by (metis run_point.distinct(1))
qed

lemma cs_stop_all_length [simp]: "length (cs_stop_all cs ss) = length ss"
  by (induction cs ss rule: cs_stop_all.induct) auto

lemma cs_stop_all_ok: "\<forall>c \<in> set ss. cs_session_ok c \<Longrightarrow> \<forall>c \<in> set (cs_stop_all cs ss). cs_session_ok c"
proof (induction cs ss rule: cs_stop_all.induct)
  case (2 ep i cs ss)
  have "\<forall>c \<in> set (ss[i := cx_stop (ss ! i)]). cs_session_ok c"
  proof (cases "i < length ss")
    case True
    with "2.prems" cs_session_stop [of "ss ! i"] show ?thesis
      by (auto dest!: set_update_subset_insert [THEN subsetD])
  next
    case False
    then have "ss[i := cx_stop (ss ! i)] = ss" by (simp add: list_update_beyond)
    with "2.prems" show ?thesis by metis
  qed
  with "2.IH" "2.prems" show ?case by simp
qed simp

text \<open>Stopping only raises the number of stop coroutines, and raises it for the live sessions listed.\<close>

lemma cs_stop_all_mono: "i < length ss \<Longrightarrow> cx_stops (ss ! i) \<le> cx_stops (cs_stop_all cs ss ! i)"
proof (induction cs ss rule: cs_stop_all.induct)
  case (2 ep j cs ss)
  then show ?case by (cases "j = i"; cases "cx_alive (ss ! j)") (fastforce simp: cx_stop_def)+
qed simp

lemma cs_stop_all_live:
  "(ep, i) \<in> set cs \<Longrightarrow> i < length ss \<Longrightarrow> cx_alive (ss ! i) \<Longrightarrow> cx_stops (ss ! i) < cx_stops (cs_stop_all cs ss ! i)"
proof (induction cs ss rule: cs_stop_all.induct)
  case (2 ep' j cs ss)
  let ?ss = "if cx_alive (ss ! j) then ss[j := cx_stop (ss ! j)] else ss"
  show ?case
  proof (cases "j = i")
    case True
    have "cx_stops (?ss ! i) \<le> cx_stops (cs_stop_all cs ?ss ! i)" using "2.prems" by (intro cs_stop_all_mono) simp
    with True "2.prems" show ?thesis by (simp add: cx_stop_def)
  next
    case False
    then have "?ss ! i = ss ! i" by simp
    moreover have "(ep, i) \<in> set cs" using "2.prems"(1) False by auto
    ultimately have "cx_stops (?ss ! i) < cx_stops (cs_stop_all cs ?ss ! i)" using "2.prems" by (intro "2.IH") simp_all
    with \<open>?ss ! i = ss ! i\<close> show ?thesis by simp
  qed
qed simp

lemma cs_inv_start: "cs_inv (cxa_server cxa_start)"
  by (simp add: cs_inv_def cxa_start_def cxa_construct_def cs_construct_def)

lemma cs_while_inv:
  "pending s = [] \<Longrightarrow> \<forall>c \<in> set (cs_sessions s). cs_session_ok c \<Longrightarrow>
     \<forall>(ep, i) \<in> set (cs_connections s). i < length (cs_sessions s) \<Longrightarrow> cs_inv (cs_while s)"
  by (auto simp: cs_while_def cs_inv_def initiate_def)

lemma cs_catch_inv:
  "pending s = [] \<Longrightarrow> \<forall>c \<in> set (cs_sessions s). cs_session_ok c \<Longrightarrow>
     \<forall>(ep, i) \<in> set (cs_connections s). i < length (cs_sessions s) \<Longrightarrow> cs_inv (cs_catch x s)"
  using cs_while_inv [of s] by (auto simp: cs_catch_def cs_inv_def)

lemma cs_update_bound:
  "\<forall>(ep, i) \<in> set cs. i < n \<Longrightarrow> \<forall>(ep, i) \<in> set (AList.update k n cs). i < Suc n"
  by (induction cs) (auto split: if_splits)

lemma cs_accepted_inv:
  assumes "cs_inv s" "Async_accept \<in> set (pending s)"
  shows "cs_inv (cs_accepted e sock (settle Async_accept s))"
proof -
  let ?s = "settle Async_accept s"
  have s: "pending ?s = []" "\<forall>c \<in> set (cs_sessions ?s). cs_session_ok c"
      "\<forall>(ep, i) \<in> set (cs_connections ?s). i < length (cs_sessions ?s)"
    using assms by (auto simp: cs_inv_def settle_def split: if_splits)
  show ?thesis
  proof (cases "e = None \<and> (\<exists>ep. sock = Inr ep)")
    case True
    then obtain ep where ep: "e = None" "sock = Inr ep" by blast
    let ?cs = "AList.update ep (length (cs_sessions ?s)) (cs_connections ?s)"
    have "cs_inv (cs_while (?s\<lparr>cs_connections := ?cs, cs_sessions := cs_sessions ?s @ [cs_greeted (length ?cs) ep]\<rparr>))"
      using s cs_greeted_ok(1) [of "length ?cs" ep] cs_update_bound [OF s(3), of ep] by (intro cs_while_inv) simp_all
    with ep show ?thesis by (simp add: cs_accepted_def Let_def)
  next
    case False
    with cs_catch_inv [OF s] show ?thesis by (cases e; cases sock) (auto simp: cs_accepted_def)
  qed
qed

lemma cxa_step_ok:
  assumes "cs_inv (cxa_server a)" "cxa_enabled a e"
  shows "\<exists>b. cxa_step a e = Inr b \<and> cs_inv (cxa_server b)"
proof (cases e)
  case Cxa_run
  with assms show ?thesis by (auto simp: cxa_handle_run_def cs_run_def cs_inv_def)
next
  case (Cxa_signal x)
  with assms cs_stop_all_ok show ?thesis
    by (auto simp: cxa_handle_signal_def cs_handle_stop_def Let_def cs_inv_def perform_def)
next
  case Cxa_loop_begin
  with assms cs_while_inv [of "cxa_server a"] show ?thesis by (simp add: cs_inv_def)
next
  case (Cxa_accept_done x sock)
  with assms cs_accepted_inv show ?thesis by simp
next
  case (Cxa_session i ev)
  let ?c = "cs_sessions (cxa_server a) ! i"
  from Cxa_session assms have i: "i < length (cs_sessions (cxa_server a))" "cx_enabled ?c ev" "cs_session_ok ?c"
    by (auto simp: cs_inv_def)
  then obtain d where d: "cx_step ?c ev = Inr d"
    using cx_step_ok [of ?c ev] cx_reachable_inv [of ?c] by (auto simp: cs_session_ok_def)
  from cs_session_step [OF i(3,2) d] i(1) d assms(1) Cxa_session show ?thesis
    by (auto simp: Let_def cs_inv_def dest!: set_update_subset_insert [THEN subsetD])
qed

lemma cxa_reachable_inv: "cxa_reachable a \<Longrightarrow> cs_inv (cxa_server a)"
  by (induction rule: reachable_invariant) (use cs_inv_start cxa_step_ok in fastforce)+

text \<open>Once the accepting coroutine is over it stays so, and no session is added.\<close>

lemma cs_over_step:
  assumes "cs_inv (cxa_server a)" "cs_loop (cxa_server a) = Loop_over" "cxa_enabled a e" "cxa_step a e = Inr b"
  shows "cs_loop (cxa_server b) = Loop_over \<and> length (cs_sessions (cxa_server b)) = length (cs_sessions (cxa_server a))"
  using assms
  by (cases e) (auto simp: cs_inv_def cxa_handle_signal_def cs_handle_stop_def perform_def Let_def and_then_Inr)

lemma cs_over_run:
  "run cxa_enabled cxa_step a es = Some b \<Longrightarrow> cs_inv (cxa_server a) \<Longrightarrow> cs_loop (cxa_server a) = Loop_over \<Longrightarrow>
     cs_inv (cxa_server b) \<and> cs_loop (cxa_server b) = Loop_over \<and>
     length (cs_sessions (cxa_server b)) = length (cs_sessions (cxa_server a))"
proof (induction rule: run_induct)
  case (Cons a e es u)
  have "cs_inv (cxa_server u)" using cxa_step_ok [OF Cons.prems(1) Cons.hyps(1)] Cons.hyps(2) by auto
  with cs_over_step [OF Cons.prems Cons.hyps(1,2)] Cons.IH show ?case by simp
qed simp

lemma cs_accepted_error:
  assumes "e = Some x \<or> e = None \<and> sock = Inl x" "x \<noteq> connection_aborted"
  shows "cs_accepted e sock s = s\<lparr>cs_loop := Loop_over\<rparr>"
  using assms by (auto simp: cs_accepted_def cs_catch_def)

section \<open>Properties\<close>

text \<open>
  Visitors are greeted first: what a session of the coroutine server writes begins with the
  four lines of the greeting, as far as it has got with them.
\<close>

theorem cs_visitors_greeted:
  assumes "cxa_reachable a" "c \<in> set (cs_sessions (cxa_server a))"
  shows "\<exists>n ep. prefix (cx_written c) (srv_welcome n ep) \<or> prefix (srv_welcome n ep) (cx_written c)"
proof -
  have "cs_session_ok c" using cxa_reachable_inv [OF assms(1)] assms(2) by (simp add: cs_inv_def)
  then obtain n ep where "cx_inv c" "prefix (srv_welcome n ep) (cx_sent c)"
    unfolding cs_session_ok_def using cx_reachable_inv by blast
  with cx_written_prefix [of c] show ?thesis using prefix_same_cases by blast
qed

theorem cs_visitors_greeted_witness:
  "\<exists>a c n ep. cxa_reachable a \<and> cs_sessions (cxa_server a) = [c] \<and>
     (prefix (cx_written c) (srv_welcome n ep) \<or> prefix (srv_welcome n ep) (cx_written c))"
proof -
  obtain a c where r: "run cxa_enabled cxa_step cxa_start [Cxa_run, Cxa_loop_begin, Cxa_accept_done None (Inr (''::1'', 99))] = Some a"
    and c: "cs_sessions (cxa_server a) = [c]"
    by (simp add: cxa_start_def cxa_defs cs_defs initiate_def settle_def Let_def)
  have "c \<in> set (cs_sessions (cxa_server a))" by (simp add: c)
  from cs_visitors_greeted [OF run_reachable [OF r] this] run_reachable [OF r] c show ?thesis by blast
qed

text \<open>
  One bad peer ends the server silently: when an accept fails with anything but an aborted
  connection, or the peer is gone before its endpoint is asked for, the exception leaves the
  accepting coroutine and is dropped; from then on no accept is outstanding and no session is ever
  added, while the program keeps running.
\<close>

theorem cs_bad_peer_ends_accepting:
  assumes "cxa_reachable a" "cxa_enabled a (Cxa_accept_done e sock)"
    and "e = Some x \<or> e = None \<and> sock = Inl x" "x \<noteq> connection_aborted"
    and "run cxa_enabled cxa_step a (Cxa_accept_done e sock # es) = Some b"
  shows "pending (cxa_server b) = [] \<and> length (cs_sessions (cxa_server b)) = length (cs_sessions (cxa_server a))"
proof -
  let ?u = "a\<lparr>cxa_server := (settle Async_accept (cxa_server a))\<lparr>cs_loop := Loop_over\<rparr>\<rparr>"
  have u: "cxa_step a (Cxa_accept_done e sock) = Inr ?u" using cs_accepted_error [OF assms(3,4)] by simp
  have "cs_inv (cxa_server ?u)" using cxa_step_ok [OF cxa_reachable_inv [OF assms(1)] assms(2)] unfolding u by blast
  moreover have "run cxa_enabled cxa_step ?u es = Some b" using assms(5) u by (simp add: run_Cons_Some del: run.simps cxa_step.simps)
  ultimately show ?thesis using cs_over_run [of ?u es b] by (simp add: cs_inv_def settle_def)
qed

theorem cs_bad_peer_ends_accepting_witness:
  "\<exists>a b. run cxa_enabled cxa_step cxa_start [Cxa_run, Cxa_loop_begin] = Some a \<and>
     run cxa_enabled cxa_step a [Cxa_accept_done None (Inl (other_error 107))] = Some b \<and> pending (cxa_server b) = []"
proof -
  obtain a where r: "run cxa_enabled cxa_step cxa_start [Cxa_run, Cxa_loop_begin] = Some a"
    and e: "cxa_enabled a (Cxa_accept_done None (Inl (other_error 107)))"
    and s: "\<exists>b. run cxa_enabled cxa_step a [Cxa_accept_done None (Inl (other_error 107))] = Some b"
    by (simp add: cxa_start_def cxa_defs cs_defs initiate_def settle_def Let_def)
  from s obtain b where b: "run cxa_enabled cxa_step a [Cxa_accept_done None (Inl (other_error 107))] = Some b" by blast
  from cs_bad_peer_ends_accepting [OF run_reachable [OF r] e _ _ b, of "other_error 107"] b r show ?thesis by auto
qed

text \<open>
  What a signal does: each live session in the connection map is given a stop coroutine, and
  the accepting coroutine does not accept again; but a connection whose accept had already
  completed when the signal was handled still becomes a session, which nobody stops.
\<close>

theorem cxa_signal_effect:
  assumes "cxa_reachable a" "cxa_enabled a (Cxa_signal None)"
  shows "\<exists>b. cxa_step a (Cxa_signal None) = Inr b \<and>
    (\<forall>(ep, i) \<in> set (cs_connections (cxa_server a)).
       cx_alive (cs_sessions (cxa_server a) ! i) \<longrightarrow> 0 < cx_stops (cs_sessions (cxa_server b) ! i)) \<and>
    (Async_accept \<in> set (pending (cxa_server a)) \<longrightarrow>
       (\<exists>d c. cxa_step b (Cxa_accept_done None (Inr ep)) = Inr d \<and> cs_loop (cxa_server d) = Loop_over \<and>
         cs_sessions (cxa_server d) = cs_sessions (cxa_server b) @ [c] \<and> cx_alive c \<and> cx_stops c = 0))"
proof -
  let ?s = "cxa_server a"
  have i: "cs_inv ?s" using cxa_reachable_inv [OF assms(1)] .
  have "0 < cx_stops (cs_stop_all (cs_connections ?s) (cs_sessions ?s) ! j)"
    if "(ep, j) \<in> set (cs_connections ?s)" "cx_alive (cs_sessions ?s ! j)" for ep j
    using cs_stop_all_live [OF that(1) _ that(2)] i that(1) by (force simp: cs_inv_def)
  moreover have "cx_alive (cs_greeted n ep)" for n using cs_greeted_ok(3) [of n ep] by (simp add: cx_alive_def)
  ultimately show ?thesis
    using cs_greeted_ok(2)
    by (auto simp: cxa_handle_signal_def cs_handle_stop_def perform_def settle_def cs_accepted_def cs_while_def Let_def)
qed

theorem cxa_signal_effect_witness:
  "\<exists>a b. run cxa_enabled cxa_step cxa_start [Cxa_run, Cxa_loop_begin, Cxa_accept_done None (Inr (''::1'', 99))] = Some a \<and>
     cxa_step a (Cxa_signal None) = Inr b \<and> 0 < cx_stops (cs_sessions (cxa_server b) ! 0)"
proof -
  obtain a where r: "run cxa_enabled cxa_step cxa_start [Cxa_run, Cxa_loop_begin, Cxa_accept_done None (Inr (''::1'', 99))] = Some a"
    and e: "cxa_enabled a (Cxa_signal None)" and m: "((''::1'', 99), 0) \<in> set (cs_connections (cxa_server a))"
    and c: "cx_run (cs_sessions (cxa_server a) ! 0) = Run_spawned"
    by (simp add: cxa_start_def cxa_defs cs_defs(1-4,6-) initiate_def settle_def Let_def cs_greeted_ok(3))
  then have "cx_alive (cs_sessions (cxa_server a) ! 0)" by (simp add: cx_alive_def)
  with cxa_signal_effect [OF run_reachable [OF r] e] m r show ?thesis by fastforce
qed

end
