(* ===== verification/Chat_Talk.thy ===== *)
theory Chat_Talk
  imports Conversation Chatterbox Cxx20_Server
begin

text \<open>
  The chatterbox talking to the two servers that listen on its port: every connection of the
  client ends in a session of \<^verbatim>\<open>echo_server\<close> or of the coroutine server \<^verbatim>\<open>cxx20\<close>, and both ends
  send back what they read.
\<close>

section \<open>The ends\<close>

fun echo_reads :: "echo_event \<Rightarrow> string option" where
  "echo_reads (Echo_read_done None m) = Some m"
| "echo_reads _ = None"

fun cc_reads :: "cc_event \<Rightarrow> string option" where
  "cc_reads (Cc_read_done None None m) = Some m"
| "cc_reads _ = None"

fun cx_reads :: "cx_event \<Rightarrow> string option" where
  "cx_reads (Cx_read_done None m) = Some m"
| "cx_reads _ = None"

definition echo_peer :: "(echo_connection, echo_event) peer" where
  "echo_peer = \<lparr>peer_enabled = echo_enabled, peer_step = echo_step, peer_written = echo_written,
     peer_accepted = echo_accepted, peer_reads = echo_reads\<rparr>"

definition cc_peer :: "(chat_connection, cc_event) peer" where
  "cc_peer = \<lparr>peer_enabled = cc_enabled, peer_step = cc_step, peer_written = cc_written,
     peer_accepted = cc_accepted, peer_reads = cc_reads\<rparr>"

definition cx_peer :: "(cx_connection, cx_event) peer" where
  "cx_peer = \<lparr>peer_enabled = cx_enabled, peer_step = cx_step, peer_written = (\<lambda>c. cx_written c),
     peer_accepted = cx_accepted, peer_reads = cx_reads\<rparr>"

lemma peer_sel [simp]:
  "peer_enabled echo_peer = echo_enabled" "peer_step echo_peer = echo_step"
  "peer_written echo_peer = echo_written" "peer_accepted echo_peer = echo_accepted" "peer_reads echo_peer = echo_reads"
  "peer_enabled cc_peer = cc_enabled" "peer_step cc_peer = cc_step"
  "peer_written cc_peer = cc_written" "peer_accepted cc_peer = cc_accepted" "peer_reads cc_peer = cc_reads"
  "peer_enabled cx_peer = cx_enabled" "peer_step cx_peer = cx_step"
  "peer_written cx_peer = (\<lambda>c. cx_written c)" "peer_accepted cx_peer = cx_accepted" "peer_reads cx_peer = cx_reads"
  by (simp_all add: echo_peer_def cc_peer_def cx_peer_def)

section \<open>The receive buffers\<close>

text \<open>A read that succeeds is consumed whole, so the buffer of an outstanding read is empty.\<close>

definition echo_buffer_inv :: "echo_connection \<Rightarrow> bool" where
  "echo_buffer_inv c \<longleftrightarrow> (Read_op \<in> set (pending c) \<or> echo_state c = Handshaking \<longrightarrow> echo_rxbuffer c = [])"

definition cc_buffer_inv :: "chat_connection \<Rightarrow> bool" where
  "cc_buffer_inv c \<longleftrightarrow> (Read_op \<in> set (pending c) \<or> cc_state c = cc_handshaking \<longrightarrow> cc_rxbuffer c = [])"

definition cx_buffer_inv :: "cx_connection \<Rightarrow> bool" where
  "cx_buffer_inv c \<longleftrightarrow> (cx_run c \<noteq> Run_over \<longrightarrow> cx_rxbuffer c = [])"

lemma echo_maybe_send_next_buffer: "echo_maybe_send_next c = Inr d \<Longrightarrow> echo_buffer_inv d = echo_buffer_inv c"
  by (erule echo_maybe_send_next_cases) (auto simp: echo_buffer_inv_def)

lemma echo_handle_send_buffer: "echo_handle_send m c = Inr d \<Longrightarrow> echo_buffer_inv d = echo_buffer_inv c"
  unfolding echo_handle_send_def by (drule echo_maybe_send_next_buffer) (simp add: echo_buffer_inv_def)

lemma cc_maybe_send_next_buffer: "cc_maybe_send_next c = Inr d \<Longrightarrow> cc_buffer_inv d = cc_buffer_inv c"
  by (cases rule: cc_maybe_send_next_cases [of c]) (auto simp: cc_buffer_inv_def)

lemma cc_send_buffer: "cc_send m c = Inr d \<Longrightarrow> cc_buffer_inv d = cc_buffer_inv c"
  unfolding cc_send_def by (drule cc_maybe_send_next_buffer) (simp add: cc_buffer_inv_def)

lemma echo_buffer_step:
  assumes "echo_inv c" "echo_enabled c e" "echo_step c e = Inr d" "echo_buffer_inv c"
  shows "echo_buffer_inv d"
proof (cases e)
  case (Echo_read_done x bs)
  then have "0 < count_list (pending c) Read_op" using assms(2) by simp
  then have one: "count_list (pending c) Read_op = 1" "echo_state c \<noteq> Handshaking"
    using assms(1) by (auto simp: echo_inv_def echo_state_inv_def simp del: count_list_pos)
  then have "Read_op \<notin> set (remove1 Read_op (pending c))" by (simp add: count_list_remove1 flip: count_list_0_iff)
  with one Echo_read_done assms(3) show ?thesis
    by (cases x) (auto simp: echo_handle_rx_def echo_initiate_rx_def and_then_Inr echo_buffer_inv_def
        dest!: echo_handle_send_buffer)
next
  case (Echo_accept_done x)
  show ?thesis
  proof (cases "x = None \<and> echo_ec c = None")
    case True
    with assms(1,2) Echo_accept_done have "echo_state c = Handshaking"
      by (cases "echo_state c") (auto simp: echo_inv_def echo_state_inv_def)
    with assms(3,4) Echo_accept_done True show ?thesis
      by (auto simp: echo_handle_accept_def echo_initiate_rx_def echo_buffer_inv_def
          dest!: echo_maybe_send_next_buffer)
  next
    case False
    with assms(3,4) Echo_accept_done show ?thesis
      by (auto simp: echo_handle_accept_def echo_buffer_inv_def dest: notin_set_remove1 split: if_splits)
  qed
next
  case (Echo_wait_done x n)
  with assms(3,4) show ?thesis
    by (auto simp: echo_handle_timer_def echo_initiate_timer_def echo_handle_stop_def and_then_Inr Let_def
        dest!: echo_handle_send_buffer split: if_splits echo_state_t.splits; auto simp: echo_buffer_inv_def)
next
  case (Echo_write_done x m)
  with assms(3,4) show ?thesis
    by (auto simp: echo_handle_tx_def dest!: echo_maybe_send_next_buffer split: if_splits list.splits)
      (auto simp: echo_buffer_inv_def)
next
  case Echo_stop
  with assms(3,4) show ?thesis
    by (auto simp: echo_handle_stop_def Let_def echo_buffer_inv_def split: echo_state_t.splits)
next
  case Echo_run
  with assms(3,4) show ?thesis
    by (auto simp: echo_handle_run_def echo_initiate_timer_def and_then_Inr Let_def echo_buffer_inv_def)
qed (use assms(3,4) in \<open>auto simp: echo_handle_send_buffer, auto simp: echo_buffer_inv_def\<close>)

lemma cc_buffer_step:
  assumes "cc_inv c" "cc_enabled c e" "cc_step c e = Inr d" "cc_buffer_inv c"
  shows "cc_buffer_inv d"
proof (cases e)
  case (Cc_read_done x at bs)
  then have "0 < count_list (pending c) Read_op" using assms(2) by simp
  then have one: "count_list (pending c) Read_op = 1" "cc_state c = cc_chatting"
    using assms(1) by (auto simp: cc_inv_def cc_state_inv_def simp del: count_list_pos)
  then have "Read_op \<notin> set (remove1 Read_op (pending c))" by (simp add: count_list_remove1 flip: count_list_0_iff)
  with one Cc_read_done assms(3) show ?thesis
    by (cases x; cases at) (auto simp: cc_handle_rx_def cc_initiate_rx_def and_then_Inr cc_buffer_inv_def dest!: cc_send_buffer)
next
  case (Cc_handshake_done x)
  then have "0 < count_list (pending c) Handshake_op" using assms(2) by simp
  then have "cc_state c = cc_handshaking"
    using assms(1) by (auto simp: cc_inv_def cc_state_inv_def simp del: count_list_pos)
  with assms(3,4) Cc_handshake_done show ?thesis
    by (auto simp: cc_handle_handshake_def cc_initiate_rx_def cc_buffer_inv_def
        dest!: cc_maybe_send_next_buffer split: if_splits)
next
  case (Cc_write_done x m)
  with assms(3,4) show ?thesis
    by (auto simp: cc_handle_tx_def dest!: cc_maybe_send_next_buffer split: if_splits list.splits)
      (auto simp: cc_buffer_inv_def)
next
  case (Cc_send m)
  with assms(3,4) show ?thesis by (simp add: cc_send_buffer)
qed (use assms(3,4) in \<open>auto simp: cc_handle_run_def cc_handle_stop_def cc_handle_connect_def
      cc_initiate_handshake_def cc_buffer_inv_def Let_def dest: notin_set_remove1 split: if_splits\<close>)

lemma cx_buffer_step:
  assumes "cx_inv c" "cx_enabled c e" "cx_step c e = Inr d" "cx_buffer_inv c"
  shows "cx_buffer_inv d"
proof -
  have "Accept_op \<in> set (pending c) \<Longrightarrow> cx_run c = Run_accepting" "Read_op \<in> set (pending c) \<Longrightarrow> cx_run c = Run_reading"
    using assms(1) by (auto simp: cx_run_inv_def count_list_0_iff split: if_splits)
  with assms(2,3,4) show ?thesis
    by (cases e)
      (auto simp: cx_buffer_inv_def cx_defs initiate_def settle_def perform_def Let_def and_then_Inr
        split: option.splits if_splits cx_state_t.splits prod.splits)
qed

lemma echo_reachable_buffer: "echo_reachable c \<Longrightarrow> echo_buffer_inv c"
proof (induction rule: reachable_invariant)
  case (step c e d)
  then show ?case using echo_buffer_step [OF echo_reachable_inv] by blast
qed (simp add: echo_buffer_inv_def echo_construct_def)

lemma cc_reachable_buffer: "cc_reachable c \<Longrightarrow> cc_buffer_inv c"
proof (induction rule: reachable_invariant)
  case (step c e d)
  then show ?case using cc_buffer_step [OF cc_reachable_inv] by blast
qed (simp add: cc_buffer_inv_def cc_fresh_def)

lemma cx_reachable_buffer: "cx_reachable c \<Longrightarrow> cx_buffer_inv c"
proof (induction rule: reachable_invariant)
  case (step c e d)
  then show ?case using cx_buffer_step [OF cx_reachable_inv] by blast
qed (simp add: cx_buffer_inv_def cx_construct_def)

section \<open>The ends as echoing peers\<close>

lemma echo_echoes:
  assumes "echo_reachable c" "echo_enabled c e" "echo_reads e = Some m"
  shows "echo_accepted c e = [m]"
  using assms echo_reachable_buffer [OF assms(1)]
  by (cases e rule: echo_reads.cases) (auto simp: echo_buffer_inv_def)

lemma cc_echoes:
  assumes "cc_reachable c" "cc_enabled c e" "cc_reads e = Some m"
  shows "cc_accepted c e = [m]"
  using assms cc_reachable_buffer [OF assms(1)]
  by (cases e rule: cc_reads.cases) (auto simp: cc_buffer_inv_def)

lemma cx_echoes:
  assumes "cx_reachable c" "cx_enabled c e" "cx_reads e = Some m"
  shows "cx_accepted c e = [m]"
  using assms cx_reachable_buffer [OF assms(1)] cx_reachable_inv [OF assms(1)]
  by (cases e rule: cx_reads.cases) (auto simp: cx_buffer_inv_def cx_run_inv_def count_list_0_iff)

text \<open>The histories only grow.\<close>

lemma writes_prefix: "prefix xs ys \<Longrightarrow> prefix (writes xs) (writes ys)"
  by (auto simp: prefix_def)

lemma cc_maybe_send_next_mono: "cc_maybe_send_next c = Inr d \<Longrightarrow> prefix (started c) (started d)"
  by (cases rule: cc_maybe_send_next_cases [of c]) auto

lemma cc_started_mono:
  assumes "cc_step c e = Inr d"
  shows "prefix (started c) (started d)"
  using assms by (cases e)
    (auto simp: cc_handle_run_def cc_handle_stop_def cc_send_def cc_handle_connect_def cc_initiate_handshake_def
      cc_handle_handshake_def cc_handle_rx_def cc_initiate_rx_def cc_handle_tx_def and_then_Inr Let_def
      dest!: cc_maybe_send_next_mono append_prefixD split: if_splits list.splits)

lemma cx_started_mono:
  assumes "cx_step c e = Inr d"
  shows "prefix (started c) (started d)"
  using assms by (cases e)
    (auto simp: cx_defs initiate_def settle_def perform_def and_then_Inr Let_def
      split: option.splits if_splits cx_state_t.splits prod.splits)


interpretation echo_end: echoing_peer echo_peer echo_construct echo_in_flight echo_backlog
proof unfold_locales
  show "prefix (peer_written echo_peer c) (peer_written echo_peer d)"
    if "peer_step echo_peer c e = Inr d" for c e d
    using echo_started_mono that by (simp add: echo_written_def writes_prefix)
qed (use echo.start_law echo.flow_law echo.single_write_law echo_echoes in simp_all)

interpretation cc_end: echoing_peer cc_peer cc_fresh cc_in_flight cc_backlog
proof unfold_locales
  show "prefix (peer_written cc_peer c) (peer_written cc_peer d)"
    if "peer_step cc_peer c e = Inr d" for c e d
    using cc_started_mono that by (simp add: cc_written_def writes_prefix)
qed (use cc.start_law cc.flow_law cc.single_write_law cc_echoes in simp_all)

interpretation cx_end: echoing_peer cx_peer cx_construct "\<lambda>c. writes (pending c)" cx_backlog
proof unfold_locales
  show "prefix (peer_written cx_peer c) (peer_written cx_peer d)"
    if "peer_step cx_peer c e = Inr d" for c e d
    using cx_started_mono that by (simp add: writes_prefix)
qed (use cx.start_law cx.flow_law cx.single_write_law cx_echoes in simp_all)

section \<open>The conversations\<close>

text \<open>The session as the server leaves it after accepting, and a new client connection.\<close>

interpretation echo_chat: conversation echo_peer echo_construct echo_in_flight echo_backlog
  cc_peer cc_fresh cc_in_flight cc_backlog ws "echo_greeted ws" cc_fresh for ws
  by unfold_locales
    (use echo_greeted_reachable cc.start_law reachable_start in \<open>simp_all add: echo_greeted_def echo_flow_defs\<close>)

lemma fold_cx_send_frame:
  "started (fold cx_send ms c) = started c \<and> pending (fold cx_send ms c) = pending c \<and>
     cx_ec (fold cx_send ms c) = cx_ec c \<and> cx_tx (fold cx_send ms c) = cx_tx c"
  by (induction ms arbitrary: c) (simp_all add: cx_send_def)

lemma cs_greeted_state:
  "started (cs_greeted n ep) = []" "cx_ec (cs_greeted n ep) = None" "cx_tx (cs_greeted n ep) = Tx_new"
  by (simp_all add: cs_greeted_def fold_cx_send_frame cx_call_run_def cx_construct_def)

lemma cs_greeted_start:
  "cx_reachable (cs_greeted n ep)" "cx_backlog (cs_greeted n ep) = srv_welcome n ep"
proof -
  have "cx_reachable (cx_call_run cx_construct)"
    using reachable_step [OF reachable_start, of cx_enabled cx_construct Cx_run cx_step] by (simp add: cx_construct_def)
  from fold_cx_send [OF this, of "srv_welcome n ep"]
  show "cx_reachable (cs_greeted n ep)" "cx_backlog (cs_greeted n ep) = srv_welcome n ep"
    using cs_greeted_state(1) [of n ep] by (simp_all add: cx_backlog_def cs_greeted_def cx_call_run_def cx_construct_def)
qed

interpretation cx_chat: conversation cx_peer cx_construct "\<lambda>c. writes (pending c)" cx_backlog
  cc_peer cc_fresh cc_in_flight cc_backlog "srv_welcome n ep" "cs_greeted n ep" cc_fresh for n ep
  by unfold_locales (use cs_greeted_start cs_greeted_state(1) cc.start_law reachable_start in simp_all)

section \<open>Progress\<close>

text \<open>
  \<open>calm\<close> events: nothing fails and nobody stops an end. Those that move the conversation on are
  the completions of the handshakes, the reads and the writes.
\<close>

fun echo_moves :: "echo_event \<Rightarrow> bool" where
  "echo_moves (Echo_accept_done e) = (e = None)"
| "echo_moves (Echo_read_done e m) = (e = None)"
| "echo_moves (Echo_write_done e m) = (e = None)"
| "echo_moves _ = False"

fun echo_calm :: "echo_event \<Rightarrow> bool" where
  "echo_calm (Echo_send m) = True"
| "echo_calm (Echo_wait_done e d) = True"
| "echo_calm e = echo_moves e"

fun cc_moves :: "cc_event \<Rightarrow> bool" where
  "cc_moves Cc_run = True"
| "cc_moves (Cc_connect_done e) = (e = None)"
| "cc_moves (Cc_handshake_done e) = (e = None)"
| "cc_moves (Cc_read_done e at m) = (e = None \<and> at = None)"
| "cc_moves (Cc_write_done e m) = (e = None)"
| "cc_moves _ = False"

fun cc_calm :: "cc_event \<Rightarrow> bool" where
  "cc_calm (Cc_send m) = True"
| "cc_calm e = cc_moves e"

definition echo_lively :: "echo_connection \<Rightarrow> bool" where
  "echo_lively c \<longleftrightarrow> started c \<noteq> [] \<and> (echo_ec c = None \<longrightarrow>
     (echo_state c = Handshaking \<and> Accept_op \<in> set (pending c) \<or> echo_state c = Chatting \<and> Read_op \<in> set (pending c)) \<and>
     (echo_sending_state c = Sending \<longrightarrow> writes (pending c) \<noteq> []))"

definition cc_lively :: "chat_connection \<Rightarrow> bool" where
  "cc_lively c \<longleftrightarrow> cc_ec c = None \<and>
     (cc_state c = cc_handshaking \<and> (started c = [] \<or> Connect_op \<in> set (pending c) \<or> Handshake_op \<in> set (pending c)) \<or>
      cc_state c = cc_chatting \<and> Read_op \<in> set (pending c)) \<and>
     (cc_sending_state c = Sending \<longrightarrow> writes (pending c) \<noteq> [])"

lemma echo_maybe_send_next_lively: "echo_maybe_send_next c = Inr d \<Longrightarrow> echo_lively c \<Longrightarrow> echo_lively d"
  by (erule echo_maybe_send_next_cases) (auto simp: echo_lively_def)

lemma echo_handle_send_lively: "echo_handle_send m c = Inr d \<Longrightarrow> echo_lively c \<Longrightarrow> echo_lively d"
  unfolding echo_handle_send_def by (erule echo_maybe_send_next_lively) (simp add: echo_lively_def)

lemma cc_maybe_send_next_lively: "cc_maybe_send_next c = Inr d \<Longrightarrow> cc_lively c \<Longrightarrow> cc_lively d"
  by (cases rule: cc_maybe_send_next_cases [of c]) (auto simp: cc_lively_def)

lemma cc_send_lively: "cc_send m c = Inr d \<Longrightarrow> cc_lively c \<Longrightarrow> cc_lively d"
  unfolding cc_send_def by (erule cc_maybe_send_next_lively) (simp add: cc_lively_def)

lemma echo_lively_step:
  assumes "echo_inv c" "echo_enabled c e" "echo_step c e = Inr d" "echo_lively c" "echo_calm e"
  shows "echo_lively d"
proof (cases e)
  case (Echo_accept_done x)
  show ?thesis
  proof (cases "echo_ec c")
    case None
    with assms(1,2,4) Echo_accept_done have "echo_state c = Handshaking" "echo_sending_state c = Send_idle"
      by (auto simp: echo_lively_def echo_inv_def echo_state_inv_def echo_send_inv_def split: if_splits)
        (cases "echo_sending_state c"; simp)
    with assms(3-5) Echo_accept_done None show ?thesis
      by (auto simp: echo_handle_accept_def echo_initiate_rx_def echo_lively_def[of c]
          elim!: echo_maybe_send_next_lively) (simp add: echo_lively_def)
  next
    case Some
    with assms(3,4) Echo_accept_done show ?thesis by (auto simp: echo_handle_accept_def echo_lively_def)
  qed
next
  case (Echo_read_done x m)
  with assms(3-5) show ?thesis
    by (auto simp: echo_handle_rx_def echo_initiate_rx_def and_then_Inr elim!: echo_handle_send_lively)
      (simp add: echo_lively_def)
next
  case (Echo_write_done x m)
  with assms(3-5) show ?thesis
    by (auto simp: echo_handle_tx_def elim!: echo_maybe_send_next_lively split: list.splits)
      (auto simp: echo_lively_def)
next
  case (Echo_wait_done x n)
  have timer: "echo_lively d" if "echo_initiate_timer c = Inr d" "echo_lively c" for c d
    using that by (auto simp: echo_initiate_timer_def echo_lively_def and_then_Inr Let_def)
  have stop: "echo_lively (echo_handle_stop r c)" for r c
    by (auto simp: echo_handle_stop_def echo_lively_def Let_def split: echo_state_t.splits)
  have "echo_lively (settle (Wait_op n) c)" using assms(4) by (simp add: echo_lively_def)
  with Echo_wait_done assms(3) timer stop show ?thesis
    by (auto simp: echo_handle_timer_def and_then_Inr dest!: echo_handle_send_lively split: if_splits)
qed (use assms in \<open>auto simp: echo_handle_send_lively\<close>)

lemma cc_lively_step:
  assumes "cc_inv c" "cc_enabled c e" "cc_step c e = Inr d" "cc_lively c" "cc_calm e"
  shows "cc_lively d"
proof (cases e)
  case Cc_run
  with assms show ?thesis by (auto simp: cc_handle_run_def cc_lively_def cc_inv_def cc_state_inv_def)
next
  case (Cc_connect_done x)
  then have "0 < count_list (pending c) Connect_op" using assms(2) by simp
  then have "cc_state c = cc_handshaking"
    using assms(1) by (auto simp: cc_inv_def cc_state_inv_def simp del: count_list_pos)
  with Cc_connect_done assms(3-5) show ?thesis
    by (auto simp: cc_handle_connect_def cc_initiate_handshake_def cc_lively_def)
next
  case (Cc_handshake_done x)
  then have "0 < count_list (pending c) Handshake_op" using assms(2) by simp
  then have "cc_state c = cc_handshaking"
    using assms(1) by (auto simp: cc_inv_def cc_state_inv_def simp del: count_list_pos)
  moreover from this have "cc_sending_state c \<noteq> Sending"
    using assms(1) by (auto simp: cc_inv_def cc_send_pre_def)
  ultimately have "cc_lively (initiate Read_op ((settle Handshake_op c)\<lparr>cc_state := cc_chatting\<rparr>))"
    using assms(4) by (simp add: cc_lively_def)
  moreover have "cc_ec c = None" using assms(4) by (simp add: cc_lively_def)
  ultimately show ?thesis using Cc_handshake_done assms(3,5)
    by (auto simp: cc_handle_handshake_def cc_initiate_rx_def and_then_Inr elim!: cc_maybe_send_next_lively split: if_splits)
next
  case (Cc_read_done x at m)
  with assms(3-5) show ?thesis
    by (auto simp: cc_handle_rx_def cc_initiate_rx_def and_then_Inr elim!: cc_send_lively)
      (simp add: cc_lively_def)
next
  case (Cc_write_done x m)
  with assms(3-5) show ?thesis
    by (auto simp: cc_handle_tx_def elim!: cc_maybe_send_next_lively split: list.splits)
      (auto simp: cc_lively_def)
qed (use assms in \<open>auto simp: cc_send_lively\<close>)

fun cx_moves :: "cx_event \<Rightarrow> bool" where
  "cx_moves Cx_run_begin = True"
| "cx_moves Cx_tx_begin = True"
| "cx_moves Cx_pop_done = True"
| "cx_moves (Cx_accept_done e) = (e = None)"
| "cx_moves (Cx_read_done e m) = (e = None)"
| "cx_moves (Cx_write_done e m) = (e = None)"
| "cx_moves _ = False"

fun cx_calm :: "cx_event \<Rightarrow> bool" where
  "cx_calm (Cx_send m) = True"
| "cx_calm e = cx_moves e"

definition cx_lively :: "cx_connection \<Rightarrow> bool" where
  "cx_lively c \<longleftrightarrow> cx_ec c = None \<and> cx_run c \<in> {Run_spawned, Run_accepting, Run_reading} \<and> cx_tx c \<noteq> Tx_over \<and>
     (cx_run c = Run_reading \<longrightarrow> cx_tx c \<noteq> Tx_new)"

lemma cx_pop_some:
  assumes "cx_inv c" "cx_lively c" "cx_popped c < length (aq_posts (cx_txqueue c))"
  shows "fst (snd (aq_posts (cx_txqueue c) ! cx_popped c)) = None"
proof -
  have "\<not> cx_queue_stopped c"
    using assms(1,2) unfolding cx_queue_stopped_channel by (auto simp: cx_tx_inv_def tx_inv_def cx_lively_def split: if_splits)
  then have "\<forall>p \<in> set (aq_posts (cx_txqueue c)). fst (snd p) = None" by (fastforce simp: cx_queue_stopped_def)
  with nth_mem [OF assms(3)] show ?thesis by blast
qed

lemma cx_lively_step:
  assumes "cx_inv c" "cx_enabled c e" "cx_step c e = Inr d" "cx_lively c" "cx_calm e"
  shows "cx_lively d"
proof (cases e)
  case Cx_pop_done
  with assms(2-4) cx_pop_some [OF assms(1,4)] show ?thesis
    by (auto simp: cx_lively_def cx_tx_popped_def initiate_def split: prod.splits option.splits)
next
  case (Cx_accept_done x)
  with assms(3-5) show ?thesis
    by (auto simp: cx_lively_def cx_run_accepted_def cx_rx_read_def cx_on_connect_def initiate_def settle_def
        split: option.splits)
next
  case (Cx_read_done x m)
  with assms(3-5) have "cx_ec d = cx_ec c \<and> cx_tx d = cx_tx c \<and> cx_run d = Run_reading"
    by (auto simp: cx_rx_resume_def cx_rx_read_def cx_send_def initiate_def settle_def Let_def)
  moreover have "cx_run c = Run_reading"
    using assms(1,2) Cx_read_done by (auto simp: cx_run_inv_def count_list_0_iff split: if_splits)
  ultimately show ?thesis using assms(4) by (simp add: cx_lively_def)
qed (use assms in \<open>auto simp: cx_lively_def cx_defs initiate_def settle_def and_then_Inr Let_def split: option.splits\<close>)

lemma echo_open_total: "echo_reachable c \<Longrightarrow> echo_enabled c e \<Longrightarrow> echo_ec c = None \<Longrightarrow> \<exists>d. echo_step c e = Inr d"
  using echo_fault_iff [of c e] by (cases "echo_step c e") auto

lemma cc_open_total:
  assumes "cc_reachable c" "cc_enabled c e" "cc_ec c = None" "cc_moves e"
  shows "\<exists>d. cc_step c e = Inr d"
proof -
  have "\<not> (\<exists>at bytes. e = Cc_read_done None at bytes \<and> (at \<noteq> None \<or> cc_ec c \<noteq> None))"
    using assms(3,4) by auto
  with cc_step_ok [OF cc_reachable_inv [OF assms(1)] assms(2)] show ?thesis by (auto simp only: if_False)
qed

text \<open>An end that is alive can complete its handshake, or a write, or has nothing to write and reads.\<close>

lemma echo_alive:
  assumes "echo_reachable c" "echo_lively c" "echo_ec c = None"
  shows "alive echo_peer echo_moves c (echo_backlog c)"
proof (cases "Accept_op \<in> set (pending c)")
  case True
  then show ?thesis
    using echo_open_total [OF assms(1) _ assms(3), of "Echo_accept_done None"]
    by (auto intro!: can_moveI [where e = "Echo_accept_done None"] simp: alive_def)
next
  case False
  show ?thesis
  proof (cases "writes (pending c)")
    case Nil
    with False assms(2,3) have read: "Read_op \<in> set (pending c)" "echo_ready c"
      by (cases "echo_sending_state c"; auto simp: echo_lively_def echo_ready_def)+
    with echo.no_stall_law [OF assms(1)] echo_open_total [OF assms(1) _ assms(3), of "Echo_read_done None m" for m]
    show ?thesis by (auto intro!: can_readI [where ev = "Echo_read_done None"] simp: alive_def)
  next
    case (Cons m ms)
    then show ?thesis
      using echo_open_total [OF assms(1) _ assms(3), of "Echo_write_done None m"]
      by (auto intro!: can_moveI [where e = "Echo_write_done None m"] simp: alive_def)
  qed
qed

lemma cc_alive:
  assumes "cc_reachable c" "cc_lively c"
  shows "alive cc_peer cc_moves c (cc_backlog c)"
proof -
  have total: "cc_enabled c e \<Longrightarrow> cc_moves e \<Longrightarrow> \<exists>d. cc_step c e = Inr d" for e
    using cc_open_total [OF assms(1)] assms(2) by (simp add: cc_lively_def)
  consider "started c = []" | "Connect_op \<in> set (pending c)" | "Handshake_op \<in> set (pending c)"
    | m ms where "writes (pending c) = m # ms" | "Read_op \<in> set (pending c)" "cc_ready c"
    using assms(2) by (cases "writes (pending c)"; cases "cc_sending_state c") (auto simp: cc_lively_def cc_ready_def)
  then show ?thesis
  proof cases
    case 1
    then show ?thesis using total [of Cc_run] by (auto intro!: can_moveI [where e = Cc_run] simp: alive_def)
  next
    case 2
    then show ?thesis using total [of "Cc_connect_done None"]
      by (auto intro!: can_moveI [where e = "Cc_connect_done None"] simp: alive_def)
  next
    case 3
    then show ?thesis using total [of "Cc_handshake_done None"]
      by (auto intro!: can_moveI [where e = "Cc_handshake_done None"] simp: alive_def)
  next
    case (4 m ms)
    then show ?thesis using total [of "Cc_write_done None m"]
      by (auto intro!: can_moveI [where e = "Cc_write_done None m"] simp: alive_def)
  next
    case 5
    with cc.no_stall_law [OF assms(1)] total [of "Cc_read_done None None m" for m] show ?thesis
      by (auto intro!: can_readI [where ev = "Cc_read_done None None"] simp: alive_def)
  qed
qed

lemma cx_alive_end:
  assumes "cx_reachable c" "cx_lively c"
  shows "alive cx_peer cx_moves c (cx_backlog c)"
proof -
  have inv: "cx_inv c" by (rule cx_reachable_inv [OF assms(1)])
  have total: "cx_enabled c e \<Longrightarrow> \<exists>d. cx_step c e = Inr d" for e
    using cx_step_ok [OF inv] by blast
  have move: "alive cx_peer cx_moves c (cx_backlog c)" if "cx_moves e" "cx_reads e = None" "cx_enabled c e" for e
    using that total [of e] by (auto intro!: can_moveI [where e = e] simp: alive_def)
  consider "cx_run c = Run_spawned" | "cx_run c = Run_accepting" | "cx_tx c = Tx_spawned" | "cx_tx c = Tx_writing"
    | "cx_run c = Run_reading" "cx_tx c = Tx_popping"
    using assms(2) by (cases "cx_tx c") (auto simp: cx_lively_def)
  then show ?thesis
  proof cases
    case 1
    then show ?thesis by (intro move [of Cx_run_begin]) simp_all
  next
    case 2
    with inv have "Accept_op \<in> set (pending c)" by (auto simp: cx_run_inv_def simp flip: count_list_pos)
    then show ?thesis by (intro move [of "Cx_accept_done None"]) simp_all
  next
    case 3
    then show ?thesis by (intro move [of Cx_tx_begin]) simp_all
  next
    case 4
    with inv obtain m ms where "writes (pending c) = m # ms" by (cases "writes (pending c)") (auto simp: cx_tx_inv_def)
    then show ?thesis by (intro move [of "Cx_write_done None m"]) simp_all
  next
    case 5
    show ?thesis
    proof (cases "cx_popped c < length (aq_posts (cx_txqueue c))")
      case True
      then show ?thesis by (intro move [of Cx_pop_done]) simp_all
    next
      case False
      then have "ch_waiter (aq_channel (cx_txqueue c)) \<noteq> None"
        using inv 5 by (auto simp: cx_tx_inv_def tx_inv_def aq_channel_def split: if_splits)
      then have "cx_ready c" using inv assms(2)
        by (auto simp: cx_ready_def cx_lively_def cx_tx_inv_def aq_settled_def aq_channel_def)
      moreover have "Read_op \<in> set (pending c)" using inv 5 by (auto simp: cx_run_inv_def simp flip: count_list_pos)
      ultimately show ?thesis
        using cx.no_stall_law [OF assms(1)] total [of "Cx_read_done None m" for m]
        by (auto intro!: can_readI [where ev = "Cx_read_done None"] simp: alive_def)
    qed
  qed
qed

section \<open>Properties\<close>

abbreviation echo_chat_start :: "nat \<Rightarrow> endpoint \<Rightarrow> (echo_connection, chat_connection) talk" where
  "echo_chat_start n ep \<equiv> talk_start (srv_welcome n ep) (echo_greeted (srv_welcome n ep)) cc_fresh"

abbreviation cx_chat_start :: "nat \<Rightarrow> endpoint \<Rightarrow> (cx_connection, chat_connection) talk" where
  "cx_chat_start n ep \<equiv> talk_start (srv_welcome n ep) (cs_greeted n ep) cc_fresh"

abbreviation echo_chat_run :: "(echo_connection, chat_connection) talk \<Rightarrow> (echo_event, cc_event) talk_event list \<Rightarrow>
    (echo_connection, chat_connection) talk option" where
  "echo_chat_run \<equiv> run (talk_enabled echo_peer cc_peer) (talk_step echo_peer cc_peer)"

abbreviation cx_chat_run :: "(cx_connection, chat_connection) talk \<Rightarrow> (cx_event, cc_event) talk_event list \<Rightarrow>
    (cx_connection, chat_connection) talk option" where
  "cx_chat_run \<equiv> run (talk_enabled cx_peer cc_peer) (talk_step cx_peer cc_peer)"

text \<open>What the public functions and the timer make an end say of its own.\<close>

lemma echo_own: "(\<And>m. e \<noteq> Echo_send m) \<Longrightarrow> set (own_messages echo_peer c e) \<subseteq> range echo_timer_message"
  by (cases "(c, e)" rule: echo_accepted.cases) (auto simp: own_messages_def split: if_splits)

lemma cc_own: "(\<And>m. e \<noteq> Cc_send m) \<Longrightarrow> own_messages cc_peer c e = []"
  by (cases e rule: cc_reads.cases) (auto simp: own_messages_def)

lemma cx_own: "(\<And>m. e \<noteq> Cx_send m) \<Longrightarrow> own_messages cx_peer c e = []"
  by (cases e rule: cx_reads.cases) (auto simp: own_messages_def)

text \<open>
  C2. Nothing is lost between the echo server and the chatterbox: at any time, whatever has happened,
  the messages on their way in either direction (written by one end and not read by the other, the
  ones whose write failed included) and those queued at either end are together exactly the messages
  the two ends have said, each as often as it was said; and the server's greeting is among them.
\<close>

theorem chat_conserves_messages:
  assumes "echo_chat_run (echo_chat_start n ep) es = Some k"
  shows "mset (to_far echo_peer k) + mset (echo_backlog (body (near k))) +
      mset (to_near cc_peer k) + mset (cc_backlog (body (far k))) = mset (said (near k)) + mset (said (far k)) \<and>
    prefix (srv_welcome n ep) (said (near k))"
  using echo_chat.talk_conserves [OF run_reachable [OF assms]] echo_chat.talk_said [OF run_reachable [OF assms]] by simp

text \<open>A session that has sent one message, which the client has read and sent back.\<close>

theorem chat_conserves_messages_witness:
  "\<exists>es k. echo_chat_run (echo_chat_start 7 (''::1'', 99)) es = Some k \<and> length (heard (near k)) = 1 \<and>
     length (to_far echo_peer k) = 1 \<and> size (mset (to_far echo_peer k) + mset (echo_backlog (body (near k))) +
       mset (to_near cc_peer k) + mset (cc_backlog (body (far k)))) = size (mset (said (near k)) + mset (said (far k)))"
proof -
  obtain a b c d where w: "srv_welcome 7 (''::1'', 99) = [a, b, c, d]" by (simp add: srv_welcome_def)
  let ?es = "[Far Cc_run, Far (Cc_connect_done None), Near (Echo_accept_done None), Far (Cc_handshake_done None),
    Far (Cc_read_done None None a), Near (Echo_write_done None a), Near (Echo_read_done None a)]"
  obtain k where r: "echo_chat_run (echo_chat_start 7 (''::1'', 99)) ?es = Some k"
    and k: "length (heard (near k)) = 1" "length (to_far echo_peer k) = 1"
    by (simp add: w talk_start_def echo_greeted_def echo_defs cc_defs side_enabled_def side_step_def delivered_def
        own_messages_def initiate_def settle_def echo_written_def cc_written_def to_far_def Let_def)
  from chat_conserves_messages [OF r] r k show ?thesis by (metis (no_types, lifting))
qed

text \<open>
  The chatterbox hears nothing but what the server says: while no message is given to the public
  \<open>send\<close> functions from elsewhere, every message a client connection of the chatterbox receives is
  a line of the greeting or an announcement of the session timer, however often it has gone round.
\<close>

theorem chat_hears_only_the_server:
  assumes "echo_chat_run (echo_chat_start n ep) es = Some k"
    "\<forall>m. Near (Echo_send m) \<notin> set es \<and> Far (Cc_send m) \<notin> set es"
  shows "set (heard (far k)) \<subseteq> set (srv_welcome n ep) \<union> range echo_timer_message"
proof -
  have "voices (far k) \<subseteq> set (srv_welcome n ep) \<union> range echo_timer_message"
  proof (rule echo_chat.talk_only [OF assms(1), THEN conjunct2, THEN conjunct2])
    fix e b assume "Near e \<in> set es"
    with assms(2) have "\<And>m. e \<noteq> Echo_send m" by blast
    then show "set (own_messages echo_peer b e) \<subseteq> set (srv_welcome n ep) \<union> range echo_timer_message"
      using echo_own by blast
  next
    fix e b assume "Far e \<in> set es"
    with assms(2) have "own_messages cc_peer b e = []" by (intro cc_own) blast
    then show "set (own_messages cc_peer b e) \<subseteq> set (srv_welcome n ep) \<union> range echo_timer_message" by simp
  qed simp
  then show ?thesis by (simp add: voices_def)
qed

theorem chat_hears_only_the_server_witness:
  "\<exists>es k. echo_chat_run (echo_chat_start 7 (''::1'', 99)) es = Some k \<and> length (heard (far k)) = 1 \<and>
     set (heard (far k)) \<subseteq> set (srv_welcome 7 (''::1'', 99)) \<union> range echo_timer_message"
proof -
  obtain a b c d where w: "srv_welcome 7 (''::1'', 99) = [a, b, c, d]" by (simp add: srv_welcome_def)
  let ?es = "[Far Cc_run, Far (Cc_connect_done None), Near (Echo_accept_done None), Far (Cc_handshake_done None),
    Far (Cc_read_done None None a)]"
  obtain k where r: "echo_chat_run (echo_chat_start 7 (''::1'', 99)) ?es = Some k" and k: "length (heard (far k)) = 1"
    by (simp add: w talk_start_def echo_greeted_def echo_defs cc_defs side_enabled_def side_step_def delivered_def
        own_messages_def initiate_def settle_def echo_written_def cc_written_def Let_def)
  have "\<forall>m. Near (Echo_send m) \<notin> set ?es \<and> Far (Cc_send m) \<notin> set ?es" by simp
  from chat_hears_only_the_server [OF r this] r k show ?thesis by blast
qed

text \<open>
  C10. Against the coroutine server the chatterbox goes round in circles: while no message is given to
  the public \<open>send\<close> functions from elsewhere, the messages a client connection receives are the
  four lines of the greeting in order, over and over again.
\<close>

theorem cx_chat_repeats_greeting:
  assumes "cx_chat_run (cx_chat_start n ep) es = Some k"
    "\<forall>m. Near (Cx_send m) \<notin> set es \<and> Far (Cc_send m) \<notin> set es" "i < length (heard (far k))"
  shows "heard (far k) ! i = srv_welcome n ep ! (i mod 4)"
proof -
  have "own_messages cx_peer b e = []" if "Near e \<in> set es" for e b
    by (rule cx_own) (use that assms(2) in blast)
  moreover have "own_messages cc_peer b e = []" if "Far e \<in> set es" for e b
    by (rule cc_own) (use that assms(2) in blast)
  moreover have "srv_welcome n ep \<noteq> []" "length (srv_welcome n ep) = 4" by (simp_all add: srv_welcome_def)
  ultimately show ?thesis using cx_chat.talk_rhythm [OF assms(1) _ _ _ assms(3)] by simp
qed

text \<open>The fifth message a client receives is the first one again.\<close>

theorem cx_chat_repeats_greeting_witness:
  "\<exists>es k. cx_chat_run (cx_chat_start 7 (''::1'', 99)) es = Some k \<and> 4 < length (heard (far k)) \<and>
     heard (far k) ! 4 = srv_welcome 7 (''::1'', 99) ! 0"
proof -
  obtain a b c d where w: "srv_welcome 7 (''::1'', 99) = [a, b, c, d]" by (simp add: srv_welcome_def)
  let ?pass = "\<lambda>m. [Near Cx_pop_done, Far (Cc_read_done None None m), Near (Cx_write_done None m), Far (Cc_write_done None m)]"
  let ?es = "[Far Cc_run, Near Cx_run_begin, Far (Cc_connect_done None), Near (Cx_accept_done None),
    Near Cx_tx_begin, Far (Cc_handshake_done None)] @ ?pass a @ ?pass b @ ?pass c @ ?pass d @
    [Near (Cx_read_done None a), Near Cx_pop_done, Far (Cc_read_done None None a)]"
  obtain k where r: "cx_chat_run (cx_chat_start 7 (''::1'', 99)) ?es = Some k" and k: "4 < length (heard (far k))"
    by (simp add: w talk_start_def cs_greeted_def cx_defs aq_defs cc_defs side_enabled_def side_step_def delivered_def
        own_messages_def initiate_def settle_def cc_written_def Let_def)
  have "\<forall>m. Near (Cx_send m) \<notin> set ?es \<and> Far (Cc_send m) \<notin> set ?es" by simp
  from cx_chat_repeats_greeting [OF r this k] have "heard (far k) ! 4 = srv_welcome 7 (''::1'', 99) ! 0" by simp
  with r k show ?thesis by blast
qed

lemma on_side_set:
  "\<forall>x \<in> set es. on_side f g x \<Longrightarrow> Near d \<in> set es \<Longrightarrow> f d" "\<forall>x \<in> set es. on_side f g x \<Longrightarrow> Far e \<in> set es \<Longrightarrow> g e"
  by fastforce+

lemma echo_chat_lively:
  assumes "echo_chat_run (echo_chat_start n ep) es = Some k" "\<forall>e \<in> set es. on_side echo_calm cc_calm e"
  shows "(echo_reachable (body (near k)) \<and> echo_lively (body (near k))) \<and> (cc_reachable (body (far k)) \<and> cc_lively (body (far k)))"
proof (rule talk_run_keeps [OF assms(1)])
  show "echo_reachable (body (near (echo_chat_start n ep))) \<and> echo_lively (body (near (echo_chat_start n ep)))"
    using echo_greeted_reachable by (simp add: talk_start_def echo_lively_def echo_greeted_def)
  show "cc_reachable (body (far (echo_chat_start n ep))) \<and> cc_lively (body (far (echo_chat_start n ep)))"
    using reachable_start [of cc_enabled cc_step cc_fresh] by (simp add: talk_start_def cc_lively_def cc_fresh_def)
qed (use on_side_set [OF assms(2)] echo_lively_step [OF echo_reachable_inv] cc_lively_step [OF cc_reachable_inv]
    in \<open>auto intro: reachable_step\<close>)

lemma cx_chat_lively:
  assumes "cx_chat_run (cx_chat_start n ep) es = Some k" "\<forall>e \<in> set es. on_side cx_calm cc_calm e"
  shows "(cx_reachable (body (near k)) \<and> cx_lively (body (near k))) \<and> (cc_reachable (body (far k)) \<and> cc_lively (body (far k)))"
proof (rule talk_run_keeps [OF assms(1)])
  show "cx_reachable (body (near (cx_chat_start n ep))) \<and> cx_lively (body (near (cx_chat_start n ep)))"
    using cs_greeted_start(1) cs_greeted_state(2,3) cs_greeted_ok(3) by (simp add: talk_start_def cx_lively_def)
  show "cc_reachable (body (far (cx_chat_start n ep))) \<and> cc_lively (body (far (cx_chat_start n ep)))"
    using reachable_start [of cc_enabled cc_step cc_fresh] by (simp add: talk_start_def cc_lively_def cc_fresh_def)
qed (use on_side_set [OF assms(2)] cx_lively_step [OF cx_reachable_inv] cc_lively_step [OF cc_reachable_inv]
    in \<open>auto intro: reachable_step\<close>)

text \<open>
  C7. The echo server and the chatterbox never fall silent before the session times out: after any
  sequence of events in which no operation fails and nobody stops an end, and while the session is
  not stopped, the completion of a handshake, of a read or of a write is possible, and its handler
  does not fail.
\<close>

theorem chat_never_silent:
  assumes "echo_chat_run (echo_chat_start n ep) es = Some k" "\<forall>e \<in> set es. on_side echo_calm cc_calm e"
    "echo_ec (body (near k)) = None"
  shows "\<exists>e l. on_side echo_moves cc_moves e \<and> talk_enabled echo_peer cc_peer k e \<and>
    talk_step echo_peer cc_peer k e = Inr l"
proof -
  have "srv_welcome n ep \<noteq> []" by (simp add: srv_welcome_def)
  with echo_chat_lively [OF assms(1,2)] show ?thesis
    by (intro echo_chat.talk_moves [OF run_reachable [OF assms(1)]] echo_alive cc_alive assms(3)) simp_all
qed

theorem chat_never_silent_witness:
  "\<exists>es k. echo_chat_run (echo_chat_start 7 (''::1'', 99)) es = Some k \<and> length (heard (near k)) = 1 \<and>
     (\<exists>e l. on_side echo_moves cc_moves e \<and> talk_enabled echo_peer cc_peer k e \<and> talk_step echo_peer cc_peer k e = Inr l)"
proof -
  obtain a b c d where w: "srv_welcome 7 (''::1'', 99) = [a, b, c, d]" by (simp add: srv_welcome_def)
  let ?es = "[Far Cc_run, Far (Cc_connect_done None), Near (Echo_accept_done None), Far (Cc_handshake_done None),
    Far (Cc_read_done None None a), Near (Echo_write_done None a), Near (Echo_read_done None a)]"
  obtain k where r: "echo_chat_run (echo_chat_start 7 (''::1'', 99)) ?es = Some k"
    and k: "length (heard (near k)) = 1" "echo_ec (body (near k)) = None"
    by (simp add: w talk_start_def echo_greeted_def echo_defs cc_defs side_enabled_def side_step_def delivered_def
        own_messages_def initiate_def settle_def echo_written_def cc_written_def Let_def)
  have "\<forall>e \<in> set ?es. on_side echo_calm cc_calm e" by simp
  from chat_never_silent [OF r this k(2)] r k(1) show ?thesis by blast
qed

text \<open>
  C27. The coroutine server and the chatterbox never fall silent at all, having no session timer: after
  any sequence of events in which no operation fails and nobody stops an end, a coroutine that
  begins, an answer of the transmit queue, or the completion of a handshake, a read or a write is
  possible, and its handler does not fail.
\<close>

theorem cx_chat_never_silent:
  assumes "cx_chat_run (cx_chat_start n ep) es = Some k" "\<forall>e \<in> set es. on_side cx_calm cc_calm e"
  shows "\<exists>e l. on_side cx_moves cc_moves e \<and> talk_enabled cx_peer cc_peer k e \<and>
    talk_step cx_peer cc_peer k e = Inr l"
proof -
  have "srv_welcome n ep \<noteq> []" by (simp add: srv_welcome_def)
  with cx_chat_lively [OF assms(1,2)] show ?thesis
    by (intro cx_chat.talk_moves [OF run_reachable [OF assms(1)]] cx_alive_end cc_alive) simp_all
qed

theorem cx_chat_never_silent_witness:
  "\<exists>es k. cx_chat_run (cx_chat_start 7 (''::1'', 99)) es = Some k \<and> length (heard (near k)) = 1 \<and>
     (\<exists>e l. on_side cx_moves cc_moves e \<and> talk_enabled cx_peer cc_peer k e \<and> talk_step cx_peer cc_peer k e = Inr l)"
proof -
  obtain a b c d where w: "srv_welcome 7 (''::1'', 99) = [a, b, c, d]" by (simp add: srv_welcome_def)
  let ?es = "[Far Cc_run, Near Cx_run_begin, Far (Cc_connect_done None), Near (Cx_accept_done None),
    Near Cx_tx_begin, Far (Cc_handshake_done None), Near Cx_pop_done, Far (Cc_read_done None None a), Near (Cx_read_done None a)]"
  obtain k where r: "cx_chat_run (cx_chat_start 7 (''::1'', 99)) ?es = Some k" and k: "length (heard (near k)) = 1"
    by (simp add: w talk_start_def cs_greeted_def cx_defs aq_defs cc_defs side_enabled_def side_step_def delivered_def
        own_messages_def initiate_def settle_def cc_written_def Let_def)
  have "\<forall>e \<in> set ?es. on_side cx_calm cc_calm e" by simp
  from cx_chat_never_silent [OF r this] r k show ?thesis by blast
qed

end
