(* ===== verification/Wss_Transport.thy ===== *)
theory Wss_Transport
  imports Send_Region
begin

text \<open>
  \<^verbatim>\<open>pre-cxx20/blog-2020-09/wss_transport.hpp\<close> and \<^verbatim>\<open>wss_transport.cpp\<close>: the WebSocket
  over TLS transport, a base class. The record is extended by the derived class, and the virtual
  functions are a record of functions the base class calls through.
\<close>

section \<open>State\<close>

datatype wss_state_t = not_started | connecting | connected | closing | finished

datatype wss_send_state_t = not_sending | sending

text \<open>
  Where the coroutine of \<^verbatim>\<open>connect_op\<close> is suspended: the operation it waits for, or before
  its start, or after its end.
\<close>

datatype connect_point = At_start | At_resolve | At_connect | At_tls | At_handshake | At_end

text \<open>
  What the coroutine asks of the resolver and of the layers of the stream, with the arguments. Endpoints
  are an opaque list of names, the resolver's results.
\<close>

datatype connect_call =
    Call_resolve string string
  | Call_connect "string list"
  | Call_server_name string
  | Call_tls_handshake
  | Call_handshake string string
  | Call_expires_after nat
  | Call_expires_never
  | Call_suggested_timeout
  | Call_user_agent string

text \<open>
  \<open>wss_host\<close>, \<open>wss_port\<close>, \<open>wss_target\<close> and \<open>wss_endpoints\<close> are the data of \<^verbatim>\<open>connect_op\<close>, and
  \<open>wss_calls\<close> is the history of what it asked for; \<open>wss_completions\<close> is the history of the calls of
  \<open>initiate_connect\<close>'s handler and \<open>wss_errors\<close> counts the calls of \<open>on_transport_error\<close>.
\<close>

record wss_transport = "ws_op io" +
  wss_send_queue :: "string list"
  wss_send_state :: wss_send_state_t
  wss_state :: wss_state_t
  wss_rx_buffer :: string
  wss_point :: connect_point
  wss_completions :: "error_code list"
  wss_errors :: nat
  wss_host :: string
  wss_port :: string
  wss_target :: string
  wss_endpoints :: "string list"
  wss_calls :: "connect_call list"

record 's wss_virtual =
  on_start :: "'s \<Rightarrow> 's result"
  on_transport_up :: "'s \<Rightarrow> 's result"
  on_transport_error :: "'s \<Rightarrow> 's"
  on_text_frame :: "string \<Rightarrow> 's \<Rightarrow> 's result"
  on_close :: "'s \<Rightarrow> 's"

text \<open>The base class's own versions of the virtual functions.\<close>

definition wss_virtual_base :: "'s wss_virtual" where
  "wss_virtual_base = \<lparr>on_start = Inr, on_transport_up = Inr, on_transport_error = (\<lambda>s. s),
     on_text_frame = (\<lambda>frame. Inr), on_close = (\<lambda>s. s)\<rparr>"

type_synonym 'z wss = "'z wss_transport_scheme"

section \<open>Sending\<close>

definition wss_start_sending :: "'z wss \<Rightarrow> 'z wss" where
  "wss_start_sending s =
     (if wss_state s = connected \<and> wss_send_state s = not_sending \<and> wss_send_queue s \<noteq> []
      then initiate (Write_op (hd (wss_send_queue s))) (s\<lparr>wss_send_state := sending\<rparr>)
      else s)"

definition wss_send_text_frame :: "string \<Rightarrow> 'z wss \<Rightarrow> 'z wss" where
  "wss_send_text_frame frame s =
     (if wss_state s \<noteq> connected then s
      else wss_start_sending (s\<lparr>wss_send_queue := wss_send_queue s @ [frame]\<rparr>))"

section \<open>Errors\<close>

definition wss_event_transport_error :: "'z wss wss_virtual \<Rightarrow> 'z wss \<Rightarrow> 'z wss" where
  "wss_event_transport_error v s =
     (if wss_state s \<in> {connecting, connected, closing}
      then on_transport_error v (s\<lparr>wss_state := finished, wss_errors := Suc (wss_errors s)\<rparr>)
      else s)"

definition wss_handle_send :: "'z wss wss_virtual \<Rightarrow> error_code \<Rightarrow> 'z wss \<Rightarrow> 'z wss result" where
  "wss_handle_send v e s =
     (case wss_send_queue s of
        [] \<Rightarrow> Inl (Undefined ''pop_front() of an empty deque'')
      | m # ms \<Rightarrow>
          let s1 = s\<lparr>wss_send_state := not_sending, wss_send_queue := ms\<rparr> in
          if e \<noteq> None then Inr (wss_event_transport_error v s1) else Inr (wss_start_sending s1))"

section \<open>Receiving\<close>

definition wss_start_reading :: "'z wss \<Rightarrow> 'z wss" where
  "wss_start_reading s = (if wss_state s \<noteq> connected then s else initiate Read_op s)"

text \<open>What \<^verbatim>\<open>catch (...)\<close> catches: exceptions, not failed assertions or undefined behaviour.\<close>

fun catchable :: "fault \<Rightarrow> bool" where
  "catchable (Assertion what) = False"
| "catchable (Undefined what) = False"
| "catchable (Exit_called n) = False"
| "catchable _ = True"

definition wss_handle_read :: "'z wss wss_virtual \<Rightarrow> error_code \<Rightarrow> bool \<Rightarrow> nat \<Rightarrow> 'z wss \<Rightarrow> 'z wss result" where
  "wss_handle_read v e is_text bytes_transferred s =
     (if e \<noteq> None then Inr (wss_event_transport_error v s)
      else
        case (if is_text then on_text_frame v (take bytes_transferred (wss_rx_buffer s)) s else Inr s) of
          Inl x \<Rightarrow> if catchable x then Inr (wss_event_transport_error v s) else Inl x
        | Inr s1 \<Rightarrow> Inr (wss_start_reading (s1\<lparr>wss_rx_buffer := drop bytes_transferred (wss_rx_buffer s1)\<rparr>)))"

section \<open>Connecting\<close>

definition wss_event_transport_up :: "'z wss wss_virtual \<Rightarrow> 'z wss \<Rightarrow> 'z wss result" where
  "wss_event_transport_up v s =
     and_then (on_transport_up v (s\<lparr>wss_state := connected\<rparr>)) (\<lambda>s.
       Inr (wss_start_reading (wss_start_sending s)))"

text \<open>The handler of \<open>initiate_connect\<close>, called by \<^verbatim>\<open>self.complete(ec)\<close>.\<close>

definition wss_connect_complete :: "'z wss wss_virtual \<Rightarrow> error_code \<Rightarrow> 'z wss \<Rightarrow> 'z wss result" where
  "wss_connect_complete v e s =
     (let s1 = s\<lparr>wss_completions := wss_completions s @ [e]\<rparr> in
      if e \<noteq> None then Inr (wss_event_transport_error v s1) else wss_event_transport_up v s1)"

text \<open>
  One resumption of the coroutine with error code \<open>e\<close>. An error completes the operation and then
  the coroutine goes on with its next step; \<open>sni\<close> is the error of
  \<^verbatim>\<open>SSL_set_tlsext_host_name\<close>.
\<close>

definition wss_call :: "connect_call list \<Rightarrow> 'z wss \<Rightarrow> 'z wss" where
  "wss_call cs s = s\<lparr>wss_calls := wss_calls s @ cs\<rparr>"

definition wss_connect_op :: "'z wss wss_virtual \<Rightarrow> error_code \<Rightarrow> error_code \<Rightarrow> 'z wss \<Rightarrow> 'z wss result" where
  "wss_connect_op v e sni s =
     and_then (if e \<noteq> None then wss_connect_complete v e s else Inr s) (\<lambda>s.
       case wss_point s of
         At_start \<Rightarrow>
           Inr (initiate Resolve_op ((wss_call [Call_resolve (wss_host s) (wss_port s)] s)\<lparr>wss_point := At_resolve\<rparr>))
       | At_resolve \<Rightarrow>
           Inr (initiate Connect_op
             ((wss_call [Call_expires_after 15, Call_connect (wss_endpoints s)] s)\<lparr>wss_point := At_connect\<rparr>))
       | At_connect \<Rightarrow>
           let s1 = wss_call [Call_server_name (wss_host s)] s in
           if sni \<noteq> None then wss_connect_complete v sni (s1\<lparr>wss_point := At_end\<rparr>)
           else Inr (initiate Tls_handshake_op
             ((wss_call [Call_expires_after 15, Call_tls_handshake] s1)\<lparr>wss_point := At_tls\<rparr>))
       | At_tls \<Rightarrow>
           Inr (initiate Handshake_op
             ((wss_call [Call_expires_after 15, Call_handshake (wss_host s) (wss_target s)] s)\<lparr>wss_point := At_handshake\<rparr>))
       | At_handshake \<Rightarrow> wss_connect_complete v e ((wss_call [Call_expires_never] s)\<lparr>wss_point := At_end\<rparr>)
       | At_end \<Rightarrow> Inr s)"

text \<open>The overload the resolver calls: it keeps the results and resumes the coroutine.\<close>

definition wss_connect_resolved :: "'z wss wss_virtual \<Rightarrow> error_code \<Rightarrow> string list \<Rightarrow> 'z wss \<Rightarrow> 'z wss result" where
  "wss_connect_resolved v e results s = wss_connect_op v e None (s\<lparr>wss_endpoints := results\<rparr>)"

text \<open>A new \<^verbatim>\<open>connect_op\<close>: its data, before its first step.\<close>

definition wss_new_connect_op :: "string \<Rightarrow> string \<Rightarrow> string \<Rightarrow> 'z wss \<Rightarrow> 'z wss" where
  "wss_new_connect_op host port target s =
     s\<lparr>wss_point := At_start, wss_host := host, wss_port := port, wss_target := target\<rparr>"

definition wss_initiate_connect ::
    "'z wss wss_virtual \<Rightarrow> string \<Rightarrow> string \<Rightarrow> string \<Rightarrow> 'z wss \<Rightarrow> 'z wss result" where
  "wss_initiate_connect v host port target s =
     (if wss_state s \<noteq> not_started then Inr s
      else wss_connect_op v None None (wss_new_connect_op host port target (s\<lparr>wss_state := connecting\<rparr>)))"

section \<open>Starting and stopping\<close>

definition wss_start :: "'z wss wss_virtual \<Rightarrow> 'z wss \<Rightarrow> 'z wss result" where
  "wss_start v s = (if wss_state s = not_started then on_start v s else Inl (Assertion ''false''))"

definition wss_stop :: "'z wss \<Rightarrow> 'z wss" where
  "wss_stop s = s"

definition wss_initiate_close :: "'z wss \<Rightarrow> 'z wss" where
  "wss_initiate_close s = s"

lemmas wss_defs [model_defs] =
  wss_start_sending_def wss_send_text_frame_def wss_event_transport_error_def wss_handle_send_def
  wss_start_reading_def wss_handle_read_def wss_event_transport_up_def wss_connect_complete_def
  wss_connect_op_def wss_connect_resolved_def wss_new_connect_op_def wss_initiate_connect_def wss_start_def wss_stop_def wss_initiate_close_def

lemma wss_ledger_frame [simp]:
  "wss_send_queue (initiate x s) = wss_send_queue s" "wss_send_queue (settle x s) = wss_send_queue s"
  "wss_send_state (initiate x s) = wss_send_state s" "wss_send_state (settle x s) = wss_send_state s"
  "wss_state (initiate x s) = wss_state s" "wss_state (settle x s) = wss_state s"
  "wss_rx_buffer (initiate x s) = wss_rx_buffer s" "wss_rx_buffer (settle x s) = wss_rx_buffer s"
  "wss_point (initiate x s) = wss_point s" "wss_point (settle x s) = wss_point s"
  "wss_completions (initiate x s) = wss_completions s" "wss_completions (settle x s) = wss_completions s"
  "wss_errors (initiate x s) = wss_errors s" "wss_errors (settle x s) = wss_errors s"
  "wss_host (initiate x s) = wss_host s" "wss_host (settle x s) = wss_host s"
  "wss_port (initiate x s) = wss_port s" "wss_port (settle x s) = wss_port s"
  "wss_target (initiate x s) = wss_target s" "wss_target (settle x s) = wss_target s"
  "wss_endpoints (initiate x s) = wss_endpoints s" "wss_endpoints (settle x s) = wss_endpoints s"
  "wss_calls (initiate x s) = wss_calls s" "wss_calls (settle x s) = wss_calls s"
  by (simp_all add: initiate_def settle_def)

lemma wss_call_frame [simp]:
  "pending (wss_call cs s) = pending s" "started (wss_call cs s) = started s"
  "wss_send_queue (wss_call cs s) = wss_send_queue s" "wss_send_state (wss_call cs s) = wss_send_state s"
  "wss_state (wss_call cs s) = wss_state s" "wss_rx_buffer (wss_call cs s) = wss_rx_buffer s"
  "wss_point (wss_call cs s) = wss_point s" "wss_completions (wss_call cs s) = wss_completions s"
  "wss_errors (wss_call cs s) = wss_errors s" "wss_host (wss_call cs s) = wss_host s"
  "wss_port (wss_call cs s) = wss_port s" "wss_target (wss_call cs s) = wss_target s"
  "wss_endpoints (wss_call cs s) = wss_endpoints s" "wss_calls (wss_call cs s) = wss_calls s @ cs"
  by (simp_all add: wss_call_def)

lemma wss_new_connect_op_frame [simp]:
  "pending (wss_new_connect_op host port target s) = pending s" "started (wss_new_connect_op host port target s) = started s"
  "wss_send_queue (wss_new_connect_op host port target s) = wss_send_queue s"
  "wss_send_state (wss_new_connect_op host port target s) = wss_send_state s"
  "wss_point (wss_new_connect_op host port target s) = At_start"
  by (simp_all add: wss_new_connect_op_def)

lemma wss_start_sending_cases:
  obtains (idle) "wss_start_sending s = s" "wss_state s \<noteq> connected \<or> wss_send_state s = sending \<or> wss_send_queue s = []"
    | (writes) "wss_start_sending s = initiate (Write_op (hd (wss_send_queue s))) (s\<lparr>wss_send_state := sending\<rparr>)"
      "wss_state s = connected" "wss_send_state s = not_sending" "wss_send_queue s \<noteq> []"
proof (cases "wss_state s = connected \<and> wss_send_state s = not_sending \<and> wss_send_queue s \<noteq> []")
  case True
  then show ?thesis using writes by (simp add: wss_start_sending_def)
next
  case False
  moreover have "wss_send_state s \<noteq> not_sending \<Longrightarrow> wss_send_state s = sending" by (cases "wss_send_state s") auto
  ultimately show ?thesis using idle by (auto simp: wss_start_sending_def)
qed

end
