(* ===== verification/Sigint_State.thy ===== *)
theory Sigint_State
  imports Prelude
begin

text \<open>
  \<^verbatim>\<open>pre-cxx20/blog-2020-09/sigint_state.hpp\<close> and \<^verbatim>\<open>sigint_state.cpp\<close>: the two-step
  interrupt of the FMex blog client. A first SIGINT asks for a confirmation, a second one within
  five seconds shuts the program down by invoking the registered slots.
\<close>

section \<open>State\<close>

datatype sig_state_t = inactive | waiting | confirming | exit_state

text \<open>The operations on the signal set and the timer; the last two are the synchronous cancels.\<close>

datatype sig_op = Signal_wait | Timer_wait | Cancel_signals | Cancel_timer

text \<open>A slot, with the slots it adds when it is invoked.\<close>

datatype sig_slot = Sig_slot (sig_name: nat) (sig_adds: "sig_slot list")

record sigint_state = "sig_op io" +
  sig_slots :: "sig_slot list"
  sig_state :: sig_state_t
  sig_invoked :: "nat list"

definition sig_construct :: sigint_state where
  "sig_construct = \<lparr>pending = [], started = [], sig_slots = [], sig_state = inactive, sig_invoked = []\<rparr>"

section \<open>Operations\<close>

definition await_signal :: "sigint_state \<Rightarrow> sigint_state" where
  "await_signal s = initiate Signal_wait s"

definition await_timer :: "sigint_state \<Rightarrow> sigint_state" where
  "await_timer s = initiate Timer_wait s"

definition sig_start :: "sigint_state \<Rightarrow> sigint_state" where
  "sig_start s = (await_signal s)\<lparr>sig_state := waiting\<rparr>"

definition sig_stop :: "sigint_state \<Rightarrow> sigint_state" where
  "sig_stop s = perform Cancel_signals s"

text \<open>
  Invoking a slot while the state is \<open>exit_state\<close>: the slots it adds are invoked at once.
\<close>

fun slot_calls :: "sig_slot \<Rightarrow> nat list" where
  "slot_calls (Sig_slot n fs) = n # concat (map slot_calls fs)"

definition sig_invoke :: "sig_slot \<Rightarrow> sigint_state \<Rightarrow> sigint_state" where
  "sig_invoke f s = s\<lparr>sig_invoked := sig_invoked s @ slot_calls f\<rparr>"

definition emit_signals :: "sigint_state \<Rightarrow> sigint_state result" where
  "emit_signals s =
     and_then (check (sig_state s = exit_state) ''state_ == exit_state'' s) (\<lambda>s.
       let sigs = sig_slots s in Inr (fold sig_invoke sigs (s\<lparr>sig_slots := []\<rparr>)))"

definition event_sigint :: "sigint_state \<Rightarrow> sigint_state result" where
  "event_sigint s = (case sig_state s of
      waiting \<Rightarrow> Inr (await_signal (await_timer (s\<lparr>sig_state := confirming\<rparr>)))
    | confirming \<Rightarrow> emit_signals ((perform Cancel_timer s)\<lparr>sig_state := exit_state\<rparr>)
    | inactive \<Rightarrow> Inr s
    | exit_state \<Rightarrow> Inr s)"

definition SIGINT :: nat where
  "SIGINT = 2"

definition handle_signal :: "error_code \<Rightarrow> nat \<Rightarrow> sigint_state \<Rightarrow> sigint_state result" where
  "handle_signal e sig s =
     (if e \<noteq> None then
        if e \<noteq> Some operation_aborted then Inl (Exit_called 100) else Inr s
      else and_then (check (sig = SIGINT) ''sig == SIGINT'' s) event_sigint)"

definition handle_timer :: "error_code \<Rightarrow> sigint_state \<Rightarrow> sigint_state" where
  "handle_timer e s =
     (if e \<noteq> None then s
      else case sig_state s of
          confirming \<Rightarrow> s\<lparr>sig_state := waiting\<rparr>
        | _ \<Rightarrow> s)"

definition sig_add_slot :: "sig_slot \<Rightarrow> sigint_state \<Rightarrow> sigint_state" where
  "sig_add_slot f s = (case sig_state s of
      exit_state \<Rightarrow> sig_invoke f s
    | _ \<Rightarrow> s\<lparr>sig_slots := sig_slots s @ [f]\<rparr>)"

lemmas sig_defs [model_defs] =
  sig_construct_def await_signal_def await_timer_def sig_start_def sig_stop_def sig_invoke_def
  emit_signals_def event_sigint_def SIGINT_def handle_signal_def handle_timer_def sig_add_slot_def

section \<open>Events\<close>

datatype sig_event =
    Sig_start
  | Sig_stop
  | Sig_add sig_slot
  | Sig_signal error_code nat
  | Sig_timer error_code

fun sig_step :: "sigint_state \<Rightarrow> sig_event \<Rightarrow> sigint_state result" where
  "sig_step s Sig_start = Inr (sig_start s)"
| "sig_step s Sig_stop = Inr (sig_stop s)"
| "sig_step s (Sig_add f) = Inr (sig_add_slot f s)"
| "sig_step s (Sig_signal e sig) = handle_signal e sig (settle Signal_wait s)"
| "sig_step s (Sig_timer e) = Inr (handle_timer e (settle Timer_wait s))"

text \<open>
  \<open>start\<close> is called once. The signal set holds SIGINT only; waits fail with
  \<open>operation_aborted\<close> only after a cancel.
\<close>

fun sig_enabled :: "sigint_state \<Rightarrow> sig_event \<Rightarrow> bool" where
  "sig_enabled s Sig_start = (sig_state s = inactive)"
| "sig_enabled s Sig_stop = True"
| "sig_enabled s (Sig_add f) = True"
| "sig_enabled s (Sig_signal e sig) = (Signal_wait \<in> set (pending s) \<and> sig = 2 \<and>
     (e = Some operation_aborted \<longrightarrow> Cancel_signals \<in> set (started s)))"
| "sig_enabled s (Sig_timer e) = (Timer_wait \<in> set (pending s) \<and>
     (e \<noteq> None \<longrightarrow> Cancel_timer \<in> set (started s)))"

abbreviation sig_reachable :: "sigint_state \<Rightarrow> bool" where
  "sig_reachable \<equiv> reachable sig_enabled sig_step sig_construct"

lemma sig_ledger_frame [simp]:
  "sig_slots (initiate x s) = sig_slots s" "sig_state (initiate x s) = sig_state s" "sig_invoked (initiate x s) = sig_invoked s"
  "sig_slots (settle x s) = sig_slots s" "sig_state (settle x s) = sig_state s" "sig_invoked (settle x s) = sig_invoked s"
  "sig_slots (perform x s) = sig_slots s" "sig_state (perform x s) = sig_state s" "sig_invoked (perform x s) = sig_invoked s"
  by (simp_all add: initiate_def settle_def perform_def)

lemma fold_sig_invoke:
  "fold sig_invoke fs s = s\<lparr>sig_invoked := sig_invoked s @ concat (map slot_calls fs)\<rparr>"
  by (induction fs arbitrary: s) (simp_all add: sig_invoke_def)

lemma emit_signals_eq:
  "sig_state s = exit_state \<Longrightarrow>
     emit_signals s = Inr (s\<lparr>sig_slots := [], sig_invoked := sig_invoked s @ concat (map slot_calls (sig_slots s))\<rparr>)"
  by (simp add: emit_signals_def fold_sig_invoke)

section \<open>Invariant\<close>

text \<open>
  The waits outstanding in each state: one on the signal set (unless it was cancelled) until
  the program is told to exit, one on the timer while a confirmation is awaited.
\<close>

abbreviation signal_waits :: "sigint_state \<Rightarrow> nat" where
  "signal_waits s \<equiv> count_list (pending s) Signal_wait"

abbreviation timer_waits :: "sigint_state \<Rightarrow> nat" where
  "timer_waits s \<equiv> count_list (pending s) Timer_wait"

definition sig_inv :: "sigint_state \<Rightarrow> bool" where
  "sig_inv s \<longleftrightarrow> (case sig_state s of
      inactive \<Rightarrow> signal_waits s = 0 \<and> timer_waits s = 0 \<and> Cancel_timer \<notin> set (started s)
    | waiting \<Rightarrow> signal_waits s \<le> 1 \<and> (Cancel_signals \<notin> set (started s) \<longrightarrow> signal_waits s = 1) \<and>
        timer_waits s = 0 \<and> Cancel_timer \<notin> set (started s)
    | confirming \<Rightarrow> signal_waits s \<le> 1 \<and> (Cancel_signals \<notin> set (started s) \<longrightarrow> signal_waits s = 1) \<and>
        timer_waits s = 1 \<and> Cancel_timer \<notin> set (started s)
    | exit_state \<Rightarrow> signal_waits s = 0 \<and> timer_waits s \<le> 1)"

lemmas sig_count_simps = count_list_remove1 count_list_pos [symmetric]

lemma sig_event_sigint_inv:
  assumes "sig_inv s" "0 < signal_waits s" "event_sigint (settle Signal_wait s) = Inr t"
  shows "sig_inv t"
  using assms
  by (cases "sig_state s")
    (auto simp: event_sigint_def sig_inv_def emit_signals_eq await_signal_def await_timer_def count_list_remove1
      simp del: count_list_pos)

lemma sig_signal_inv:
  assumes "sig_inv s" "sig_enabled s (Sig_signal e sig)" "sig_step s (Sig_signal e sig) = Inr t"
  shows "sig_inv t"
proof (cases e)
  case None
  with assms sig_event_sigint_inv [OF assms(1)] show ?thesis by (simp add: handle_signal_def SIGINT_def)
next
  case (Some x)
  with assms have "t = settle Signal_wait s" "Cancel_signals \<in> set (started s)"
    by (auto simp: handle_signal_def split: if_splits)
  with assms(1) show ?thesis by (cases "sig_state s") (simp_all add: sig_inv_def count_list_remove1)
qed

lemma sig_timer_inv:
  assumes "sig_inv s" "sig_enabled s (Sig_timer e)"
  shows "sig_inv (handle_timer e (settle Timer_wait s))"
proof -
  have "0 < timer_waits s" using assms(2) by simp
  with assms show ?thesis
    by (cases "sig_state s") (auto simp: handle_timer_def sig_inv_def count_list_remove1 simp del: count_list_pos)
qed

lemma sig_inv_step:
  assumes "sig_inv s" "sig_enabled s e" "sig_step s e = Inr t"
  shows "sig_inv t"
proof (cases e)
  case Sig_start
  then show ?thesis using assms by (auto simp: sig_start_def await_signal_def sig_inv_def)
next
  case Sig_stop
  then show ?thesis using assms by (cases "sig_state s") (auto simp: sig_stop_def sig_inv_def)
next
  case (Sig_signal x sig)
  then show ?thesis using assms sig_signal_inv by blast
next
  case (Sig_timer x)
  then show ?thesis using assms sig_timer_inv by auto
next
  case (Sig_add f)
  then show ?thesis using assms
    by (cases "sig_state s") (auto simp: sig_add_slot_def sig_invoke_def sig_inv_def)
qed

lemma sig_reachable_inv: "sig_reachable s \<Longrightarrow> sig_inv s"
  by (induction rule: reachable_invariant)
    (simp add: sig_inv_def sig_construct_def, blast intro: sig_inv_step)

section \<open>Properties\<close>

text \<open>
  C32. No interrupt is lost: from \<open>start\<close> until the confirmed shutdown, unless \<open>stop\<close> was called,
  exactly one wait on the signal set is outstanding; the confirmation timer is armed exactly
  while a confirmation is awaited; and the handlers never fail an assertion: the only abnormal
  end is \<^verbatim>\<open>std::exit\<close> after an error other than a cancellation.
\<close>

theorem sig_never_deaf:
  assumes "sig_reachable s"
  shows "(sig_state s \<in> {waiting, confirming} \<and> Cancel_signals \<notin> set (started s) \<longrightarrow> signal_waits s = 1) \<and>
    (sig_state s \<in> {inactive, exit_state} \<longrightarrow> signal_waits s = 0) \<and>
    (sig_state s \<noteq> exit_state \<longrightarrow> timer_waits s = (if sig_state s = confirming then 1 else 0)) \<and>
    (sig_enabled s e \<longrightarrow> (\<exists>x. sig_step s e = Inl x) \<longrightarrow>
      (\<exists>x sig. e = Sig_signal (Some x) sig \<and> x \<noteq> operation_aborted))"
proof -
  have "sig_inv s" using assms by (rule sig_reachable_inv)
  moreover have "\<exists>t. event_sigint u = Inr t" for u
    by (cases "sig_state u") (simp_all add: event_sigint_def emit_signals_eq)
  then have "sig_enabled s e \<longrightarrow> (\<exists>x. sig_step s e = Inl x) \<longrightarrow>
      (\<exists>x sig. e = Sig_signal (Some x) sig \<and> x \<noteq> operation_aborted)"
    by (cases e) (auto simp: handle_signal_def SIGINT_def split: if_splits, metis Inl_Inr_False)
  ultimately show ?thesis by (cases "sig_state s") (auto simp: sig_inv_def simp del: count_list_pos)
qed

theorem sig_never_deaf_witness:
  "\<exists>s. run sig_enabled sig_step sig_construct [Sig_start, Sig_signal None 2, Sig_timer None] = Some s \<and>
     sig_state s = waiting \<and> signal_waits s = 1 \<and> timer_waits s = 0"
proof -
  obtain s where r: "run sig_enabled sig_step sig_construct [Sig_start, Sig_signal None 2, Sig_timer None] = Some s"
    and w: "sig_state s = waiting" "Cancel_signals \<notin> set (started s)"
    by (simp add: sig_defs)
  from sig_never_deaf [OF run_reachable [OF r]] r w show ?thesis by simp
qed

text \<open>The slots a run adds, in order.\<close>

fun slots_added :: "sig_event list \<Rightarrow> sig_slot list" where
  "slots_added [] = []"
| "slots_added (Sig_add f # es) = f # slots_added es"
| "slots_added (_ # es) = slots_added es"

lemma slots_added_append: "slots_added (es @ fs) = slots_added es @ slots_added fs"
  by (induction es rule: slots_added.induct) auto

definition sig_flow :: "sigint_state \<Rightarrow> nat list" where
  "sig_flow s = sig_invoked s @ concat (map slot_calls (sig_slots s))"

lemma sig_flow_step:
  assumes "sig_step s e = Inr t"
  shows "sig_flow t = sig_flow s @ concat (map slot_calls (slots_added [e]))
    \<or> (sig_state s = exit_state \<and> sig_slots s \<noteq> [])"
  using assms
  by (cases e; cases "sig_state s")
    (auto simp: sig_flow_def sig_start_def sig_stop_def await_signal_def await_timer_def sig_add_slot_def
      sig_invoke_def handle_signal_def handle_timer_def event_sigint_def emit_signals_eq and_then_Inr SIGINT_def
      split: if_splits)

lemma sig_slots_exit_step:
  assumes "sig_step s e = Inr t" "sig_enabled s e"
    "if sig_state s = exit_state then sig_slots s = [] else sig_invoked s = []"
  shows "if sig_state t = exit_state then sig_slots t = [] else sig_invoked t = []"
  using assms
  by (cases e; cases "sig_state s")
    (auto simp: sig_start_def sig_stop_def await_signal_def await_timer_def sig_add_slot_def
      sig_invoke_def handle_signal_def handle_timer_def event_sigint_def emit_signals_eq and_then_Inr SIGINT_def
      split: if_splits)

lemma sig_flow_run:
  "run sig_enabled sig_step s es = Some t \<Longrightarrow>
     (if sig_state s = exit_state then sig_slots s = [] else sig_invoked s = []) \<Longrightarrow>
     sig_flow t = sig_flow s @ concat (map slot_calls (slots_added es)) \<and>
     (if sig_state t = exit_state then sig_slots t = [] else sig_invoked t = [])"
proof (induction rule: run_induct)
  case (Cons s e es u)
  have "sig_flow u = sig_flow s @ concat (map slot_calls (slots_added [e]))"
    using sig_flow_step [OF Cons.hyps(2)] Cons.prems by (auto split: if_splits)
  with Cons.IH [OF sig_slots_exit_step [OF Cons.hyps(2,1) Cons.prems]] show ?case
    using slots_added_append [of "[e]" es] by simp
qed simp

text \<open>
  Shutdown slots run exactly once, in the order they were added: before the confirmed
  interrupt none has run; after it, all slots added before and after have run, each once, with
  the slots they add themselves right behind them.
\<close>

theorem sig_slots_once_in_order:
  assumes "run sig_enabled sig_step sig_construct es = Some s"
  shows "sig_invoked s = (if sig_state s = exit_state then concat (map slot_calls (slots_added es)) else [])"
proof -
  have "sig_flow s = concat (map slot_calls (slots_added es)) \<and>
      (if sig_state s = exit_state then sig_slots s = [] else sig_invoked s = [])"
    using sig_flow_run [OF assms] by (simp add: sig_construct_def sig_flow_def)
  then show ?thesis by (auto simp: sig_flow_def split: if_splits)
qed

theorem sig_slots_once_in_order_witness:
  "\<exists>s. run sig_enabled sig_step sig_construct
      [Sig_add (Sig_slot 1 [Sig_slot 2 []]), Sig_start, Sig_signal None 2, Sig_signal None 2, Sig_add (Sig_slot 3 [])] = Some s \<and>
     sig_invoked s = [1, 2, 3]"
proof -
  let ?es = "[Sig_add (Sig_slot 1 [Sig_slot 2 []]), Sig_start, Sig_signal None 2, Sig_signal None 2, Sig_add (Sig_slot 3 [])]"
  obtain s where r: "run sig_enabled sig_step sig_construct ?es = Some s" and x: "sig_state s = exit_state"
    by (simp add: sig_defs)
  from sig_slots_once_in_order [OF r] r x show ?thesis by simp
qed

text \<open>Events that break a confirmation: a signal, or the expiry of the timer.\<close>

fun breaks_confirmation :: "sig_event \<Rightarrow> bool" where
  "breaks_confirmation (Sig_signal None sig) = True"
| "breaks_confirmation (Sig_timer None) = True"
| "breaks_confirmation _ = False"

text \<open>How a state was reached: the last interrupts that count.\<close>

definition sig_history :: "sig_event list \<Rightarrow> sigint_state \<Rightarrow> bool" where
  "sig_history es s \<longleftrightarrow>
     (sig_state s = confirming \<longrightarrow> (\<exists>as x bs. es = as @ Sig_signal None x # bs \<and> list_all (\<lambda>e. \<not> breaks_confirmation e) bs)) \<and>
     (sig_state s = exit_state \<longrightarrow> (\<exists>as x bs y cs. es = as @ Sig_signal None x # bs @ Sig_signal None y # cs \<and>
        list_all (\<lambda>e. \<not> breaks_confirmation e) bs))"

lemma sig_state_step:
  assumes "sig_enabled s e" "sig_step s e = Inr t"
  shows "sig_state t = (case sig_state s of
      inactive \<Rightarrow> if e = Sig_start then waiting else inactive
    | waiting \<Rightarrow> if \<exists>x. e = Sig_signal None x then confirming else waiting
    | confirming \<Rightarrow> if \<exists>x. e = Sig_signal None x then exit_state
                   else if e = Sig_timer None then waiting else confirming
    | exit_state \<Rightarrow> exit_state)"
  using assms
  by (cases e; cases "sig_state s")
    (auto simp: sig_start_def sig_stop_def await_signal_def await_timer_def sig_add_slot_def
      sig_invoke_def handle_signal_def handle_timer_def event_sigint_def emit_signals_eq and_then_Inr SIGINT_def
      split: if_splits)

lemma sig_history_confirming:
  "sig_state s = confirming \<Longrightarrow> es = as @ Sig_signal None x # bs \<Longrightarrow>
     list_all (\<lambda>e. \<not> breaks_confirmation e) bs \<Longrightarrow> sig_history es s"
  unfolding sig_history_def by (intro conjI impI exI) simp_all

lemma sig_history_exit:
  "sig_state s = exit_state \<Longrightarrow> es = as @ Sig_signal None x # bs @ Sig_signal None y # cs \<Longrightarrow>
     list_all (\<lambda>e. \<not> breaks_confirmation e) bs \<Longrightarrow> sig_history es s"
  unfolding sig_history_def by (intro conjI impI) (simp, blast)

lemma sig_history_step:
  assumes "sig_enabled s e" "sig_step s e = Inr t" "sig_history es s"
  shows "sig_history (es @ [e]) t"
proof (cases "sig_state s")
  case waiting
  show ?thesis
  proof (cases "\<exists>x. e = Sig_signal None x")
    case True
    then obtain x where "e = Sig_signal None x" ..
    then show ?thesis
      using sig_state_step [OF assms(1,2)] waiting by (intro sig_history_confirming [of _ _ es x "[]"]) simp_all
  qed (use sig_state_step [OF assms(1,2)] waiting in \<open>simp add: sig_history_def\<close>)
next
  case confirming
  then obtain as x bs where h: "es = as @ Sig_signal None x # bs" "list_all (\<lambda>e. \<not> breaks_confirmation e) bs"
    using assms(3) by (auto simp: sig_history_def)
  consider y where "e = Sig_signal None y" "sig_state t = exit_state" | "sig_state t = waiting"
    | "sig_state t = confirming" "\<not> breaks_confirmation e"
    using sig_state_step [OF assms(1,2)] confirming by (cases e rule: breaks_confirmation.cases) (auto split: if_splits)
  then show ?thesis
  proof cases
    case 1
    show ?thesis by (rule sig_history_exit [of _ _ as x bs y "[]"]) (simp_all add: h 1)
  next
    case 3
    show ?thesis by (rule sig_history_confirming [of _ _ as x "bs @ [e]"]) (use h 3 in simp_all)
  qed (simp add: sig_history_def)
next
  case exit_state
  then obtain as x bs y cs where h: "es @ [e] = as @ Sig_signal None x # bs @ Sig_signal None y # (cs @ [e])"
    "list_all (\<lambda>e. \<not> breaks_confirmation e) bs"
    using assms(3) by (auto simp: sig_history_def)
  then show ?thesis
    using sig_state_step [OF assms(1,2)] exit_state by (intro sig_history_exit [of _ _ as x bs y "cs @ [e]"]) simp_all
qed (use sig_state_step [OF assms(1,2)] in \<open>auto simp: sig_history_def split: if_splits\<close>)

lemma sig_history_run:
  "run sig_enabled sig_step s fs = Some t \<Longrightarrow> sig_history es s \<Longrightarrow> sig_history (es @ fs) t"
proof (induction arbitrary: es rule: run_induct)
  case (Cons s e fs u)
  from Cons.IH [OF sig_history_step [OF Cons.hyps(1,2) Cons.prems]] show ?case by simp
qed simp

text \<open>
  C37. Only a confirmed interrupt shuts the program down: whenever the exit state is reached, two
  SIGINTs arrived with no other SIGINT and no expiry of the five-second timer between them.
\<close>

theorem sig_exit_needs_confirmation:
  assumes "run sig_enabled sig_step sig_construct es = Some s" "sig_state s = exit_state"
  shows "\<exists>as x bs y cs. es = as @ Sig_signal None x # bs @ Sig_signal None y # cs \<and>
    list_all (\<lambda>e. \<not> breaks_confirmation e) bs"
  using sig_history_run [OF assms(1), of "[]"] assms(2) by (simp add: sig_history_def sig_construct_def)

theorem sig_exit_needs_confirmation_witness:
  "\<exists>as x bs y cs. [Sig_start, Sig_signal None 2, Sig_add (Sig_slot 1 []), Sig_signal None 2] =
      as @ Sig_signal None x # bs @ Sig_signal None y # cs \<and> list_all (\<lambda>e. \<not> breaks_confirmation e) bs"
proof -
  let ?es = "[Sig_start, Sig_signal None 2, Sig_add (Sig_slot 1 []), Sig_signal None 2]"
  obtain s where "run sig_enabled sig_step sig_construct ?es = Some s" "sig_state s = exit_state"
    by (simp add: sig_defs)
  then show ?thesis by (rule sig_exit_needs_confirmation)
qed

end
