(* ===== verification/Blog_Client.thy ===== *)
theory Blog_Client
  imports Wss_Transport Sigint_State
begin

text \<open>
  \<^verbatim>\<open>pre-cxx20/blog-2020-09/fmex_connection.hpp\<close>, \<^verbatim>\<open>fmex_connection.cpp\<close>,
  \<^verbatim>\<open>application.hpp\<close> and \<^verbatim>\<open>application.cpp\<close>: the FMex protocol on top of the
  transport, and the application that wires it to the interrupt handler. Parsing and printing of
  JSON text is Boost.JSON's; both are parameters of the model, over a datatype of JSON values.
\<close>

section \<open>JSON values\<close>

datatype json =
    JNull
  | JBool bool
  | JNumber nat
  | JString string
  | JArray "json list"
  | JObject "(string \<times> json) list"

type_synonym json_parse = "string \<Rightarrow> json option"
type_synonym json_serialize = "json \<Rightarrow> string"

section \<open>The FMex connection\<close>

datatype ping_state_t = ping_not_started | ping_wait | ping_sending | ping_waiting_pong | ping_finished

record fmex_connection = wss_transport +
  fm_ping_state :: ping_state_t

definition fm_construct :: fmex_connection where
  "fm_construct = \<lparr>pending = [], started = [], wss_send_queue = [], wss_send_state = not_sending,
     wss_state = not_started, wss_rx_buffer = [], wss_point = At_start, wss_completions = [], wss_errors = 0,
     wss_host = [], wss_port = [], wss_target = [], wss_endpoints = [], wss_calls = [],
     fm_ping_state = ping_not_started\<rparr>"

definition fm_ping_enter_wait :: "fmex_connection \<Rightarrow> fmex_connection" where
  "fm_ping_enter_wait s = initiate (Wait_op 5) (s\<lparr>fm_ping_state := ping_wait\<rparr>)"

definition fm_ping_enter_state :: "fmex_connection \<Rightarrow> fmex_connection result" where
  "fm_ping_enter_state s =
     and_then (check (fm_ping_state s = ping_not_started) ''ping_state_ == ping_not_started'' s) (\<lambda>s.
       Inr (fm_ping_enter_wait s))"

definition fm_ping_frame :: "nat \<Rightarrow> json" where
  "fm_ping_frame now = JObject [(''cmd'', JString ''ping''), (''id'', JString ''my_ping_ident''),
     (''args'', JArray [JNumber now])]"

text \<open>\<open>now\<close> is the value of \<open>timestamp()\<close>.\<close>

definition fm_ping_event_timeout :: "json_serialize \<Rightarrow> nat \<Rightarrow> fmex_connection \<Rightarrow> fmex_connection" where
  "fm_ping_event_timeout serialize now s =
     wss_send_text_frame (serialize (fm_ping_frame now)) (s\<lparr>fm_ping_state := ping_waiting_pong\<rparr>)"

definition fm_ping_event_pong :: "fmex_connection \<Rightarrow> fmex_connection" where
  "fm_ping_event_pong s = fm_ping_enter_wait s"

definition fm_ticker_frame :: "string \<Rightarrow> json" where
  "fm_ticker_frame ticker = JObject [(''cmd'', JString ''sub''), (''id'', JString ''some_id''),
     (''args'', JArray [JString (''ticker.'' @ ticker)])]"

definition fm_request_ticker :: "json_serialize \<Rightarrow> string \<Rightarrow> fmex_connection \<Rightarrow> fmex_connection" where
  "fm_request_ticker serialize ticker s = wss_send_text_frame (serialize (fm_ticker_frame ticker)) s"

definition fm_on_hello :: "json_serialize \<Rightarrow> fmex_connection \<Rightarrow> fmex_connection" where
  "fm_on_hello serialize s = fm_request_ticker serialize ''btcusd_p'' s"

definition fm_on_text_frame :: "json_parse \<Rightarrow> json_serialize \<Rightarrow> string \<Rightarrow> fmex_connection \<Rightarrow> fmex_connection result" where
  "fm_on_text_frame parse serialize frame s =
     (case parse frame of
        Some (JObject obj) \<Rightarrow>
          (case map_of obj ''type'' of
             None \<Rightarrow> Inl (Exception ''out_of_range'')
           | Some type \<Rightarrow>
               if type = JString ''hello'' then Inr (fm_on_hello serialize s)
               else if type = JString ''ping'' then Inr (fm_ping_event_pong s)
               else (case type of
                   JString t \<Rightarrow>
                     if prefix ''ticker.'' t \<and> map_of obj ''ticker'' = None
                     then Inl (Exception ''out_of_range'') else Inr s
                 | _ \<Rightarrow> Inl (Exception ''not a string'')))
      | Some _ \<Rightarrow> Inl (Exception ''not an object'')
      | None \<Rightarrow> Inl (Exception ''syntax error''))"

text \<open>\<^verbatim>\<open>on_transport_error\<close> and \<^verbatim>\<open>on_close\<close> only print.\<close>

definition fm_on_start :: "fmex_connection wss_virtual \<Rightarrow> fmex_connection \<Rightarrow> fmex_connection result" where
  "fm_on_start v s = wss_initiate_connect v ''api.fmex.com'' ''443'' ''/v2/ws'' s"

definition fm_handlers :: "json_parse \<Rightarrow> json_serialize \<Rightarrow> fmex_connection wss_virtual" where
  "fm_handlers parse serialize = wss_virtual_base\<lparr>on_transport_up := fm_ping_enter_state,
     on_text_frame := fm_on_text_frame parse serialize\<rparr>"

definition fm_virtual :: "json_parse \<Rightarrow> json_serialize \<Rightarrow> fmex_connection wss_virtual" where
  "fm_virtual parse serialize = (fm_handlers parse serialize)\<lparr>on_start := fm_on_start (fm_handlers parse serialize)\<rparr>"

lemmas fm_defs [model_defs] =
  fm_construct_def fm_ping_enter_wait_def fm_ping_enter_state_def fm_ping_event_timeout_def
  fm_ping_event_pong_def fm_request_ticker_def fm_on_hello_def fm_on_text_frame_def fm_on_start_def
  fm_handlers_def fm_virtual_def wss_virtual_base_def

section \<open>Events\<close>

datatype fm_event =
    Fm_start
  | Fm_stop
  | Fm_resolve_done error_code "string list"
  | Fm_connect_done error_code error_code
  | Fm_tls_done error_code
  | Fm_handshake_done error_code
  | Fm_read_done error_code bool string
  | Fm_write_done error_code string
  | Fm_wait_done error_code nat

fun fm_step :: "json_parse \<Rightarrow> json_serialize \<Rightarrow> fmex_connection \<Rightarrow> fm_event \<Rightarrow> fmex_connection result" where
  "fm_step parse serialize s Fm_start = wss_start (fm_virtual parse serialize) s"
| "fm_step parse serialize s Fm_stop = Inr (wss_stop s)"
| "fm_step parse serialize s (Fm_resolve_done e results) =
     wss_connect_resolved (fm_virtual parse serialize) e results (settle Resolve_op s)"
| "fm_step parse serialize s (Fm_connect_done e sni) =
     wss_connect_op (fm_virtual parse serialize) e sni (settle Connect_op s)"
| "fm_step parse serialize s (Fm_tls_done e) =
     wss_connect_op (fm_virtual parse serialize) e None (settle Tls_handshake_op s)"
| "fm_step parse serialize s (Fm_handshake_done e) =
     wss_connect_op (fm_virtual parse serialize) e None (settle Handshake_op s)"
| "fm_step parse serialize s (Fm_read_done e is_text bytes) =
     wss_handle_read (fm_virtual parse serialize) e is_text (length bytes)
       ((settle Read_op s)\<lparr>wss_rx_buffer := wss_rx_buffer s @ bytes\<rparr>)"
| "fm_step parse serialize s (Fm_write_done e m) =
     wss_handle_send (fm_virtual parse serialize) e (settle (Write_op m) s)"
| "fm_step parse serialize s (Fm_wait_done e now) =
     (if e = None then Inr (fm_ping_event_timeout serialize now (settle (Wait_op 5) s))
      else Inr (settle (Wait_op 5) s))"

text \<open>\<open>start\<close> is called once; only a pending operation completes.\<close>

fun fm_enabled :: "fmex_connection \<Rightarrow> fm_event \<Rightarrow> bool" where
  "fm_enabled s Fm_start = (wss_state s = not_started)"
| "fm_enabled s Fm_stop = True"
| "fm_enabled s (Fm_resolve_done e results) = (Resolve_op \<in> set (pending s))"
| "fm_enabled s (Fm_connect_done e sni) = (Connect_op \<in> set (pending s))"
| "fm_enabled s (Fm_tls_done e) = (Tls_handshake_op \<in> set (pending s))"
| "fm_enabled s (Fm_handshake_done e) = (Handshake_op \<in> set (pending s))"
| "fm_enabled s (Fm_read_done e is_text bytes) = (Read_op \<in> set (pending s))"
| "fm_enabled s (Fm_write_done e m) = (Write_op m \<in> set (pending s))"
| "fm_enabled s (Fm_wait_done e now) = (Wait_op 5 \<in> set (pending s))"

abbreviation fm_reachable :: "json_parse \<Rightarrow> json_serialize \<Rightarrow> fmex_connection \<Rightarrow> bool" where
  "fm_reachable parse serialize \<equiv> reachable fm_enabled (fm_step parse serialize) fm_construct"

lemma fm_ledger_frame [simp]:
  "fm_ping_state (initiate x s) = fm_ping_state s" "fm_ping_state (settle x s) = fm_ping_state s"
  "fm_ping_state (wss_call cs s) = fm_ping_state s"
  by (simp_all add: initiate_def settle_def wss_call_def)

lemma fm_virtual_simps [simp]:
  "on_transport_up (fm_virtual parse serialize) = fm_ping_enter_state"
  "on_transport_error (fm_virtual parse serialize) s = s"
  "on_text_frame (fm_virtual parse serialize) = fm_on_text_frame parse serialize"
  "on_start (fm_virtual parse serialize) = fm_on_start (fm_handlers parse serialize)"
  "on_transport_up (fm_handlers parse serialize) = fm_ping_enter_state"
  "on_transport_error (fm_handlers parse serialize) s = s"
  by (simp_all add: fm_virtual_def fm_handlers_def wss_virtual_base_def)

section \<open>Invariant\<close>

fun connecting_op :: "ws_op \<Rightarrow> bool" where
  "connecting_op Resolve_op = True"
| "connecting_op Connect_op = True"
| "connecting_op Tls_handshake_op = True"
| "connecting_op Handshake_op = True"
| "connecting_op _ = False"

fun awaited :: "connect_point \<Rightarrow> ws_op list" where
  "awaited At_resolve = [Resolve_op]"
| "awaited At_connect = [Connect_op]"
| "awaited At_tls = [Tls_handshake_op]"
| "awaited At_handshake = [Handshake_op]"
| "awaited _ = []"

text \<open>Sending: one write at a time, of the front of the queue; nothing waits while connected and idle.\<close>

definition fm_send_inv :: "fmex_connection \<Rightarrow> bool" where
  "fm_send_inv s \<longleftrightarrow>
     (if wss_send_state s = sending
      then wss_send_queue s \<noteq> [] \<and> writes (pending s) = [hd (wss_send_queue s)]
      else writes (pending s) = [] \<and> (wss_state s = connected \<longrightarrow> wss_send_queue s = []))"

text \<open>Connecting: the coroutine waits for one operation, and nothing else has begun before its end.\<close>

definition fm_connect_inv :: "fmex_connection \<Rightarrow> bool" where
  "fm_connect_inv s \<longleftrightarrow>
     filter connecting_op (pending s) = awaited (wss_point s) \<and>
     (wss_state s = not_started \<longleftrightarrow> wss_point s = At_start) \<and>
     (wss_point s \<noteq> At_end \<longrightarrow> wss_state s \<noteq> connected \<and> wss_state s \<noteq> closing \<and> wss_send_queue s = [] \<and>
        wss_send_state s = not_sending \<and> wss_rx_buffer s = [] \<and> fm_ping_state s = ping_not_started \<and>
        Read_op \<notin> set (pending s) \<and> waits (pending s) = [])"

definition fm_read_inv :: "fmex_connection \<Rightarrow> bool" where
  "fm_read_inv s \<longleftrightarrow> count_list (pending s) Read_op \<le> 1 \<and>
     (Read_op \<in> set (pending s) \<longrightarrow> wss_rx_buffer s = [])"

definition fm_inv :: "fmex_connection \<Rightarrow> bool" where
  "fm_inv s \<longleftrightarrow> fm_send_inv s \<and> fm_connect_inv s \<and> fm_read_inv s"

lemmas fm_inv_defs = fm_inv_def fm_send_inv_def fm_connect_inv_def fm_read_inv_def

lemma fm_inv_construct: "fm_inv fm_construct"
  by (simp add: fm_inv_defs fm_construct_def)

lemma awaited_At_end: "awaited p = [] \<longleftrightarrow> p \<in> {At_start, At_end}"
  by (cases p) auto

subsection \<open>What the transport functions keep\<close>

lemma fm_start_sending_inv:
  assumes "writes (pending s) = []" "wss_send_state s = not_sending" "fm_connect_inv s" "fm_read_inv s"
  shows "fm_inv (wss_start_sending s)"
proof (cases s rule: wss_start_sending_cases)
  case idle
  with assms show ?thesis by (auto simp: fm_inv_def fm_send_inv_def)
next
  case writes
  with assms show ?thesis by (auto simp: fm_inv_defs)
qed

lemma fm_send_text_frame_inv:
  assumes "fm_inv s"
  shows "fm_inv (wss_send_text_frame m s)"
proof (cases "wss_state s = connected \<and> wss_send_state s = not_sending")
  case True
  then have "wss_send_text_frame m s = wss_start_sending (s\<lparr>wss_send_queue := wss_send_queue s @ [m]\<rparr>)"
    by (simp add: wss_send_text_frame_def)
  moreover have "fm_inv (wss_start_sending (s\<lparr>wss_send_queue := wss_send_queue s @ [m]\<rparr>))"
    by (rule fm_start_sending_inv) (use assms True in \<open>auto simp: fm_inv_defs split: if_splits\<close>)
  ultimately show ?thesis by simp
next
  case False
  with assms show ?thesis
    by (cases "wss_send_state s") (auto simp: wss_send_text_frame_def wss_start_sending_def fm_inv_defs)
qed

lemma fm_transport_error_inv:
  "fm_inv s \<Longrightarrow> fm_inv (wss_event_transport_error (fm_virtual parse serialize) s)"
  by (auto simp: wss_event_transport_error_def fm_inv_defs)

lemma fm_ping_enter_wait_inv:
  "fm_inv s \<Longrightarrow> wss_point s = At_end \<Longrightarrow> fm_inv (fm_ping_enter_wait s)"
  by (auto simp: fm_ping_enter_wait_def fm_inv_defs)

lemma fm_start_reading_inv:
  "fm_inv s \<Longrightarrow> Read_op \<notin> set (pending s) \<Longrightarrow> wss_rx_buffer s = [] \<Longrightarrow> fm_inv (wss_start_reading s)"
  by (auto simp: wss_start_reading_def fm_inv_defs count_list_0_iff)

text \<open>Taking a completed operation that is not part of connecting or writing out of the ledger.\<close>

lemma fm_settle_inv:
  assumes "fm_inv s" "x = Read_op \<or> x = Wait_op 5"
  shows "fm_inv (settle x s)"
proof -
  have w: "writes (remove1 x (pending s)) = writes (pending s)" "\<not> connecting_op x" using assms(2) by auto
  have "waits (pending s) = [] \<Longrightarrow> waits (remove1 x (pending s)) = []"
    using assms(2) by (auto simp: waits_remove1_Wait)
  moreover have "Read_op \<in> set (remove1 x (pending s)) \<Longrightarrow> Read_op \<in> set (pending s)" by (meson notin_set_remove1)
  moreover have "count_list (remove1 x (pending s)) Read_op \<le> count_list (pending s) Read_op"
    by (simp add: count_list_remove1)
  ultimately show ?thesis
    using assms(1) w by (simp add: fm_inv_defs)
qed

lemma fm_on_text_frame_cases:
  assumes "fm_on_text_frame parse serialize frame s = Inr t"
  obtains "t = s" | "t = fm_on_hello serialize s" | "t = fm_ping_event_pong s"
  using assms
  by (auto simp: fm_on_text_frame_def split: option.splits json.splits if_splits)

lemma fm_on_text_frame_fault:
  "fm_on_text_frame parse serialize frame s = Inl x \<Longrightarrow> catchable x"
  by (auto simp: fm_on_text_frame_def split: option.splits json.splits if_splits)

lemma fm_read_point: "fm_inv s \<Longrightarrow> Read_op \<in> set (pending s) \<Longrightarrow> wss_point s = At_end"
  by (auto simp: fm_inv_defs)

lemma fm_on_text_frame_inv:
  assumes "fm_on_text_frame parse serialize frame s = Inr t" "fm_inv s" "wss_point s = At_end"
  shows "fm_inv t" "wss_rx_buffer t = wss_rx_buffer s" "Read_op \<in> set (pending t) \<longleftrightarrow> Read_op \<in> set (pending s)"
proof -
  show "fm_inv t"
    using assms(1) fm_send_text_frame_inv [OF assms(2)] fm_ping_enter_wait_inv [OF assms(2,3)] assms(2)
    by (cases rule: fm_on_text_frame_cases) (auto simp: fm_on_hello_def fm_request_ticker_def fm_ping_event_pong_def)
  show "wss_rx_buffer t = wss_rx_buffer s" "Read_op \<in> set (pending t) \<longleftrightarrow> Read_op \<in> set (pending s)"
    using assms(1) by (cases rule: fm_on_text_frame_cases;
      auto simp: fm_on_hello_def fm_request_ticker_def fm_ping_event_pong_def fm_ping_enter_wait_def
        wss_send_text_frame_def wss_start_sending_def)+
qed

lemma fm_handle_read_inv:
  assumes "fm_inv s" "Read_op \<in> set (pending s)"
  shows "\<exists>t. fm_step parse serialize s (Fm_read_done e is_text bytes) = Inr t \<and> fm_inv t"
proof -
  let ?v = "fm_virtual parse serialize"
  let ?s = "(settle Read_op s)\<lparr>wss_rx_buffer := wss_rx_buffer s @ bytes\<rparr>"
  have "0 < count_list (pending s) Read_op" "count_list (pending s) Read_op \<le> 1" and
    rx: "wss_rx_buffer s = []" and pt: "wss_point s = At_end"
    using assms fm_read_point [OF assms] by (simp_all add: fm_inv_def fm_read_inv_def)
  then have one: "count_list (pending s) Read_op = 1" by linarith
  have gone: "Read_op \<notin> set (pending ?s)"
    using one by (simp add: count_list_remove1 flip: count_list_0_iff)
  have inv: "fm_inv (?s\<lparr>wss_rx_buffer := b\<rparr>)" for b
    using fm_settle_inv [OF assms(1), of Read_op] gone pt by (auto simp: fm_inv_defs)
  have inv': "fm_inv ?s" using inv [of "wss_rx_buffer s @ bytes"] by simp
  show ?thesis
  proof (cases "e = None \<and> is_text")
    case True
    show ?thesis
    proof (cases "fm_on_text_frame parse serialize bytes ?s")
      case (Inl x)
      then show ?thesis
        using True fm_on_text_frame_fault [OF Inl] fm_transport_error_inv [OF inv'] rx
        by (simp add: wss_handle_read_def)
    next
      case (Inr t)
      note t = fm_on_text_frame_inv [OF Inr inv'] 
      have "fm_inv (t\<lparr>wss_rx_buffer := []\<rparr>)" "Read_op \<notin> set (pending t)"
        using t pt gone by (auto simp: fm_inv_defs)
      with fm_start_reading_inv [of "t\<lparr>wss_rx_buffer := []\<rparr>"] True Inr rx t(2) pt show ?thesis
        by (simp add: wss_handle_read_def)
    qed
  next
    case False
    show ?thesis
    proof (cases e)
      case None
      with False rx gone fm_start_reading_inv [OF inv [of "[]"]] show ?thesis
        by (simp add: wss_handle_read_def)
    next
      case (Some x)
      with fm_transport_error_inv [OF inv'] show ?thesis by (simp add: wss_handle_read_def)
    qed
  qed
qed

subsection \<open>Connecting\<close>

text \<open>A step of connecting: the awaited operation has completed.\<close>

definition fm_resumed :: "connect_point \<Rightarrow> fmex_connection \<Rightarrow> bool" where
  "fm_resumed p s \<longleftrightarrow> wss_point s = p \<and> p \<notin> {At_start, At_end} \<and> filter connecting_op (pending s) = [] \<and>
     wss_state s \<in> {connecting, finished} \<and> wss_send_queue s = [] \<and> wss_send_state s = not_sending \<and>
     wss_rx_buffer s = [] \<and> fm_ping_state s = ping_not_started \<and> Read_op \<notin> set (pending s) \<and>
     writes (pending s) = [] \<and> waits (pending s) = []"

lemma fm_resumed_call [simp]: "fm_resumed p (wss_call cs s) = fm_resumed p s"
  by (simp add: fm_resumed_def)

lemma fm_resumedI:
  assumes "fm_inv s" "x \<in> set (pending s)" "connecting_op x"
  shows "\<exists>p. awaited p = [x] \<and> fm_resumed p (settle x s)"
proof -
  have "x \<in> set (filter connecting_op (pending s))" using assms by simp
  then have a: "awaited (wss_point s) = [x]" "filter connecting_op (pending s) = [x]"
    using assms(1) by (cases "wss_point s"; auto simp: fm_inv_defs)+
  have p: "wss_point s \<notin> {At_start, At_end}" using a(1) by auto
  moreover have "writes (remove1 x (pending s)) = writes (pending s)" "waits (remove1 x (pending s)) = waits (pending s)"
    using assms(3) by (cases x; simp)+
  moreover have "filter connecting_op (remove1 x (pending s)) = []"
    using a(2) assms(3) by (simp add: filter_remove1_hit)
  moreover have "Read_op \<notin> set (remove1 x (pending s))"
    using assms(1) p by (auto simp: fm_inv_defs dest: notin_set_remove1)
  moreover have "wss_state s \<in> {connecting, finished}"
    using assms(1) p by (cases "wss_state s") (auto simp: fm_inv_defs)
  ultimately have "fm_resumed (wss_point s) (settle x s)"
    using assms(1) by (auto simp: fm_resumed_def fm_inv_defs)
  with a(1) show ?thesis by blast
qed

lemma fm_complete_error:
  assumes "fm_resumed p s"
  shows "\<exists>t. wss_connect_complete (fm_virtual parse serialize) (Some x) s = Inr t \<and> fm_resumed p t \<and>
    wss_state t = finished \<and> wss_completions t = wss_completions s @ [Some x] \<and>
    wss_errors t = wss_errors s + (if wss_state s = finished then 0 else 1)"
  using assms by (auto simp: wss_connect_complete_def wss_event_transport_error_def fm_resumed_def)

lemma fm_resumed_initiate:
  assumes "fm_resumed p s" "connecting_op x" "awaited q = [x]"
  shows "fm_inv (initiate x (s\<lparr>wss_point := q\<rparr>))"
proof -
  have "q \<notin> {At_start, At_end}" using assms(3) by auto
  moreover have "writes [x] = []" "waits [x] = []" "x \<noteq> Read_op" using assms(2) by (cases x; simp)+
  ultimately show ?thesis using assms by (auto simp: fm_inv_defs fm_resumed_def)
qed

lemma fm_resumed_end:
  "fm_resumed p s \<Longrightarrow> wss_state s = finished \<Longrightarrow> fm_inv (s\<lparr>wss_point := At_end\<rparr>)"
  by (auto simp: fm_inv_defs fm_resumed_def)

lemma fm_transport_up:
  assumes "fm_resumed p s"
  shows "\<exists>t. wss_connect_complete (fm_virtual parse serialize) None (s\<lparr>wss_point := At_end\<rparr>) = Inr t \<and>
    fm_inv t \<and> wss_state t = connected \<and> wss_completions t = wss_completions s @ [None] \<and> wss_errors t = wss_errors s"
  using assms
  by (auto simp: wss_connect_complete_def wss_event_transport_up_def fm_ping_enter_state_def fm_ping_enter_wait_def
      wss_start_sending_def wss_start_reading_def fm_resumed_def fm_inv_defs count_list_0_iff)

text \<open>The completion for an error at the end of the coroutine, in a finished transport.\<close>

lemma fm_complete_at_end:
  assumes "fm_resumed p s"
  shows "\<exists>t. wss_connect_complete (fm_virtual parse serialize) (Some x) (s\<lparr>wss_point := At_end\<rparr>) = Inr t \<and>
    fm_inv t \<and> wss_state t = finished \<and> wss_completions t = wss_completions s @ [Some x] \<and>
    wss_errors t = wss_errors s + (if wss_state s = finished then 0 else 1)"
  using assms
  by (auto simp: wss_connect_complete_def wss_event_transport_error_def fm_resumed_def fm_inv_defs count_list_0_iff)

text \<open>One resumption of \<^verbatim>\<open>connect_op\<close>, from each of its suspension points.\<close>

lemma fm_connect_op:
  assumes "fm_resumed p s"
  shows "\<exists>t. wss_connect_op (fm_virtual parse serialize) e sni s = Inr t \<and> fm_inv t \<and>
    wss_completions t = wss_completions s @ (if e \<noteq> None then [e] else []) @
      (if p = At_handshake then [e] else if p = At_connect \<and> sni \<noteq> None then [sni] else [])"
proof -
  obtain s1 where s1: "(if e \<noteq> None then wss_connect_complete (fm_virtual parse serialize) e s else Inr s) = Inr s1"
    "fm_resumed p s1" "wss_completions s1 = wss_completions s @ (if e \<noteq> None then [e] else [])"
    using fm_complete_error [OF assms, of parse serialize] assms by (cases e) auto
  have pt: "wss_point s1 = p" "p \<notin> {At_start, At_end}" using s1(2) by (auto simp: fm_resumed_def)
  show ?thesis
  proof (cases p)
    case At_connect
    let ?n = "wss_call [Call_server_name (wss_host s1)] s1"
    have n: "fm_resumed p ?n" "fm_resumed p (wss_call [Call_expires_after 15, Call_tls_handshake] ?n)" using s1(2) by simp_all
    from At_connect s1 pt fm_complete_at_end [OF n(1), of parse serialize "the sni"]
      fm_resumed_initiate [OF n(2), of Tls_handshake_op At_tls]
    show ?thesis by (cases sni) (auto simp: wss_connect_op_def)
  next
    case At_handshake
    have n: "fm_resumed p (wss_call [Call_expires_never] s1)" using s1(2) by simp
    from At_handshake s1 pt fm_complete_at_end [OF n, of parse serialize "the e"] fm_transport_up [OF n, of parse serialize]
    show ?thesis by (cases e) (auto simp: wss_connect_op_def)
  next
    case At_resolve
    have n: "fm_resumed p (wss_call [Call_expires_after 15, Call_connect (wss_endpoints s1)] s1)" using s1(2) by simp
    from At_resolve s1 pt fm_resumed_initiate [OF n, of Connect_op At_connect] show ?thesis by (simp add: wss_connect_op_def)
  next
    case At_tls
    have n: "fm_resumed p (wss_call [Call_expires_after 15, Call_handshake (wss_host s1) (wss_target s1)] s1)"
      using s1(2) by simp
    from At_tls s1 pt fm_resumed_initiate [OF n, of Handshake_op At_handshake] show ?thesis by (simp add: wss_connect_op_def)
  qed (use pt in auto)
qed

subsection \<open>Every handler succeeds and keeps the invariant\<close>

lemma fm_handle_send_inv:
  assumes "fm_inv s" "Write_op m \<in> set (pending s)"
  shows "\<exists>t. wss_handle_send (fm_virtual parse serialize) e (settle (Write_op m) s) = Inr t \<and> fm_inv t"
proof -
  obtain ms where q: "wss_send_queue s = m # ms" "wss_send_state s = sending" "writes (pending s) = [m]"
    using assms by (cases "wss_send_queue s") (auto simp: fm_inv_def fm_send_inv_def split: if_splits)
  let ?s = "(settle (Write_op m) s)\<lparr>wss_send_state := not_sending, wss_send_queue := ms\<rparr>"
  have w: "writes (pending ?s) = []" by (simp add: writes_remove1_Write q(3))
  have ci: "fm_connect_inv ?s" "fm_read_inv ?s"
    using assms(1) q by (auto simp: fm_inv_defs count_list_remove1 dest: notin_set_remove1)
  show ?thesis
  proof (cases e)
    case None
    have "fm_inv (wss_start_sending ?s)" by (rule fm_start_sending_inv) (use w ci in simp_all)
    with None q show ?thesis by (simp add: wss_handle_send_def)
  next
    case (Some x)
    have "fm_inv (wss_event_transport_error (fm_virtual parse serialize) ?s)"
      using w ci by (auto simp: wss_event_transport_error_def fm_inv_defs)
    with Some q show ?thesis by (simp add: wss_handle_send_def)
  qed
qed

lemma fm_start_inv:
  assumes "fm_inv s" "wss_state s = not_started"
  shows "\<exists>t. fm_step parse serialize s Fm_start = Inr t \<and> fm_inv t"
  using assms
  by (auto simp: wss_start_def fm_on_start_def wss_initiate_connect_def wss_new_connect_op_def wss_connect_op_def fm_inv_defs)

lemma fm_step_ok:
  assumes "fm_inv s" "fm_enabled s e"
  shows "\<exists>t. fm_step parse serialize s e = Inr t \<and> fm_inv t"
proof (cases e)
  case (Fm_resolve_done x results)
  with assms obtain p where "fm_resumed p (settle Resolve_op s)" using fm_resumedI [of s Resolve_op] by auto
  then have "fm_resumed p ((settle Resolve_op s)\<lparr>wss_endpoints := results\<rparr>)" by (simp add: fm_resumed_def)
  from fm_connect_op [OF this, of parse serialize x None] Fm_resolve_done show ?thesis
    by (auto simp: wss_connect_resolved_def)
next
  case (Fm_connect_done x sni)
  with assms obtain p where "fm_resumed p (settle Connect_op s)" using fm_resumedI [of s Connect_op] by auto
  from fm_connect_op [OF this, of parse serialize x sni] Fm_connect_done show ?thesis by auto
next
  case (Fm_tls_done x)
  with assms obtain p where "fm_resumed p (settle Tls_handshake_op s)" using fm_resumedI [of s Tls_handshake_op] by auto
  from fm_connect_op [OF this, of parse serialize x None] Fm_tls_done show ?thesis by auto
next
  case (Fm_handshake_done x)
  with assms obtain p where "fm_resumed p (settle Handshake_op s)" using fm_resumedI [of s Handshake_op] by auto
  from fm_connect_op [OF this, of parse serialize x None] Fm_handshake_done show ?thesis by auto
next
  case (Fm_wait_done x now)
  have "wss_point s = At_end" using assms Fm_wait_done by (auto simp: fm_inv_defs)
  moreover have inv: "fm_inv (settle (Wait_op 5) s)" using fm_settle_inv [OF assms(1)] by simp
  ultimately have "fm_inv ((settle (Wait_op 5) s)\<lparr>fm_ping_state := ping_waiting_pong\<rparr>)"
    by (auto simp: fm_inv_defs)
  with inv Fm_wait_done show ?thesis
    using fm_send_text_frame_inv by (auto simp: fm_ping_event_timeout_def)
next
  case Fm_start
  with assms fm_start_inv show ?thesis by simp
next
  case (Fm_read_done x t bytes)
  with assms fm_handle_read_inv [of s parse serialize x t bytes] show ?thesis by simp
next
  case (Fm_write_done x m)
  with assms fm_handle_send_inv show ?thesis by simp
qed (use assms in \<open>simp add: wss_stop_def\<close>)

lemma fm_reachable_inv: "fm_reachable parse serialize s \<Longrightarrow> fm_inv s"
proof (induction rule: reachable_invariant)
  case start
  show ?case by (rule fm_inv_construct)
next
  case (step s e t)
  then show ?case using fm_step_ok [of s e parse serialize] by auto
qed

section \<open>Flow of frames\<close>

definition fm_written :: "fmex_connection \<Rightarrow> string list" where
  "fm_written s = writes (started s)"

definition fm_in_flight :: "fmex_connection \<Rightarrow> string list" where
  "fm_in_flight s = writes (pending s)"

definition fm_backlog :: "fmex_connection \<Rightarrow> string list" where
  "fm_backlog s = (if wss_send_state s = sending then tl (wss_send_queue s) else wss_send_queue s)"

definition fm_ready :: "fmex_connection \<Rightarrow> bool" where
  "fm_ready s \<longleftrightarrow> wss_state s = connected \<and> wss_send_state s = not_sending"

fun frame_type :: "json option \<Rightarrow> json option" where
  "frame_type (Some (JObject obj)) = map_of obj ''type''"
| "frame_type _ = None"

text \<open>What each event sends: a subscription after a hello, a ping when the ping timer expires.\<close>

fun fm_accepted :: "json_parse \<Rightarrow> json_serialize \<Rightarrow> fmex_connection \<Rightarrow> fm_event \<Rightarrow> string list" where
  "fm_accepted parse serialize s (Fm_read_done None True bytes) =
     (if wss_state s = connected \<and> frame_type (parse bytes) = Some (JString ''hello'')
      then [serialize (fm_ticker_frame ''btcusd_p'')] else [])"
| "fm_accepted parse serialize s (Fm_wait_done None now) =
     (if wss_state s = connected then [serialize (fm_ping_frame now)] else [])"
| "fm_accepted parse serialize s _ = []"

abbreviation fm_flow :: "fmex_connection \<Rightarrow> string list" where
  "fm_flow s \<equiv> fm_written s @ fm_backlog s"

lemmas fm_flow_defs = fm_written_def fm_backlog_def

lemma fm_flow_start_sending [simp]: "fm_flow (wss_start_sending s) = fm_flow s"
  by (cases s rule: wss_start_sending_cases) (auto simp: fm_flow_defs)

lemma fm_flow_start_reading [simp]: "fm_flow (wss_start_reading s) = fm_flow s"
  by (simp add: wss_start_reading_def fm_flow_defs)

lemma fm_flow_send:
  assumes "fm_inv s"
  shows "fm_flow (wss_send_text_frame m s) = fm_flow s @ (if wss_state s = connected then [m] else [])"
proof -
  have "wss_send_state s = sending \<Longrightarrow> wss_send_queue s \<noteq> []"
    using assms by (auto simp: fm_inv_def fm_send_inv_def)
  then have "fm_flow (s\<lparr>wss_send_queue := wss_send_queue s @ [m]\<rparr>) = fm_flow s @ [m]"
    by (auto simp: fm_flow_defs)
  then show ?thesis by (simp add: wss_send_text_frame_def)
qed

lemma fm_flow_error [simp]: "fm_flow (wss_event_transport_error (fm_virtual parse serialize) s) = fm_flow s"
  by (simp add: wss_event_transport_error_def fm_flow_defs)

lemma fm_flow_frame [simp]:
  "fm_flow (settle x s) = fm_flow s" "fm_flow (s\<lparr>wss_rx_buffer := b\<rparr>) = fm_flow s"
  "fm_flow (s\<lparr>wss_state := st\<rparr>) = fm_flow s" "fm_flow (s\<lparr>fm_ping_state := p\<rparr>) = fm_flow s"
  "fm_flow (wss_call cs s) = fm_flow s" "fm_flow (s\<lparr>wss_endpoints := ps\<rparr>) = fm_flow s"
  "fm_flow (wss_new_connect_op host port target s) = fm_flow s"
  "fm_flow (s\<lparr>wss_point := c\<rparr>) = fm_flow s" "fm_flow (s\<lparr>wss_completions := es\<rparr>) = fm_flow s"
  "fm_flow (initiate (Wait_op 5) s) = fm_flow s" "fm_flow (initiate Resolve_op s) = fm_flow s"
  "fm_flow (initiate Connect_op s) = fm_flow s" "fm_flow (initiate Tls_handshake_op s) = fm_flow s"
  "fm_flow (initiate Handshake_op s) = fm_flow s"
  by (simp_all add: fm_flow_defs)

lemma fm_flow_complete:
  "wss_connect_complete (fm_virtual parse serialize) e s = Inr t \<Longrightarrow> fm_flow t = fm_flow s"
  by (auto simp: wss_connect_complete_def wss_event_transport_up_def fm_ping_enter_state_def
      fm_ping_enter_wait_def and_then_Inr Let_def split: if_splits)

lemma fm_flow_connect_op:
  assumes "wss_connect_op (fm_virtual parse serialize) e sni s = Inr t"
  shows "fm_flow t = fm_flow s"
proof -
  from assms obtain s1 where "(if e \<noteq> None then wss_connect_complete (fm_virtual parse serialize) e s else Inr s) = Inr s1"
    by (auto simp: wss_connect_op_def and_then_Inr)
  moreover from this have "fm_flow s1 = fm_flow s" by (auto dest: fm_flow_complete split: if_splits)
  ultimately show ?thesis using assms
    by (cases "wss_point s1") (auto simp: wss_connect_op_def Let_def dest!: fm_flow_complete split: if_splits)
qed

lemma fm_flow_resolved:
  "wss_connect_resolved (fm_virtual parse serialize) e results s = Inr t \<Longrightarrow> fm_flow t = fm_flow s"
  by (auto simp: wss_connect_resolved_def dest!: fm_flow_connect_op)

lemma fm_flow_on_text_frame:
  assumes "fm_on_text_frame parse serialize frame s = Inr t" "fm_inv s"
  shows "fm_flow t = fm_flow s @ (if wss_state s = connected \<and> frame_type (parse frame) = Some (JString ''hello'')
      then [serialize (fm_ticker_frame ''btcusd_p'')] else [])"
  using assms(1) fm_flow_send [OF assms(2)]
  by (auto simp: fm_on_text_frame_def fm_on_hello_def fm_request_ticker_def fm_ping_event_pong_def fm_ping_enter_wait_def
      split: option.splits json.splits if_splits)

lemma fm_on_text_frame_hello:
  "fm_on_text_frame parse serialize frame s = Inl x \<Longrightarrow> frame_type (parse frame) \<noteq> Some (JString ''hello'')"
  by (auto simp: fm_on_text_frame_def split: option.splits json.splits if_splits)

lemma fm_flow_read:
  assumes "fm_inv s" "Read_op \<in> set (pending s)" "fm_step parse serialize s (Fm_read_done e is_text bytes) = Inr t"
  shows "fm_flow t = fm_flow s @ fm_accepted parse serialize s (Fm_read_done e is_text bytes)"
proof -
  let ?s = "(settle Read_op s)\<lparr>wss_rx_buffer := bytes\<rparr>"
  have rx: "wss_rx_buffer s = []" using assms by (simp add: fm_inv_def fm_read_inv_def)
  have "count_list (pending s) Read_op \<le> 1" using assms(1) by (simp add: fm_inv_def fm_read_inv_def)
  then have "Read_op \<notin> set (pending (settle Read_op s))"
    by (simp add: count_list_remove1 flip: count_list_0_iff)
  then have inv: "fm_inv ?s"
    using fm_settle_inv [OF assms(1), of Read_op] fm_read_point [OF assms(1,2)] by (auto simp: fm_inv_defs)
  show ?thesis
  proof (cases "e = None \<and> is_text")
    case True
    then show ?thesis
      using assms(3) fm_flow_on_text_frame [OF _ inv] fm_on_text_frame_hello rx
      by (fastforce simp: wss_handle_read_def split: sum.splits if_splits)
  next
    case False
    then show ?thesis
      using assms(3) rx by (cases e) (auto simp: wss_handle_read_def)
  qed
qed

lemma fm_flow_step:
  assumes "fm_inv s" "fm_enabled s e" "fm_step parse serialize s e = Inr t"
  shows "fm_flow t = fm_flow s @ fm_accepted parse serialize s e"
proof (cases e)
  case (Fm_read_done x is_text bytes)
  then show ?thesis using assms fm_flow_read by (metis fm_enabled.simps(7))
next
  case (Fm_write_done x m)
  then have "wss_send_state s = sending" using assms(1,2) by (auto simp: fm_inv_def fm_send_inv_def split: if_splits)
  then have "fm_flow ((settle (Write_op m) s)\<lparr>wss_send_state := not_sending, wss_send_queue := tl (wss_send_queue s)\<rparr>) = fm_flow s"
    by (simp add: fm_flow_defs)
  then show ?thesis using Fm_write_done assms(3)
    by (auto simp: wss_handle_send_def Let_def split: list.splits if_splits)
next
  case (Fm_wait_done x now)
  have inv: "fm_inv (settle (Wait_op 5) s)" using fm_settle_inv [OF assms(1)] by simp
  have "wss_point s = At_end" using assms Fm_wait_done by (auto simp: fm_inv_defs)
  with inv have "fm_inv ((settle (Wait_op 5) s)\<lparr>fm_ping_state := ping_waiting_pong\<rparr>)" by (auto simp: fm_inv_defs)
  then show ?thesis using Fm_wait_done assms(3) fm_flow_send
    by (cases x) (auto simp: fm_ping_event_timeout_def)
next
  case Fm_start
  then show ?thesis using assms(3)
    by (auto simp: wss_start_def fm_on_start_def wss_initiate_connect_def wss_connect_op_def split: if_splits)
qed (use assms(3) fm_flow_connect_op fm_flow_resolved in \<open>fastforce simp: wss_stop_def\<close>)+

interpretation fm: prompt_send_region
  fm_enabled "fm_step parse serialize" fm_construct fm_written fm_in_flight fm_backlog "fm_accepted parse serialize" fm_ready
  for parse serialize
proof unfold_locales
  show "fm_written fm_construct = [] \<and> fm_backlog fm_construct = []"
    by (simp add: fm_flow_defs fm_construct_def)
  show "fm_flow t = fm_written s @ fm_backlog s @ fm_accepted parse serialize s e"
    if "fm_reachable parse serialize s" "fm_enabled s e" "fm_step parse serialize s e = Inr t" for s e t
    using fm_flow_step [OF fm_reachable_inv] that by simp
  show "length (fm_in_flight s) \<le> 1" if "fm_reachable parse serialize s" for s
    using fm_reachable_inv [OF that] by (auto simp: fm_inv_def fm_send_inv_def fm_in_flight_def split: if_splits)
  show "fm_backlog s = []" if "fm_reachable parse serialize s" "fm_ready s" for s
    using fm_reachable_inv [OF that(1)] that(2) by (auto simp: fm_inv_def fm_send_inv_def fm_ready_def fm_backlog_def)
qed

section \<open>The application\<close>

text \<open>
  The interrupt handler and the connection, run on one executor. The slot the application adds,
  named 0 here, calls \<open>stop\<close> on the connection.
\<close>

record blog_app =
  ba_sigint :: sigint_state
  ba_fmex :: fmex_connection

definition ba_construct :: blog_app where
  "ba_construct = \<lparr>ba_sigint = sig_construct, ba_fmex = fm_construct\<rparr>"

text \<open>An event of the interrupt handler, with the effect of the slots it invokes.\<close>

definition ba_on_sigint :: "sig_event \<Rightarrow> blog_app \<Rightarrow> blog_app result" where
  "ba_on_sigint e a =
     and_then (sig_step (ba_sigint a) e) (\<lambda>g.
       Inr (a\<lparr>ba_sigint := g,
              ba_fmex := (wss_stop ^^ (length (sig_invoked g) - length (sig_invoked (ba_sigint a)))) (ba_fmex a)\<rparr>))"

definition ba_on_fmex :: "json_parse \<Rightarrow> json_serialize \<Rightarrow> fm_event \<Rightarrow> blog_app \<Rightarrow> blog_app result" where
  "ba_on_fmex parse serialize e a =
     and_then (fm_step parse serialize (ba_fmex a) e) (\<lambda>c. Inr (a\<lparr>ba_fmex := c\<rparr>))"

definition ba_start :: "json_parse \<Rightarrow> json_serialize \<Rightarrow> blog_app \<Rightarrow> blog_app result" where
  "ba_start parse serialize a =
     and_then (ba_on_sigint Sig_start a) (\<lambda>a.
     and_then (ba_on_fmex parse serialize Fm_start a) (\<lambda>a.
       ba_on_sigint (Sig_add (Sig_slot 0 [])) a))"

datatype ba_event = Ba_start | Ba_sigint sig_event | Ba_fmex fm_event

fun ba_step :: "json_parse \<Rightarrow> json_serialize \<Rightarrow> blog_app \<Rightarrow> ba_event \<Rightarrow> blog_app result" where
  "ba_step parse serialize a Ba_start = ba_start parse serialize a"
| "ba_step parse serialize a (Ba_sigint e) = ba_on_sigint e a"
| "ba_step parse serialize a (Ba_fmex e) = ba_on_fmex parse serialize e a"

text \<open>The application starts once and adds no other slot; it never stops the signal set.\<close>

fun ba_enabled :: "blog_app \<Rightarrow> ba_event \<Rightarrow> bool" where
  "ba_enabled a Ba_start = (sig_state (ba_sigint a) = inactive)"
| "ba_enabled a (Ba_sigint (Sig_signal e sig)) = sig_enabled (ba_sigint a) (Sig_signal e sig)"
| "ba_enabled a (Ba_sigint (Sig_timer e)) = sig_enabled (ba_sigint a) (Sig_timer e)"
| "ba_enabled a (Ba_sigint _) = False"
| "ba_enabled a (Ba_fmex Fm_start) = False"
| "ba_enabled a (Ba_fmex Fm_stop) = False"
| "ba_enabled a (Ba_fmex e) = fm_enabled (ba_fmex a) e"

lemmas ba_defs [model_defs] = ba_construct_def ba_on_sigint_def ba_on_fmex_def ba_start_def

lemma wss_stop_power [simp]: "(wss_stop ^^ n) s = s"
  by (induction n) (simp_all add: wss_stop_def)

text \<open>Before the start nothing has happened; after it, one slot was added.\<close>

definition ba_inv :: "blog_app \<Rightarrow> bool" where
  "ba_inv a \<longleftrightarrow> sig_inv (ba_sigint a) \<and> fm_inv (ba_fmex a) \<and>
     (if sig_state (ba_sigint a) = inactive then a = ba_construct
      else if sig_state (ba_sigint a) = exit_state then sig_invoked (ba_sigint a) = [0] \<and> sig_slots (ba_sigint a) = []
      else sig_slots (ba_sigint a) = [Sig_slot 0 []] \<and> sig_invoked (ba_sigint a) = [])"

lemma ba_sigint_inv:
  assumes "ba_inv a" "ba_enabled a (Ba_sigint e)" "ba_on_sigint e a = Inr b"
  shows "ba_inv b \<and> ba_fmex b = ba_fmex a"
proof -
  have en: "sig_enabled (ba_sigint a) e" and ns: "\<not> (e = Sig_start \<or> e = Sig_stop \<or> (\<exists>f. e = Sig_add f))"
    using assms(2) by (cases e; simp)+
  obtain g where g: "sig_step (ba_sigint a) e = Inr g" and b: "b = a\<lparr>ba_sigint := g\<rparr>"
    using assms(3) by (auto simp: ba_on_sigint_def and_then_Inr)
  have inv: "sig_inv g" using sig_inv_step [OF _ en g] assms(1) by (simp add: ba_inv_def)
  have live: "sig_state (ba_sigint a) \<noteq> inactive"
  proof
    assume i: "sig_state (ba_sigint a) = inactive"
    then have "pending (ba_sigint a) = []" using assms(1) by (simp add: ba_inv_def ba_construct_def sig_construct_def)
    with en ns show False by (cases e) auto
  qed
  have "sig_state g \<noteq> inactive" using sig_state_step [OF en g] live by (cases "sig_state (ba_sigint a)") auto
  moreover have "if sig_state g = exit_state then sig_invoked g = [0] \<and> sig_slots g = []
      else sig_slots g = [Sig_slot 0 []] \<and> sig_invoked g = []"
    using assms(1) g ns live
    by (cases e; cases "sig_state (ba_sigint a)")
      (auto simp: ba_inv_def handle_signal_def handle_timer_def event_sigint_def emit_signals_eq await_signal_def
        await_timer_def and_then_Inr SIGINT_def split: if_splits)
  ultimately show ?thesis using inv assms(1) by (simp add: b ba_inv_def)
qed

lemma ba_start_ok:
  assumes "ba_inv a" "sig_state (ba_sigint a) = inactive"
  shows "\<exists>b. ba_start parse serialize a = Inr b \<and> ba_inv b"
proof -
  have a: "a = ba_construct" using assms by (simp add: ba_inv_def)
  obtain c where c: "fm_step parse serialize fm_construct Fm_start = Inr c" "fm_inv c"
    using fm_start_inv [OF fm_inv_construct, of parse serialize] by (auto simp: fm_construct_def)
  show ?thesis
    using c by (simp add: a ba_defs sig_defs ba_inv_def sig_inv_def del: fm_step.simps)
qed

lemma ba_inv_step:
  assumes "ba_inv a" "ba_enabled a e" "ba_step parse serialize a e = Inr b"
  shows "ba_inv b"
proof (cases e)
  case Ba_start
  then show ?thesis using assms ba_start_ok [OF assms(1), of parse serialize] by auto
next
  case (Ba_sigint x)
  with assms(2,3) have "ba_enabled a (Ba_sigint x)" "ba_on_sigint x a = Inr b" by simp_all
  with ba_sigint_inv [OF assms(1)] show ?thesis by blast
next
  case (Ba_fmex x)
  then have en: "fm_enabled (ba_fmex a) x" "x \<noteq> Fm_start" "x \<noteq> Fm_stop" using assms(2) by (cases x; simp)+
  obtain c where c: "fm_step parse serialize (ba_fmex a) x = Inr c" "fm_inv c"
    using fm_step_ok [OF _ en(1), of parse serialize] assms(1) by (auto simp: ba_inv_def)
  have "sig_state (ba_sigint a) \<noteq> inactive"
  proof
    assume "sig_state (ba_sigint a) = inactive"
    then have "pending (ba_fmex a) = []" using assms(1) by (simp add: ba_inv_def ba_construct_def fm_construct_def)
    with en show False by (cases x) auto
  qed
  moreover have "b = a\<lparr>ba_fmex := c\<rparr>" using c assms(3) Ba_fmex by (simp add: ba_on_fmex_def del: fm_step.simps)
  ultimately show ?thesis using c(2) assms(1) by (simp add: ba_inv_def)
qed

abbreviation ba_reachable :: "json_parse \<Rightarrow> json_serialize \<Rightarrow> blog_app \<Rightarrow> bool" where
  "ba_reachable parse serialize \<equiv> reachable ba_enabled (ba_step parse serialize) ba_construct"

lemma ba_reachable_inv: "ba_reachable parse serialize a \<Longrightarrow> ba_inv a"
proof (induction rule: reachable_invariant)
  case start
  show ?case
    using fm_inv_construct by (simp add: ba_inv_def ba_construct_def) (simp add: sig_inv_def sig_construct_def)
next
  case (step a e b)
  then show ?case using ba_inv_step by blast
qed

section \<open>Properties\<close>

text \<open>
  No handler of the FMex connection fails: in every reachable state every completion the I/O
  layer can deliver is handled without a failed assertion, without popping an empty queue and
  without an exception leaving the handler, whatever text arrives and whatever the JSON parser
  makes of it.
\<close>

theorem fm_handlers_total:
  assumes "fm_reachable parse serialize s" "fm_enabled s e"
  shows "\<exists>t. fm_step parse serialize s e = Inr t"
  using fm_step_ok [OF fm_reachable_inv [OF assms(1)] assms(2)] by blast

theorem fm_handlers_total_witness:
  "\<exists>s t. run fm_enabled (fm_step (\<lambda>_. None) (\<lambda>_. ''ping'')) fm_construct
      [Fm_start, Fm_resolve_done None [], Fm_connect_done None None, Fm_tls_done None, Fm_handshake_done None] = Some s \<and>
     fm_step (\<lambda>_. None) (\<lambda>_. ''ping'') s (Fm_read_done None True ''?'') = Inr t"
proof -
  let ?es = "[Fm_start, Fm_resolve_done None [], Fm_connect_done None None, Fm_tls_done None, Fm_handshake_done None]"
  obtain s where r: "run fm_enabled (fm_step (\<lambda>_. None) (\<lambda>_. ''ping'')) fm_construct ?es = Some s"
    and e: "fm_enabled s (Fm_read_done None True ''?'')"
    by (simp add: wss_defs fm_defs)
  from fm_handlers_total [OF run_reachable [OF r] e] r show ?thesis by blast
qed

text \<open>
  C24. Frames leave in order and one at a time: over every run, the frames handed to
  \<^verbatim>\<open>async_write\<close> are a prefix of those sent while connected (the subscription after each
  hello, a ping at each expiry of the ping timer), and all of them whenever the transport is
  connected and idle.
\<close>

theorem fm_frames_in_order:
  assumes "run fm_enabled (fm_step parse serialize) fm_construct es = Some s"
  shows "prefix (fm_written s) (taken (fm_step parse serialize) (fm_accepted parse serialize) fm_construct es) \<and>
    (fm_ready s \<longrightarrow> fm_written s = taken (fm_step parse serialize) (fm_accepted parse serialize) fm_construct es)"
  using fm.written_prefix [OF assms] fm.ready_all_written [OF assms] by blast

theorem fm_frames_in_order_witness:
  "\<exists>s. run fm_enabled (fm_step (\<lambda>_. None) (\<lambda>_. ''p'')) fm_construct
      [Fm_start, Fm_resolve_done None [], Fm_connect_done None None, Fm_tls_done None, Fm_handshake_done None,
       Fm_wait_done None 7] = Some s \<and>
     fm_written s = [''p''] \<and>
     prefix (fm_written s) (taken (fm_step (\<lambda>_. None) (\<lambda>_. ''p'')) (fm_accepted (\<lambda>_. None) (\<lambda>_. ''p'')) fm_construct
      [Fm_start, Fm_resolve_done None [], Fm_connect_done None None, Fm_tls_done None, Fm_handshake_done None,
       Fm_wait_done None 7])"
proof -
  let ?es = "[Fm_start, Fm_resolve_done None [], Fm_connect_done None None, Fm_tls_done None, Fm_handshake_done None,
    Fm_wait_done None 7]"
  obtain s where r: "run fm_enabled (fm_step (\<lambda>_. None) (\<lambda>_. ''p'')) fm_construct ?es = Some s"
    and w: "fm_written s = [''p'']"
    by (simp add: wss_defs fm_defs fm_written_def)
  from fm_frames_in_order [OF r] r w show ?thesis by blast
qed

text \<open>
  How often connecting completes: \<^verbatim>\<open>connect_op\<close> does not return after it reports an error,
  so its handler is called once for every step that fails and once more at the end. A transport
  whose TLS handshake failed (a certificate that does not verify) goes on to the WebSocket
  handshake and counts as connected if that one succeeds.
\<close>

theorem fm_connect_completions:
  "\<exists>s. run fm_enabled (fm_step parse serialize) fm_construct
       [Fm_start, Fm_resolve_done e1 [], Fm_connect_done e2 None, Fm_tls_done e3, Fm_handshake_done e4] = Some s \<and>
     wss_completions s = filter (\<lambda>e. e \<noteq> None) [e1, e2, e3, e4] @ [e4] \<and>
     wss_state s = (if e4 = None then connected else finished) \<and>
     wss_errors s = (if e1 = None \<and> e2 = None \<and> e3 = None \<and> e4 = None then 0 else 1)"
  by (cases e1; cases e2; cases e3; cases e4) (simp_all add: wss_defs fm_defs)

text \<open>
  A confirmed interrupt does not stop the client: the slot the application registered is
  invoked, exactly once, and \<open>stop\<close> leaves the connection exactly as it was, with all its
  operations outstanding.
\<close>

theorem ba_interrupt_leaves_connection:
  assumes "ba_reachable parse serialize a" "ba_enabled a (Ba_sigint (Sig_signal None 2))"
    "sig_state (ba_sigint a) = confirming"
  shows "\<exists>b. ba_step parse serialize a (Ba_sigint (Sig_signal None 2)) = Inr b \<and>
    sig_state (ba_sigint b) = exit_state \<and> sig_invoked (ba_sigint b) = [0] \<and> ba_fmex b = ba_fmex a"
proof -
  have inv: "ba_inv a" using assms(1) by (rule ba_reachable_inv)
  obtain b where b: "ba_on_sigint (Sig_signal None 2) a = Inr b"
    using assms(3) by (simp add: ba_on_sigint_def handle_signal_def SIGINT_def event_sigint_def emit_signals_eq)
  then have x: "sig_state (ba_sigint b) = exit_state"
    using assms(3) by (auto simp: ba_on_sigint_def handle_signal_def SIGINT_def event_sigint_def emit_signals_eq)
  from ba_sigint_inv [OF inv assms(2) b] x b show ?thesis by (simp add: ba_inv_def)
qed

theorem ba_interrupt_leaves_connection_witness:
  "\<exists>a b. run ba_enabled (ba_step (\<lambda>_. None) (\<lambda>_. [])) ba_construct [Ba_start, Ba_sigint (Sig_signal None 2)] = Some a \<and>
     ba_step (\<lambda>_. None) (\<lambda>_. []) a (Ba_sigint (Sig_signal None 2)) = Inr b \<and> ba_fmex b = ba_fmex a"
proof -
  obtain a where r: "run ba_enabled (ba_step (\<lambda>_. None) (\<lambda>_. [])) ba_construct [Ba_start, Ba_sigint (Sig_signal None 2)] = Some a"
    and e: "ba_enabled a (Ba_sigint (Sig_signal None 2))" "sig_state (ba_sigint a) = confirming"
    by (simp add: ba_defs sig_defs wss_defs fm_defs)
  from ba_interrupt_leaves_connection [OF run_reachable [OF r] e] r show ?thesis by blast
qed

end
