(* ===== verification/Stop_Source.thy ===== *)
theory Stop_Source
  imports Prelude
begin

text \<open>
  \<^verbatim>\<open>lib/util/st/detail/stop_token.hpp\<close> and \<^verbatim>\<open>lib/util/st/stop_token.hpp\<close>: the
  single-threaded stop source and its handles. A slot may call back into the source while it
  runs (connect another slot, disconnect one, stop again), so slots are modelled with their
  bodies and the source is run on a stack of calls. The interface shared with the
  \<^verbatim>\<open>stop_register\<close> of the FMex client is a locale.
\<close>

section \<open>Slots and calls\<close>

text \<open>
  A slot has a name and a body: the calls on the source it makes when invoked. \<open>Invoke\<close> is the
  call of a slot itself. Bodies are finite, so a slot that connects a copy of itself whenever it is
  invoked, which a stopped source would invoke for ever, is not a slot here.
\<close>

type_synonym slot_id = "64 word"

datatype slot = Slot (slot_name: nat) (slot_body: "call list")
  and call = Connect slot | Disconnect slot_id | Stop | Invoke slot

text \<open>
  \<^verbatim>\<open>std::unordered_map\<close>: an association list with distinct keys. \<open>emplace\<close> does nothing
  when the key is present. The iteration order is a parameter \<open>order\<close> of the model; what is not a
  permutation of the elements is not an iteration order and counts as the identity.
\<close>

type_synonym slot_map = "(slot_id \<times> slot) list"

definition emplace :: "'k \<Rightarrow> 'v \<Rightarrow> ('k \<times> 'v) list \<Rightarrow> ('k \<times> 'v) list" where
  "emplace k v m = (if k \<in> fst ` set m then m else m @ [(k, v)])"

definition erase :: "'k \<Rightarrow> ('k \<times> 'v) list \<Rightarrow> ('k \<times> 'v) list" where
  "erase k m = filter (\<lambda>p. fst p \<noteq> k) m"

definition iteration :: "(slot_map \<Rightarrow> slot_map) \<Rightarrow> slot_map \<Rightarrow> slot_map" where
  "iteration order m = (if mset (order m) = mset m then order m else m)"

lemma mset_iteration [simp]: "mset (iteration order m) = mset m"
  by (simp add: iteration_def)

lemma map_of_emplace: "map_of (emplace k v m) = (if k \<in> fst ` set m then map_of m else (map_of m)(k \<mapsto> v))"
  unfolding emplace_def by (induction m) (auto simp: fun_eq_iff)

lemma map_of_erase: "map_of (erase k m) = (map_of m)(k := None)"
  by (induction m) (auto simp: erase_def fun_eq_iff)

lemma keys_emplace: "fst ` set (emplace k v m) = insert k (fst ` set m)"
  by (auto simp: emplace_def)

lemma keys_erase: "fst ` set (erase k m) = fst ` set m - {k}"
  by (auto simp: erase_def)

lemma distinct_emplace: "distinct (map fst m) \<Longrightarrow> distinct (map fst (emplace k v m))"
  by (auto simp: emplace_def)

lemma distinct_erase: "distinct (map fst m) \<Longrightarrow> distinct (map fst (erase k m))"
  by (auto simp: erase_def distinct_map_filter)

section \<open>The interface of a slot registry\<close>

text \<open>
  What a client relies on when it keeps an id and uses it to take its slot out again: the id is
  new, it leads to the slot, and removing it touches nothing else. \<open>room\<close> is the condition under
  which ids are still fresh.
\<close>

locale slot_registry =
  fixes add :: "'f \<Rightarrow> 's \<Rightarrow> 'id \<times> 's"
    and remove :: "'id \<Rightarrow> 's \<Rightarrow> 's"
    and lookup :: "'s \<Rightarrow> 'id \<Rightarrow> 'f option"
    and room :: "'s \<Rightarrow> bool"
  assumes add_fresh: "room s \<Longrightarrow> lookup s (fst (add f s)) = None"
    and add_lookup: "room s \<Longrightarrow> lookup (snd (add f s)) = (lookup s)(fst (add f s) \<mapsto> f)"
    and remove_lookup: "lookup (remove i s) = (lookup s)(i := None)"
begin

lemma add_remove: "room s \<Longrightarrow> lookup (remove (fst (add f s)) (snd (add f s))) = lookup s"
  by (simp add: remove_lookup add_lookup add_fresh fun_upd_idem)

lemma remove_twice: "lookup (remove i (remove i s)) = lookup (remove i s)"
  by (simp add: remove_lookup)

lemma remove_others: "room s \<Longrightarrow> i \<noteq> fst (add f s) \<Longrightarrow>
    lookup (remove i (snd (add f s))) (fst (add f s)) = Some f"
  by (simp add: remove_lookup add_lookup)

text \<open>Two slots added one after the other can be taken out in either order.\<close>

lemma add_remove_nested:
  fixes f g :: 'f
  assumes "room s" "room (snd (add f s))"
  defines "i \<equiv> fst (add f s)" and "s1 \<equiv> snd (add f s)"
  defines "j \<equiv> fst (add g s1)" and "s2 \<equiv> snd (add g s1)"
  shows "i \<noteq> j" "lookup (remove i (remove j s2)) = lookup s" "lookup (remove j (remove i s2)) = lookup s"
proof -
  have l1: "lookup s1 = (lookup s)(i \<mapsto> f)" "lookup s i = None"
    using add_lookup [OF assms(1)] add_fresh [OF assms(1)] by (simp_all add: i_def s1_def)
  have l2: "lookup s2 = (lookup s1)(j \<mapsto> g)" "lookup s1 j = None"
    using add_lookup [OF assms(2)] add_fresh [OF assms(2)] by (simp_all add: j_def s1_def s2_def)
  show ij: "i \<noteq> j" using l1 l2 by auto
  show "lookup (remove i (remove j s2)) = lookup s"
    using l1 l2 ij by (auto simp: remove_lookup fun_eq_iff)
  show "lookup (remove j (remove i s2)) = lookup s"
    using l1 l2 ij by (auto simp: remove_lookup fun_eq_iff)
qed

end

section \<open>The stop source\<close>

text \<open>\<open>ss_invoked\<close> is the history of the slots invoked.\<close>

record stop_source_impl =
  ss_next_id :: slot_id
  ss_slots :: slot_map
  ss_invoked :: "nat list"

definition ss_construct :: stop_source_impl where
  "ss_construct = \<lparr>ss_next_id = 0, ss_slots = [], ss_invoked = []\<rparr>"

definition stopped_value :: slot_id where
  "stopped_value = - 1"

definition ss_stopped :: "stop_source_impl \<Rightarrow> bool" where
  "ss_stopped s \<longleftrightarrow> ss_next_id s = stopped_value"

text \<open>The branch of \<open>connect\<close> that stores the slot.\<close>

definition ss_store :: "slot \<Rightarrow> stop_source_impl \<Rightarrow> stop_source_impl" where
  "ss_store f s = s\<lparr>ss_next_id := ss_next_id s + 1, ss_slots := emplace (ss_next_id s) f (ss_slots s)\<rparr>"

definition ss_disconnect :: "slot_id \<Rightarrow> stop_source_impl \<Rightarrow> stop_source_impl" where
  "ss_disconnect i s = s\<lparr>ss_slots := erase i (ss_slots s)\<rparr>"

definition ss_clear :: "stop_source_impl \<Rightarrow> stop_source_impl" where
  "ss_clear s = s\<lparr>ss_next_id := stopped_value, ss_slots := []\<rparr>"

definition ss_enter :: "slot \<Rightarrow> stop_source_impl \<Rightarrow> stop_source_impl" where
  "ss_enter f s = s\<lparr>ss_invoked := ss_invoked s @ [slot_name f]\<rparr>"

text \<open>
  How much is left to run: the calls on the stack and the slots that may still be invoked,
  with their bodies.
\<close>

fun slot_weight :: "slot \<Rightarrow> nat" and call_weight :: "call \<Rightarrow> nat" where
  "slot_weight (Slot n b) = Suc (sum_list (map call_weight b))"
| "call_weight (Connect f) = Suc (Suc (slot_weight f))"
| "call_weight (Disconnect i) = 1"
| "call_weight Stop = 1"
| "call_weight (Invoke f) = Suc (slot_weight f)"

definition map_weight :: "slot_map \<Rightarrow> nat" where
  "map_weight m = sum_list (map (\<lambda>p. Suc (slot_weight (snd p))) m)"

lemma map_weight_emplace: "map_weight (emplace k f m) \<le> Suc (slot_weight f) + map_weight m"
  by (simp add: emplace_def map_weight_def)

lemma map_weight_erase: "map_weight (erase k m) \<le> map_weight m"
  by (induction m) (auto simp: map_weight_def erase_def)

lemma map_weight_iteration: "map_weight (iteration order m) = map_weight m"
proof -
  have "map_weight xs = (\<Sum>p \<in># mset xs. Suc (slot_weight (snd p)))" for xs
    by (induction xs) (simp_all add: map_weight_def)
  then show ?thesis by simp
qed

text \<open>
  The member functions \<open>connect\<close>, \<open>disconnect\<close> and \<open>stop\<close>, run to completion on a stack of
  calls: a slot that is invoked runs its body before what is below it on the stack.
\<close>

function ss_exec :: "(slot_map \<Rightarrow> slot_map) \<Rightarrow> call list \<Rightarrow> stop_source_impl \<Rightarrow> stop_source_impl" where
  "ss_exec order [] s = s"
| "ss_exec order (Connect f # k) s =
     (if ss_next_id s = stopped_value then ss_exec order (Invoke f # k) s
      else ss_exec order k (ss_store f s))"
| "ss_exec order (Disconnect i # k) s = ss_exec order k (ss_disconnect i s)"
| "ss_exec order (Stop # k) s =
     ss_exec order (map (Invoke \<circ> snd) (iteration order (ss_slots s)) @ k) (ss_clear s)"
| "ss_exec order (Invoke f # k) s = ss_exec order (slot_body f @ k) (ss_enter f s)"
  by pat_completeness auto

termination
proof (relation "measure (\<lambda>(order, k, s). sum_list (map call_weight k) + map_weight (ss_slots s))", goal_cases)
  case 1
  show ?case by simp
next
  case (2 order f k s)
  then show ?case by simp
next
  case (3 order f k s)
  then show ?case
    using map_weight_emplace [of "ss_next_id s" f "ss_slots s"] by (simp add: ss_store_def)
next
  case (4 order i k s)
  then show ?case using map_weight_erase [of i "ss_slots s"] by (simp add: ss_disconnect_def)
next
  case (5 order k s)
  then show ?case
    using map_weight_iteration [of order "ss_slots s"] by (simp add: ss_clear_def map_weight_def comp_def)
next
  case (6 order f k s)
  then show ?case by (cases f) (simp add: ss_enter_def)
qed

lemmas ss_defs [model_defs] =
  ss_construct_def stopped_value_def ss_stopped_def ss_store_def ss_disconnect_def ss_clear_def ss_enter_def

section \<open>Handles\<close>

text \<open>
  \<^verbatim>\<open>stop_source\<close>, \<^verbatim>\<open>stop_token\<close> and \<^verbatim>\<open>stop_connection\<close> each hold a
  \<^verbatim>\<open>shared_ptr\<close> to the implementation, which may be null; the flag says whether it is not.
  Their functions return the calls to make on the implementation.
\<close>

record stop_connection =
  sc_source :: bool
  sc_id :: slot_id

record st_token =
  tk_source :: bool

record stop_source =
  so_impl :: bool

definition sc_disconnect :: "stop_connection \<Rightarrow> call list \<times> stop_connection" where
  "sc_disconnect c = (if sc_source c then [Disconnect (sc_id c)] else [], c\<lparr>sc_source := False\<rparr>)"

definition tk_empty :: st_token where
  "tk_empty = \<lparr>tk_source = False\<rparr>"

definition tk_stopped :: "st_token \<Rightarrow> stop_source_impl \<Rightarrow> bool" where
  "tk_stopped t s = (if tk_source t then ss_stopped s else False)"

definition tk_connect :: "slot \<Rightarrow> st_token \<Rightarrow> stop_source_impl \<Rightarrow> (call list \<times> stop_connection) result" where
  "tk_connect f t s = and_then (check (tk_source t) ''source_'' t)
     (\<lambda>t. Inr ([Connect f], \<lparr>sc_source = tk_source t, sc_id = ss_next_id s\<rparr>))"

definition so_construct :: stop_source where
  "so_construct = \<lparr>so_impl = True\<rparr>"

definition so_make_token :: "stop_source \<Rightarrow> st_token" where
  "so_make_token src = \<lparr>tk_source = so_impl src\<rparr>"

definition so_stop :: "stop_source \<Rightarrow> call list" where
  "so_stop src = (if so_impl src then [Stop] else [])"

lemmas ss_handle_defs [model_defs] =
  sc_disconnect_def tk_empty_def tk_stopped_def tk_connect_def so_construct_def so_make_token_def so_stop_def

section \<open>Lemmas\<close>

lemma ss_exec_append: "ss_exec order (k @ l) s = ss_exec order l (ss_exec order k s)"
  by (induction order k s rule: ss_exec.induct) simp_all

lemma ss_exec_Invoke: "ss_exec order (Invoke f # k) s = ss_exec order k (ss_exec order (slot_body f) (ss_enter f s))"
  by (simp add: ss_exec_append)

lemma ss_invoked_mono: "\<exists>ns. ss_invoked (ss_exec order k s) = ss_invoked s @ ns"
  by (induction order k s rule: ss_exec.induct)
    (auto simp: ss_store_def ss_disconnect_def ss_clear_def ss_enter_def)

text \<open>Once stopped, always stopped, with nothing stored.\<close>

lemma ss_exec_stopped:
  "ss_next_id s = stopped_value \<Longrightarrow> ss_slots s = [] \<Longrightarrow>
     ss_next_id (ss_exec order k s) = stopped_value \<and> ss_slots (ss_exec order k s) = []"
  by (induction order k s rule: ss_exec.induct)
    (auto simp: ss_store_def ss_disconnect_def ss_clear_def ss_enter_def erase_def)

subsection \<open>Ids\<close>

definition ss_wf :: "stop_source_impl \<Rightarrow> bool" where
  "ss_wf s \<longleftrightarrow> distinct (map fst (ss_slots s)) \<and> (\<forall>i \<in> fst ` set (ss_slots s). i < ss_next_id s)"

lemma word_less_plus_one: "x \<noteq> - 1 \<Longrightarrow> x < x + (1 :: 'a::len word)"
  using inc_less_eq_self_iff_eq [of x] by (auto simp flip: not_le)

lemma ss_wf_construct: "ss_wf ss_construct"
  by (simp add: ss_wf_def ss_construct_def)

lemma ss_wf_store: "ss_wf s \<Longrightarrow> ss_next_id s \<noteq> stopped_value \<Longrightarrow> ss_wf (ss_store f s)"
  using word_less_plus_one [of "ss_next_id s"]
  by (auto simp: ss_wf_def ss_store_def stopped_value_def keys_emplace distinct_emplace)

lemma ss_wf_exec: "ss_wf s \<Longrightarrow> ss_wf (ss_exec order k s)"
proof (induction order k s rule: ss_exec.induct)
  case (2 order f k s)
  then show ?case using ss_wf_store by auto
qed (auto simp: ss_wf_def ss_disconnect_def ss_clear_def ss_enter_def distinct_erase keys_erase)

definition ss_room :: "stop_source_impl \<Rightarrow> bool" where
  "ss_room s \<longleftrightarrow> ss_wf s \<and> ss_next_id s \<noteq> stopped_value"

interpretation ss: slot_registry
  "\<lambda>f s. (ss_next_id s, ss_store f s)" ss_disconnect "\<lambda>s. map_of (ss_slots s)" ss_room
proof unfold_locales
  fix s :: stop_source_impl and f
  assume r: "ss_room s"
  then have fresh: "ss_next_id s \<notin> fst ` set (ss_slots s)"
    by (auto simp: ss_room_def ss_wf_def)
  then show "map_of (ss_slots s) (fst (ss_next_id s, ss_store f s)) = None"
    by (simp add: map_of_eq_None_iff)
  show "map_of (ss_slots (snd (ss_next_id s, ss_store f s))) =
      (map_of (ss_slots s))(fst (ss_next_id s, ss_store f s) \<mapsto> f)"
    using fresh by (simp add: ss_store_def map_of_emplace)
next
  show "map_of (ss_slots (ss_disconnect i s)) = (map_of (ss_slots s))(i := None)" for i s
    by (simp add: ss_disconnect_def map_of_erase)
qed

subsection \<open>Accounting for slots\<close>

text \<open>The names of the slots a program brings in, those inside bodies included.\<close>

fun slot_names :: "slot \<Rightarrow> nat multiset" and call_names :: "call \<Rightarrow> nat multiset" where
  "slot_names (Slot n b) = add_mset n (sum_list (map call_names b))"
| "call_names (Connect f) = slot_names f"
| "call_names (Disconnect i) = {#}"
| "call_names Stop = {#}"
| "call_names (Invoke f) = slot_names f"

definition program_names :: "call list \<Rightarrow> nat multiset" where
  "program_names k = sum_list (map call_names k)"

definition stored_names :: "slot_map \<Rightarrow> nat multiset" where
  "stored_names m = sum_list (map (\<lambda>p. slot_names (snd p)) m)"

lemma program_names_simps [simp]:
  "program_names [] = {#}"
  "program_names (c # k) = call_names c + program_names k"
  "program_names (k @ l) = program_names k + program_names l"
  by (simp_all add: program_names_def)

lemma slot_names_body: "slot_names f = add_mset (slot_name f) (program_names (slot_body f))"
  by (cases f) (simp add: program_names_def)

lemma stored_names_iteration [simp]:
  "program_names (map (Invoke \<circ> snd) (iteration order m)) = stored_names m"
proof -
  have "program_names (map (Invoke \<circ> snd) xs) = (\<Sum>p \<in># mset xs. slot_names (snd p))" for xs :: slot_map
    by (induction xs) auto
  moreover have "stored_names xs = (\<Sum>p \<in># mset xs. slot_names (snd p))" for xs :: slot_map
    by (induction xs) (auto simp: stored_names_def)
  ultimately show ?thesis by (metis mset_iteration)
qed

lemma stored_names_emplace:
  "stored_names (emplace k f m) = (if k \<in> fst ` set m then stored_names m else stored_names m + slot_names f)"
  by (simp add: emplace_def stored_names_def)

lemma stored_names_erase: "stored_names (erase k m) \<subseteq># stored_names m"
  by (induction m) (auto simp: stored_names_def erase_def intro: subset_mset.add_increasing subset_mset.add_mono)

text \<open>Nothing is invoked that was not brought in, and nothing twice.\<close>

lemma ss_exec_accounting:
  "mset (ss_invoked (ss_exec order k s)) + stored_names (ss_slots (ss_exec order k s)) \<subseteq>#
     mset (ss_invoked s) + stored_names (ss_slots s) + program_names k"
proof (induction order k s rule: ss_exec.induct)
  case (2 order f k s)
  show ?case
  proof (cases "ss_next_id s = stopped_value")
    case True
    with 2 show ?thesis by simp
  next
    case False
    have "stored_names (ss_slots (ss_store f s)) \<subseteq># stored_names (ss_slots s) + slot_names f"
      by (simp add: ss_store_def stored_names_emplace)
    then have "mset (ss_invoked s) + stored_names (ss_slots (ss_store f s)) + program_names k \<subseteq>#
        mset (ss_invoked s) + stored_names (ss_slots s) + program_names (Connect f # k)"
      by (simp add: ac_simps subset_mset.add_left_mono)
    with 2(2) [OF False] False show ?thesis
      by (auto simp: ss_store_def intro: subset_mset.order_trans)
  qed
next
  case (3 order i k s)
  have "mset (ss_invoked s) + stored_names (erase i (ss_slots s)) + program_names k \<subseteq>#
      mset (ss_invoked s) + stored_names (ss_slots s) + program_names k"
    using stored_names_erase by (simp add: subset_mset.add_left_mono)
  with 3 show ?case by (auto simp: ss_disconnect_def intro: subset_mset.order_trans)
next
  case (4 order k s)
  then show ?case by (simp add: ss_clear_def stored_names_def [of "[]"] ac_simps)
next
  case (5 order f k s)
  then show ?case by (simp add: ss_enter_def slot_names_body [of f])
qed simp

text \<open>Without disconnections nothing is lost either.\<close>

fun slot_keeps :: "slot \<Rightarrow> bool" and call_keeps :: "call \<Rightarrow> bool" where
  "slot_keeps (Slot n b) = list_all call_keeps b"
| "call_keeps (Connect f) = slot_keeps f"
| "call_keeps (Disconnect i) = False"
| "call_keeps Stop = True"
| "call_keeps (Invoke f) = slot_keeps f"

lemma slot_keeps_body: "slot_keeps f = list_all call_keeps (slot_body f)"
  by (cases f) simp

lemma slot_keeps_iteration:
  "list_all (slot_keeps \<circ> snd) m \<Longrightarrow> list_all call_keeps (map (Invoke \<circ> snd) (iteration order m))"
  by (simp add: list_all_iff set_mset_mset [symmetric] del: set_mset_mset)

lemma ss_exec_lossless:
  "list_all call_keeps k \<Longrightarrow> list_all (slot_keeps \<circ> snd) (ss_slots s) \<Longrightarrow> ss_wf s \<Longrightarrow>
     mset (ss_invoked (ss_exec order k s)) + stored_names (ss_slots (ss_exec order k s)) =
       mset (ss_invoked s) + stored_names (ss_slots s) + program_names k"
proof (induction order k s rule: ss_exec.induct)
  case (2 order f k s)
  show ?case
  proof (cases "ss_next_id s = stopped_value")
    case True
    with 2 show ?thesis by simp
  next
    case False
    have fresh: "ss_next_id s \<notin> fst ` set (ss_slots s)" using 2(5) by (auto simp: ss_wf_def)
    have "list_all (slot_keeps \<circ> snd) (ss_slots (ss_store f s))"
      using 2(3,4) by (auto simp: ss_store_def emplace_def list_all_iff)
    with 2(2) [OF False _ this ss_wf_store [OF 2(5) False]] 2(3) False fresh show ?thesis
      by (simp add: ss_store_def stored_names_emplace ac_simps)
  qed
next
  case (4 order k s)
  then show ?case
    using slot_keeps_iteration by (simp add: ss_clear_def stored_names_def [of "[]"] ss_wf_def ac_simps)
next
  case (5 order f k s)
  then show ?case by (simp add: ss_enter_def ss_wf_def slot_names_body [of f] slot_keeps_body [of f])
qed simp_all

text \<open>The ids handed out by connecting \<open>n\<close> slots.\<close>

lemma unat_stopped_value: "unat (- 1 :: slot_id) = 2 ^ 64 - 1"
  by (simp add: unsigned_minus_1_eq_mask mask_eq_exp_minus_1)

lemma ss_next_id_connects:
  "n < 2 ^ 64 \<Longrightarrow> ss_next_id (ss_exec order (replicate n (Connect f)) ss_construct) = of_nat n"
proof (induction n)
  case 0
  show ?case by (simp add: ss_construct_def)
next
  case (Suc n)
  then have id: "ss_next_id (ss_exec order (replicate n (Connect f)) ss_construct) = word_of_nat n" by simp
  have "unat (word_of_nat n :: slot_id) = n"
    using Suc.prems by (simp add: unat_of_nat)
  moreover have "n < 2 ^ 64 - 1" using Suc.prems by linarith
  ultimately have "word_of_nat n \<noteq> stopped_value"
    unfolding stopped_value_def using unat_stopped_value by (metis less_irrefl)
  moreover have "replicate (Suc n) (Connect f) = replicate n (Connect f) @ [Connect f]"
    by (simp add: replicate_append_same)
  ultimately show ?case
    by (simp only: ss_exec_append) (simp add: id ss_store_def)
qed

lemma ss_stop_invokes:
  "ss_invoked (ss_exec order (map (Invoke \<circ> snd) m @ k) s) = ss_invoked s @ ns \<Longrightarrow>
     mset (map (slot_name \<circ> snd) m) \<subseteq># mset ns"
proof (induction m arbitrary: s ns)
  case Nil
  show ?case by simp
next
  case (Cons p m)
  let ?t = "ss_exec order (slot_body (snd p)) (ss_enter (snd p) s)"
  obtain ms where ms: "ss_invoked ?t = ss_invoked s @ slot_name (snd p) # ms"
    using ss_invoked_mono [of order "slot_body (snd p)" "ss_enter (snd p) s"] by (auto simp: ss_enter_def)
  have step: "ss_exec order (map (Invoke \<circ> snd) (p # m) @ k) s = ss_exec order (map (Invoke \<circ> snd) m @ k) ?t"
    by (simp add: ss_exec_Invoke del: ss_exec.simps)
  obtain ls where ls: "ss_invoked (ss_exec order (map (Invoke \<circ> snd) m @ k) ?t) = ss_invoked ?t @ ls"
    using ss_invoked_mono by blast
  then have "mset (map (slot_name \<circ> snd) m) \<subseteq># mset ls" by (rule Cons.IH)
  moreover have "ns = slot_name (snd p) # ms @ ls"
    using Cons.prems ls ms by (simp only: step) simp
  ultimately show ?case by (simp add: subset_mset.add_increasing comp_def)
qed

section \<open>Properties\<close>

text \<open>
  C16. Every slot exactly once: whatever a program connects (slots that connect further slots
  and stop the source while they run included), if nothing is disconnected and the source is
  stopped in the end, then each slot has been invoked exactly once, in every iteration order of
  the map; the run always ends.
\<close>

theorem ss_every_slot_once:
  assumes "list_all call_keeps program"
  shows "mset (ss_invoked (ss_exec order (program @ [Stop]) ss_construct)) = program_names program"
proof -
  let ?s = "ss_exec order (program @ [Stop]) ss_construct"
  have "mset (ss_invoked ?s) + stored_names (ss_slots ?s) = program_names program"
    using ss_exec_lossless [of "program @ [Stop]" ss_construct order] assms ss_wf_construct
    by (simp add: ss_construct_def stored_names_def)
  moreover have "ss_slots ?s = []"
    by (simp add: ss_exec_append, rule ss_exec_stopped [THEN conjunct2]) (simp_all add: ss_clear_def)
  ultimately show ?thesis by (simp add: stored_names_def)
qed

theorem ss_every_slot_once_witness:
  "mset (ss_invoked (ss_exec rev ([Connect (Slot 1 [Connect (Slot 2 [Stop])]), Connect (Slot 3 [])] @ [Stop])
     ss_construct)) = {#1, 2, 3#}"
  using ss_every_slot_once [of "[Connect (Slot 1 [Connect (Slot 2 [Stop])]), Connect (Slot 3 [])]" rev]
  by simp

text \<open>
  At most once, for every program: no slot is invoked more often than it was connected,
  disconnections and nested calls included.
\<close>

theorem ss_slots_at_most_once:
  "mset (ss_invoked (ss_exec order program ss_construct)) \<subseteq># program_names program"
proof -
  have "mset (ss_invoked (ss_exec order program ss_construct)) +
      stored_names (ss_slots (ss_exec order program ss_construct)) \<subseteq># program_names program"
    using ss_exec_accounting [of order program ss_construct] by (simp add: ss_construct_def stored_names_def)
  then show ?thesis by (rule mset_subset_eq_add_left [THEN subset_mset.order_trans])
qed

text \<open>
  Stopping is permanent and covers late comers: after \<open>stop\<close>, whatever is called next, the
  token reports stopped, nothing is stored, and connecting a slot invokes it at once.
\<close>

theorem ss_stop_is_permanent:
  "let s = ss_exec order (program @ Stop # later) ss_construct in
     tk_stopped (so_make_token so_construct) s \<and> ss_slots s = [] \<and>
     ss_exec order [Connect f] s = ss_exec order (slot_body f) (ss_enter f s)"
proof -
  let ?s = "ss_exec order (program @ Stop # later) ss_construct"
  have "ss_next_id ?s = stopped_value \<and> ss_slots ?s = []"
    by (simp add: ss_exec_append, rule ss_exec_stopped) (simp_all add: ss_clear_def ss_exec_stopped)
  then show ?thesis by (simp add: ss_handle_defs ss_stopped_def)
qed

text \<open>
  Disconnecting a connection withdraws its slot and no other: after any program on a source
  that is not stopped, connecting a slot and disconnecting the connection leaves the stored
  slots as they were, invokes nothing, and a second disconnect makes no call at all.
\<close>

theorem ss_disconnect_withdraws:
  assumes "\<not> ss_stopped (ss_exec order program ss_construct)"
    and "tk_connect f (so_make_token so_construct) (ss_exec order program ss_construct) = Inr (k, c)"
  shows "let s = ss_exec order program ss_construct;
             t = ss_exec order (k @ fst (sc_disconnect c)) s in
     map_of (ss_slots t) = map_of (ss_slots s) \<and> ss_invoked t = ss_invoked s \<and>
     fst (sc_disconnect (snd (sc_disconnect c))) = []"
proof -
  let ?s = "ss_exec order program ss_construct"
  have "ss_room ?s"
    using assms(1) ss_wf_exec [OF ss_wf_construct] by (simp add: ss_room_def ss_stopped_def)
  then have "map_of (ss_slots (ss_disconnect (ss_next_id ?s) (ss_store f ?s))) = map_of (ss_slots ?s)"
    using ss.add_remove by simp
  moreover have "k = [Connect f]" "c = \<lparr>sc_source = True, sc_id = ss_next_id ?s\<rparr>"
    using assms(2) by (auto simp: ss_handle_defs)
  ultimately show ?thesis
    using assms(1) by (simp add: ss_stopped_def sc_disconnect_def) (simp add: ss_disconnect_def ss_store_def)
qed

theorem ss_disconnect_withdraws_witness:
  "\<exists>k c. tk_connect (Slot 7 []) (so_make_token so_construct) (ss_exec rev [Connect (Slot 5 [])] ss_construct) = Inr (k, c) \<and>
     map_of (ss_slots (ss_exec rev (k @ fst (sc_disconnect c)) (ss_exec rev [Connect (Slot 5 [])] ss_construct))) =
       map_of [(0, Slot 5 [])]"
proof -
  let ?s = "ss_exec rev [Connect (Slot 5 [])] ss_construct"
  have s: "ss_slots ?s = [(0, Slot 5 [])]" "\<not> ss_stopped ?s"
    by (simp_all add: ss_defs emplace_def)
  obtain k c where c: "tk_connect (Slot 7 []) (so_make_token so_construct) ?s = Inr (k, c)"
    by (simp add: ss_handle_defs)
  from ss_disconnect_withdraws [OF s(2) c] have
    "map_of (ss_slots (ss_exec rev (k @ fst (sc_disconnect c)) ?s)) = map_of [(0, Slot 5 [])]"
    by (simp only: Let_def s)
  with c show ?thesis by blast
qed

text \<open>
  What \<open>stop\<close> does not honour: it iterates over a copy of the map, so every slot stored when
  it is called is invoked, even if another slot disconnects it during the iteration.
\<close>

theorem ss_stop_invokes_all_stored:
  "mset (map (slot_name \<circ> snd) (ss_slots s)) \<subseteq>#
     mset (drop (length (ss_invoked s)) (ss_invoked (ss_exec order [Stop] s)))"
proof -
  obtain ns where ns: "ss_invoked (ss_exec order [Stop] s) = ss_invoked s @ ns"
    using ss_invoked_mono by blast
  then have "mset (map (slot_name \<circ> snd) (iteration order (ss_slots s))) \<subseteq># mset ns"
    using ss_stop_invokes [of order "iteration order (ss_slots s)" "[]" "ss_clear s" ns]
    by (simp add: ss_clear_def)
  then show ?thesis by (simp add: ns del: ss_exec.simps)
qed

text \<open>
  The ids are 64 bits wide and the largest one is the mark of a stopped source: connecting
  slots to a fresh source makes it report stopped, without any stop, exactly from the
  \<open>2 ^ 64 - 1\<close>th connection on.
\<close>

theorem ss_ids_run_out:
  assumes "n < 2 ^ 64"
  shows "ss_stopped (ss_exec order (replicate n (Connect f)) ss_construct) \<longleftrightarrow> n = 2 ^ 64 - 1"
proof -
  have "word_of_nat n = (- 1 :: slot_id) \<longleftrightarrow> unat (word_of_nat n :: slot_id) = unat (- 1 :: slot_id)"
    by (simp only: word_unat_eq_iff)
  also have "\<dots> \<longleftrightarrow> n = 2 ^ 64 - 1"
    using assms by (simp add: unat_of_nat unat_stopped_value)
  finally show ?thesis
    using ss_next_id_connects [OF assms, of order f] by (simp add: ss_stopped_def stopped_value_def)
qed

theorem ss_ids_run_out_witness:
  "ss_stopped (ss_exec rev (replicate (2 ^ 64 - 1) (Connect (Slot 0 []))) ss_construct)"
  using ss_ids_run_out [of "2 ^ 64 - 1" rev "Slot 0 []"]
  by (meson diff_less less_numeral_extra(1) zero_less_numeral zero_less_power)

end
