(* ===== verification/Stop_Register.thy ===== *)
theory Stop_Register
  imports Stop_Source
begin

text \<open>
  \<^verbatim>\<open>pre-cxx20/fmex_client/stop_register.hpp\<close> and \<^verbatim>\<open>stop_register.cpp\<close>: the
  register of stop callbacks of the FMex client, and the owning tokens that take a callback out
  again. Callbacks are the slots of \<^verbatim>\<open>Stop_Source\<close>: \<open>Connect\<close> stands for \<open>add\<close>,
  \<open>Disconnect\<close> for \<open>remove\<close> and \<open>Stop\<close> for \<open>notify_all\<close>. A slot is a finite
  tree of calls, so a callback that registers itself again is not one; the section on callbacks by
  name has these, and says when notifying ends.
\<close>

section \<open>The register\<close>

record stop_register =
  sr_next_id :: slot_id
  sr_map :: slot_map
  sr_invoked :: "nat list"

definition sr_construct :: stop_register where
  "sr_construct = \<lparr>sr_next_id = 0, sr_map = [], sr_invoked = []\<rparr>"

definition sr_insert :: "slot \<Rightarrow> stop_register \<Rightarrow> stop_register" where
  "sr_insert f r = (let id = sr_next_id r + 1 in r\<lparr>sr_next_id := id, sr_map := emplace id f (sr_map r)\<rparr>)"

definition sr_remove :: "slot_id \<Rightarrow> stop_register \<Rightarrow> stop_register" where
  "sr_remove i r = r\<lparr>sr_map := erase i (sr_map r)\<rparr>"

definition sr_enter :: "slot \<Rightarrow> stop_register \<Rightarrow> stop_register" where
  "sr_enter f r = r\<lparr>sr_invoked := sr_invoked r @ [slot_name f]\<rparr>"

text \<open>
  \<open>add\<close>, \<open>remove\<close> and \<open>notify_all\<close> on a stack of calls; callbacks may call back. A callback that
  calls \<open>add\<close> here keeps the token it gets; what the destruction of a token does is modelled below.
\<close>

function sr_exec :: "(slot_map \<Rightarrow> slot_map) \<Rightarrow> call list \<Rightarrow> stop_register \<Rightarrow> stop_register" where
  "sr_exec order [] r = r"
| "sr_exec order (Connect f # k) r = sr_exec order k (sr_insert f r)"
| "sr_exec order (Disconnect i # k) r = sr_exec order k (sr_remove i r)"
| "sr_exec order (Stop # k) r =
     sr_exec order (map (Invoke \<circ> snd) (iteration order (sr_map r)) @ k) (r\<lparr>sr_map := []\<rparr>)"
| "sr_exec order (Invoke f # k) r = sr_exec order (slot_body f @ k) (sr_enter f r)"
  by pat_completeness auto

termination
proof (relation "measure (\<lambda>(order, k, r). sum_list (map call_weight k) + map_weight (sr_map r))", goal_cases)
  case (2 order f k r)
  then show ?case
    using map_weight_emplace [of "sr_next_id r + 1" f "sr_map r"] by (simp add: sr_insert_def Let_def)
next
  case (3 order i k r)
  then show ?case using map_weight_erase [of i "sr_map r"] by (simp add: sr_remove_def)
next
  case (4 order k r)
  then show ?case
    using map_weight_iteration [of order "sr_map r"] by (simp add: map_weight_def comp_def)
next
  case (5 order f k r)
  then show ?case by (cases f) (simp add: sr_enter_def)
qed simp

definition sr_notify_all :: "(slot_map \<Rightarrow> slot_map) \<Rightarrow> stop_register \<Rightarrow> stop_register" where
  "sr_notify_all order r = sr_exec order [Stop] r"

section \<open>Tokens\<close>

text \<open>\<open>tok_register\<close> says whether the pointer to the register is not null.\<close>

record sr_token =
  tok_id :: slot_id
  tok_register :: bool

definition tok_construct :: "slot_id \<Rightarrow> bool \<Rightarrow> sr_token" where
  "tok_construct i reg = \<lparr>tok_id = i, tok_register = reg\<rparr>"

definition sr_add :: "slot \<Rightarrow> stop_register \<Rightarrow> sr_token \<times> stop_register" where
  "sr_add f r = (let r' = sr_insert f r in (tok_construct (sr_next_id r') True, r'))"

text \<open>The moved-to token first, then what is left of the other one.\<close>

definition tok_move :: "sr_token \<Rightarrow> sr_token \<times> sr_token" where
  "tok_move other = (\<lparr>tok_id = tok_id other, tok_register = tok_register other\<rparr>, other\<lparr>tok_id := 0\<rparr>)"

definition tok_reset :: "sr_token \<Rightarrow> stop_register \<Rightarrow> (sr_token \<times> stop_register) result" where
  "tok_reset t r =
     (let id = tok_id t; t' = t\<lparr>tok_id := 0\<rparr> in
      if id \<noteq> 0 then
        if tok_register t' then Inr (t', sr_remove id r) else Inl (Undefined ''call through a null pointer'')
      else Inr (t', r))"

definition tok_destroy :: "sr_token \<Rightarrow> stop_register \<Rightarrow> stop_register result" where
  "tok_destroy t r = and_then (tok_reset t r) (\<lambda>(t', r'). Inr r')"

definition tok_swap :: "sr_token \<Rightarrow> sr_token \<Rightarrow> sr_token \<times> sr_token" where
  "tok_swap a b = (a\<lparr>tok_id := tok_id b, tok_register := tok_register b\<rparr>,
                   b\<lparr>tok_id := tok_id a, tok_register := tok_register a\<rparr>)"

text \<open>\<open>this = std::move(other)\<close>; afterwards the destructor of \<open>tmp\<close> runs.\<close>

definition tok_assign :: "sr_token \<Rightarrow> sr_token \<Rightarrow> stop_register \<Rightarrow> (sr_token \<times> sr_token \<times> stop_register) result" where
  "tok_assign this other r =
     (let (tmp, other') = tok_move other; (this', tmp') = tok_swap this tmp
      in and_then (tok_destroy tmp' r) (\<lambda>r'. Inr (this', other', r')))"

text \<open>\<open>this = std::move(this)\<close>: the same object on both sides.\<close>

definition tok_assign_self :: "sr_token \<Rightarrow> stop_register \<Rightarrow> (sr_token \<times> stop_register) result" where
  "tok_assign_self this r =
     (let (tmp, this') = tok_move this; (this'', tmp') = tok_swap this' tmp
      in and_then (tok_destroy tmp' r) (\<lambda>r'. Inr (this'', r')))"

lemmas sr_defs [model_defs] =
  sr_construct_def sr_insert_def sr_remove_def sr_enter_def sr_notify_all_def sr_add_def
  tok_construct_def tok_move_def tok_reset_def tok_destroy_def tok_swap_def tok_assign_def tok_assign_self_def

section \<open>The registry laws\<close>

definition sr_wf :: "stop_register \<Rightarrow> bool" where
  "sr_wf r \<longleftrightarrow> distinct (map fst (sr_map r)) \<and> (\<forall>i \<in> fst ` set (sr_map r). 0 < i \<and> i \<le> sr_next_id r)"

definition sr_room :: "stop_register \<Rightarrow> bool" where
  "sr_room r \<longleftrightarrow> sr_wf r \<and> sr_next_id r \<noteq> - 1"

lemma sr_room_fresh: "sr_room r \<Longrightarrow> sr_next_id r + 1 \<notin> fst ` set (sr_map r)"
  using word_less_plus_one [of "sr_next_id r"] by (auto simp: sr_room_def sr_wf_def)

interpretation sr: slot_registry
  "\<lambda>f r. (tok_id (fst (sr_add f r)), snd (sr_add f r))" sr_remove "\<lambda>r. map_of (sr_map r)" sr_room
proof unfold_locales
  fix r :: stop_register and f
  assume room: "sr_room r"
  show "map_of (sr_map r) (fst (tok_id (fst (sr_add f r)), snd (sr_add f r))) = None"
    using sr_room_fresh [OF room] by (simp add: sr_defs Let_def map_of_eq_None_iff)
  show "map_of (sr_map (snd (tok_id (fst (sr_add f r)), snd (sr_add f r)))) =
      (map_of (sr_map r))(fst (tok_id (fst (sr_add f r)), snd (sr_add f r)) \<mapsto> f)"
    using sr_room_fresh [OF room] by (simp add: sr_defs Let_def map_of_emplace)
next
  show "map_of (sr_map (sr_remove i r)) = (map_of (sr_map r))(i := None)" for i r
    by (simp add: sr_remove_def map_of_erase)
qed

lemma sr_exec_append: "sr_exec order (k @ l) r = sr_exec order l (sr_exec order k r)"
  by (induction order k r rule: sr_exec.induct) simp_all

section \<open>Programs over token variables\<close>

text \<open>
  A program with \<open>n\<close> token variables: it assigns the result of \<open>add\<close> to a variable, moves, swaps
  and resets variables, and notifies.
\<close>

datatype tok_command =
    Tok_add nat slot
  | Tok_assign nat nat
  | Tok_swap nat nat
  | Tok_reset nat
  | Tok_notify

fun tok_exec :: "(slot_map \<Rightarrow> slot_map) \<Rightarrow> tok_command \<Rightarrow> sr_token list \<times> stop_register \<Rightarrow>
    (sr_token list \<times> stop_register) result" where
  "tok_exec order (Tok_add i f) (ts, r) =
     (if i < length ts then
        let (t, r1) = sr_add f r in
        and_then (tok_assign (ts ! i) t r1) (\<lambda>(this, t', r2).
        and_then (tok_destroy t' r2) (\<lambda>r3. Inr (ts[i := this], r3)))
      else Inr (ts, r))"
| "tok_exec order (Tok_assign i j) (ts, r) =
     (if i < length ts \<and> j < length ts then
        if i = j then and_then (tok_assign_self (ts ! i) r) (\<lambda>(this, r'). Inr (ts[i := this], r'))
        else and_then (tok_assign (ts ! i) (ts ! j) r) (\<lambda>(this, other, r'). Inr (ts[i := this, j := other], r'))
      else Inr (ts, r))"
| "tok_exec order (Tok_swap i j) (ts, r) =
     (if i < length ts \<and> j < length ts \<and> i \<noteq> j then
        let (a, b) = tok_swap (ts ! i) (ts ! j) in Inr (ts[i := a, j := b], r)
      else Inr (ts, r))"
| "tok_exec order (Tok_reset i) (ts, r) =
     (if i < length ts then and_then (tok_reset (ts ! i) r) (\<lambda>(t, r'). Inr (ts[i := t], r')) else Inr (ts, r))"
| "tok_exec order Tok_notify (ts, r) = Inr (ts, sr_notify_all order r)"

fun tok_client :: "(slot_map \<Rightarrow> slot_map) \<Rightarrow> tok_command list \<Rightarrow> sr_token list \<times> stop_register \<Rightarrow>
    (sr_token list \<times> stop_register) result" where
  "tok_client order [] p = Inr p"
| "tok_client order (c # cs) p = and_then (tok_exec order c p) (tok_client order cs)"

lemma tok_client_append:
  "tok_client order (cs @ ds) p = and_then (tok_client order cs p) (tok_client order ds)"
proof (induction cs arbitrary: p)
  case (Cons c cs)
  show ?case by (cases "tok_exec order c p") (simp_all add: Cons)
qed simp

definition tok_start :: "nat \<Rightarrow> sr_token list \<times> stop_register" where
  "tok_start n = (replicate n (tok_construct 0 False), sr_construct)"

text \<open>
  Each variable holds a null id or one of its own, and every callback in the map belongs to a
  variable.
\<close>

definition tok_inv :: "sr_token list \<times> stop_register \<Rightarrow> bool" where
  "tok_inv p \<longleftrightarrow> (case p of (ts, r) \<Rightarrow> sr_wf r \<and>
     fst ` set (sr_map r) \<subseteq> tok_id ` set ts \<and>
     (\<forall>t \<in> set ts. tok_id t \<noteq> 0 \<longrightarrow> tok_register t \<and> tok_id t \<le> sr_next_id r) \<and>
     (\<forall>i < length ts. \<forall>j < length ts. i \<noteq> j \<longrightarrow> tok_id (ts ! i) \<noteq> 0 \<longrightarrow> tok_id (ts ! i) \<noteq> tok_id (ts ! j)))"

text \<open>Callbacks that do not register further callbacks when they run.\<close>

fun slot_quiet :: "slot \<Rightarrow> bool" and call_quiet :: "call \<Rightarrow> bool" where
  "slot_quiet (Slot n b) = list_all call_quiet b"
| "call_quiet (Connect f) = False"
| "call_quiet (Disconnect i) = True"
| "call_quiet Stop = True"
| "call_quiet (Invoke f) = slot_quiet f"

fun command_quiet :: "tok_command \<Rightarrow> bool" where
  "command_quiet (Tok_add i f) = slot_quiet f"
| "command_quiet _ = True"

definition map_quiet :: "slot_map \<Rightarrow> bool" where
  "map_quiet m \<longleftrightarrow> (\<forall>f \<in> snd ` set m. slot_quiet f)"

lemma slot_quiet_body: "slot_quiet f = list_all call_quiet (slot_body f)"
  by (cases f) simp

lemma call_quiet_iteration:
  "map_quiet m \<Longrightarrow> list_all call_quiet (map (Invoke \<circ> snd) (iteration order m))"
  by (simp add: map_quiet_def list_all_iff set_mset_mset [symmetric] del: set_mset_mset)

lemma map_quiet_erase: "map_quiet m \<Longrightarrow> map_quiet (erase i m)"
  by (auto simp: map_quiet_def erase_def)

lemma map_quiet_emplace: "map_quiet m \<Longrightarrow> slot_quiet f \<Longrightarrow> map_quiet (emplace i f m)"
  by (auto simp: map_quiet_def emplace_def)

lemma sr_exec_quiet:
  "list_all call_quiet k \<Longrightarrow> map_quiet (sr_map r) \<Longrightarrow>
     set (sr_map (sr_exec order k r)) \<subseteq> set (sr_map r) \<and> sr_next_id (sr_exec order k r) = sr_next_id r \<and>
     (distinct (map fst (sr_map r)) \<longrightarrow> distinct (map fst (sr_map (sr_exec order k r))))"
proof (induction order k r rule: sr_exec.induct)
  case (3 order i k r)
  then show ?case
    using map_quiet_erase [of "sr_map r" i] distinct_erase [of "sr_map r" i]
    by (auto simp: sr_remove_def erase_def)
next
  case (4 order k r)
  then show ?case using call_quiet_iteration by (auto simp: map_quiet_def)
next
  case (5 order f k r)
  then show ?case by (simp add: sr_enter_def slot_quiet_body [of f])
qed simp_all

lemma sr_notify_all_quiet:
  assumes "map_quiet (sr_map r)"
  shows "sr_map (sr_notify_all order r) = [] \<and> sr_next_id (sr_notify_all order r) = sr_next_id r"
  using sr_exec_quiet [of "map (Invoke \<circ> snd) (iteration order (sr_map r))" "r\<lparr>sr_map := []\<rparr>" order]
    call_quiet_iteration [OF assms, of order]
  by (simp add: sr_notify_all_def map_quiet_def)

subsection \<open>What the token operations do\<close>

lemma sr_remove_none: "i \<notin> fst ` set (sr_map r) \<Longrightarrow> sr_remove i r = r"
proof -
  assume "i \<notin> fst ` set (sr_map r)"
  then have "filter (\<lambda>p. fst p \<noteq> i) (sr_map r) = sr_map r" by (auto simp: filter_id_conv)
  then show ?thesis by (simp add: sr_remove_def erase_def)
qed

lemma tok_reset_eq:
  assumes "sr_wf r" "tok_id t \<noteq> 0 \<longrightarrow> tok_register t"
  shows "tok_reset t r = Inr (t\<lparr>tok_id := 0\<rparr>, sr_remove (tok_id t) r)"
proof -
  have "sr_remove 0 r = r" by (rule sr_remove_none) (use assms(1) in \<open>auto simp: sr_wf_def\<close>)
  then show ?thesis using assms(2) by (auto simp: tok_reset_def Let_def)
qed

lemma tok_assign_eq:
  assumes "sr_wf r" "tok_id this \<noteq> 0 \<longrightarrow> tok_register this"
  shows "tok_assign this other r =
    Inr (this\<lparr>tok_id := tok_id other, tok_register := tok_register other\<rparr>, other\<lparr>tok_id := 0\<rparr>,
         sr_remove (tok_id this) r)"
  using tok_reset_eq [OF assms(1), of "\<lparr>tok_id = tok_id this, tok_register = tok_register this\<rparr>"] assms(2)
  by (simp add: tok_assign_def tok_move_def tok_swap_def tok_destroy_def)

lemma tok_assign_self_eq: "tok_assign_self this r = Inr (this, r)"
  by (cases this) (simp add: tok_assign_self_def tok_move_def tok_swap_def tok_destroy_def tok_reset_def)

lemma sr_wf_insert:
  assumes "sr_room r"
  shows "sr_wf (sr_insert f r)"
proof -
  have "sr_next_id r < sr_next_id r + 1"
    using assms by (intro word_less_plus_one) (simp add: sr_room_def)
  moreover from this have "0 < sr_next_id r + 1"
    by (rule le_less_trans [OF word_zero_le])
  ultimately show ?thesis
    using assms by (auto simp: sr_room_def sr_wf_def sr_insert_def Let_def keys_emplace distinct_emplace)
qed

lemma tok_add_eq:
  assumes "tok_inv (ts, r)" "sr_room r" "i < length ts"
  shows "tok_exec order (Tok_add i f) (ts, r) =
    Inr (ts[i := \<lparr>tok_id = sr_next_id r + 1, tok_register = True\<rparr>], sr_remove (tok_id (ts ! i)) (sr_insert f r))"
proof -
  have wf: "sr_wf (sr_insert f r)" using assms(2) by (rule sr_wf_insert)
  have "tok_id (ts ! i) \<noteq> 0 \<longrightarrow> tok_register (ts ! i)"
    using assms(1,3) by (simp add: tok_inv_def)
  from tok_assign_eq [OF wf this, of "tok_construct (sr_next_id (sr_insert f r)) True"] assms(3) show ?thesis
    by (cases "ts ! i") (simp add: sr_add_def tok_destroy_def tok_reset_def tok_construct_def Let_def sr_insert_def)
qed

subsection \<open>The invariant is kept\<close>

lemma tok_invD:
  assumes "tok_inv (ts, r)"
  shows "sr_wf r" "fst ` set (sr_map r) \<subseteq> tok_id ` set ts"
    "i < length ts \<Longrightarrow> tok_id (ts ! i) \<noteq> 0 \<Longrightarrow> tok_register (ts ! i) \<and> tok_id (ts ! i) \<le> sr_next_id r"
    "i < length ts \<Longrightarrow> j < length ts \<Longrightarrow> i \<noteq> j \<Longrightarrow> tok_id (ts ! i) \<noteq> 0 \<Longrightarrow> tok_id (ts ! i) \<noteq> tok_id (ts ! j)"
  using assms by (auto simp: tok_inv_def)

lemma tok_invI:
  assumes "sr_wf r" "\<And>k. k \<in> fst ` set (sr_map r) \<Longrightarrow> \<exists>i < length ts. tok_id (ts ! i) = k"
    "\<And>i. i < length ts \<Longrightarrow> tok_id (ts ! i) \<noteq> 0 \<Longrightarrow> tok_register (ts ! i) \<and> tok_id (ts ! i) \<le> sr_next_id r"
    "\<And>i j. i < length ts \<Longrightarrow> j < length ts \<Longrightarrow> i \<noteq> j \<Longrightarrow> tok_id (ts ! i) \<noteq> 0 \<Longrightarrow> tok_id (ts ! i) \<noteq> tok_id (ts ! j)"
  shows "tok_inv (ts, r)"
proof -
  have "fst ` set (sr_map r) \<subseteq> tok_id ` set ts"
    using assms(2) by (metis image_eqI nth_mem subsetI)
  moreover have "\<forall>t \<in> set ts. tok_id t \<noteq> 0 \<longrightarrow> tok_register t \<and> tok_id t \<le> sr_next_id r"
    using assms(3) by (metis in_set_conv_nth)
  ultimately show ?thesis using assms(1,4) by (simp add: tok_inv_def)
qed

lemma tok_inv_owner: "tok_inv (ts, r) \<Longrightarrow> k \<in> fst ` set (sr_map r) \<Longrightarrow> \<exists>i < length ts. tok_id (ts ! i) = k"
proof -
  assume "tok_inv (ts, r)" "k \<in> fst ` set (sr_map r)"
  then have "k \<in> tok_id ` set ts" using tok_invD(2) [of ts r] by (rule_tac subsetD)
  then show ?thesis by (auto simp: in_set_conv_nth)
qed

lemma sr_wf_remove: "sr_wf r \<Longrightarrow> sr_wf (sr_remove i r)"
  by (auto simp: sr_wf_def sr_remove_def distinct_erase keys_erase)

lemma tok_reset_inv:
  assumes "tok_inv (ts, r)" "i < length ts" "tok_exec order (Tok_reset i) (ts, r) = Inr (ts', r')"
  shows "tok_inv (ts', r')"
proof -
  have "tok_reset (ts ! i) r = Inr ((ts ! i)\<lparr>tok_id := 0\<rparr>, sr_remove (tok_id (ts ! i)) r)"
    using tok_invD(1,3) [OF assms(1)] assms(2) by (intro tok_reset_eq) auto
  then have eq: "ts' = ts[i := (ts ! i)\<lparr>tok_id := 0\<rparr>]" "r' = sr_remove (tok_id (ts ! i)) r"
    using assms(2,3) by auto
  show ?thesis unfolding eq
  proof (rule tok_invI)
    fix k assume "k \<in> fst ` set (sr_map (sr_remove (tok_id (ts ! i)) r))"
    then have k: "k \<in> fst ` set (sr_map r)" "k \<noteq> tok_id (ts ! i)"
      by (auto simp: sr_remove_def keys_erase)
    then show "\<exists>j < length (ts[i := (ts ! i)\<lparr>tok_id := 0\<rparr>]). tok_id (ts[i := (ts ! i)\<lparr>tok_id := 0\<rparr>] ! j) = k"
      using tok_inv_owner [OF assms(1) k(1)] by (metis length_list_update nth_list_update_neq)
  next
    fix j assume "j < length (ts[i := (ts ! i)\<lparr>tok_id := 0\<rparr>])" "tok_id (ts[i := (ts ! i)\<lparr>tok_id := 0\<rparr>] ! j) \<noteq> 0"
    then show "tok_register (ts[i := (ts ! i)\<lparr>tok_id := 0\<rparr>] ! j) \<and>
        tok_id (ts[i := (ts ! i)\<lparr>tok_id := 0\<rparr>] ! j) \<le> sr_next_id (sr_remove (tok_id (ts ! i)) r)"
      using tok_invD(3) [OF assms(1), of j] assms(2) by (cases "i = j") (auto simp: sr_remove_def)
  next
    fix j l assume "j < length (ts[i := (ts ! i)\<lparr>tok_id := 0\<rparr>])" "l < length (ts[i := (ts ! i)\<lparr>tok_id := 0\<rparr>])"
      "j \<noteq> l" "tok_id (ts[i := (ts ! i)\<lparr>tok_id := 0\<rparr>] ! j) \<noteq> 0"
    then show "tok_id (ts[i := (ts ! i)\<lparr>tok_id := 0\<rparr>] ! j) \<noteq> tok_id (ts[i := (ts ! i)\<lparr>tok_id := 0\<rparr>] ! l)"
      using tok_invD(4) [OF assms(1), of j l] assms(2) by (auto simp: nth_list_update split: if_splits)
  qed (simp add: sr_wf_remove tok_invD(1) [OF assms(1)])
qed

lemma tok_assign_inv:
  assumes "tok_inv (ts, r)" "i < length ts" "j < length ts" "i \<noteq> j"
    "tok_exec order (Tok_assign i j) (ts, r) = Inr (ts', r')"
  shows "tok_inv (ts', r')"
proof -
  let ?a = "(ts ! i)\<lparr>tok_id := tok_id (ts ! j), tok_register := tok_register (ts ! j)\<rparr>"
  let ?ts = "ts[i := ?a, j := (ts ! j)\<lparr>tok_id := 0\<rparr>]"
  have "tok_assign (ts ! i) (ts ! j) r = Inr (?a, (ts ! j)\<lparr>tok_id := 0\<rparr>, sr_remove (tok_id (ts ! i)) r)"
    using tok_invD(1,3) [OF assms(1)] assms(2) by (intro tok_assign_eq) auto
  then have eq: "ts' = ?ts" "r' = sr_remove (tok_id (ts ! i)) r" using assms(2-5) by auto
  show ?thesis unfolding eq
  proof (rule tok_invI)
    fix k assume "k \<in> fst ` set (sr_map (sr_remove (tok_id (ts ! i)) r))"
    then have k: "k \<in> fst ` set (sr_map r)" "k \<noteq> tok_id (ts ! i)"
      by (auto simp: sr_remove_def keys_erase)
    then obtain l where l: "l < length ts" "tok_id (ts ! l) = k" using tok_inv_owner [OF assms(1)] by blast
    then show "\<exists>j < length ?ts. tok_id (?ts ! j) = k"
      using k(2) assms(2-4) by (intro exI [of _ "if l = j then i else l"]) (auto simp: nth_list_update)
  next
    fix l assume "l < length ?ts" "tok_id (?ts ! l) \<noteq> 0"
    then show "tok_register (?ts ! l) \<and> tok_id (?ts ! l) \<le> sr_next_id (sr_remove (tok_id (ts ! i)) r)"
      using tok_invD(3) [OF assms(1), of l] tok_invD(3) [OF assms(1), of j] assms(2-4)
      by (auto simp: nth_list_update sr_remove_def split: if_splits)
  next
    fix l m assume "l < length ?ts" "m < length ?ts" "l \<noteq> m" "tok_id (?ts ! l) \<noteq> 0"
    then show "tok_id (?ts ! l) \<noteq> tok_id (?ts ! m)"
      using tok_invD(4) [OF assms(1), of l m] tok_invD(4) [OF assms(1), of l j]
        tok_invD(4) [OF assms(1), of j m] assms(2-4)
      by (auto simp: nth_list_update split: if_splits)
  qed (simp add: sr_wf_remove tok_invD(1) [OF assms(1)])
qed

lemma tok_swap_inv:
  assumes "tok_inv (ts, r)" "i < length ts" "j < length ts" "i \<noteq> j"
    "tok_exec order (Tok_swap i j) (ts, r) = Inr (ts', r')"
  shows "tok_inv (ts', r')"
proof -
  let ?ts = "ts[i := (ts ! i)\<lparr>tok_id := tok_id (ts ! j), tok_register := tok_register (ts ! j)\<rparr>,
                j := (ts ! j)\<lparr>tok_id := tok_id (ts ! i), tok_register := tok_register (ts ! i)\<rparr>]"
  have eq: "ts' = ?ts" "r' = r" using assms(2-5) by (auto simp: tok_swap_def)
  show ?thesis unfolding eq
  proof (rule tok_invI)
    fix k assume "k \<in> fst ` set (sr_map r)"
    then obtain l where l: "l < length ts" "tok_id (ts ! l) = k" using tok_inv_owner [OF assms(1)] by blast
    then show "\<exists>j < length ?ts. tok_id (?ts ! j) = k"
      using assms(2-4) by (intro exI [of _ "if l = j then i else if l = i then j else l"]) (auto simp: nth_list_update)
  next
    fix l assume "l < length ?ts" "tok_id (?ts ! l) \<noteq> 0"
    then show "tok_register (?ts ! l) \<and> tok_id (?ts ! l) \<le> sr_next_id r"
      using tok_invD(3) [OF assms(1), of l] tok_invD(3) [OF assms(1), of j] tok_invD(3) [OF assms(1), of i] assms(2-4)
      by (auto simp: nth_list_update split: if_splits)
  next
    fix l m assume "l < length ?ts" "m < length ?ts" "l \<noteq> m" "tok_id (?ts ! l) \<noteq> 0"
    then show "tok_id (?ts ! l) \<noteq> tok_id (?ts ! m)"
      using tok_invD(4) [OF assms(1), of l m] tok_invD(4) [OF assms(1), of l j] tok_invD(4) [OF assms(1), of l i]
        tok_invD(4) [OF assms(1), of j m] tok_invD(4) [OF assms(1), of i m] tok_invD(4) [OF assms(1), of i j]
        tok_invD(4) [OF assms(1), of j i] assms(2-4)
      by (auto simp: nth_list_update split: if_splits)
  qed (simp add: tok_invD(1) [OF assms(1)])
qed

lemma tok_add_inv:
  assumes "tok_inv (ts, r)" "sr_room r" "i < length ts" "tok_exec order (Tok_add i f) (ts, r) = Inr (ts', r')"
  shows "tok_inv (ts', r')"
proof -
  let ?n = "sr_next_id r + 1"
  let ?ts = "ts[i := \<lparr>tok_id = ?n, tok_register = True\<rparr>]"
  let ?r = "sr_remove (tok_id (ts ! i)) (sr_insert f r)"
  have eq: "ts' = ?ts" "r' = ?r" using assms(4) tok_add_eq [OF assms(1-3)] by auto
  have lt: "sr_next_id r < ?n"
    using assms(2) by (intro word_less_plus_one) (simp add: sr_room_def)
  have less: "tok_id (ts ! j) < ?n" if "j < length ts" for j
  proof -
    have "tok_id (ts ! j) \<le> sr_next_id r" using tok_invD(3) [OF assms(1) that] by (cases "tok_id (ts ! j) = 0") auto
    then show ?thesis using lt by (rule le_less_trans)
  qed
  have new: "tok_id (ts ! j) \<noteq> ?n" and le: "tok_id (ts ! j) \<le> ?n" if "j < length ts" for j
    using less [OF that] by auto
  show ?thesis unfolding eq
  proof (rule tok_invI)
    fix k assume "k \<in> fst ` set (sr_map ?r)"
    then have k: "k = ?n \<or> k \<in> fst ` set (sr_map r)" "k \<noteq> tok_id (ts ! i)"
      by (auto simp: sr_remove_def sr_insert_def Let_def keys_erase keys_emplace)
    show "\<exists>j < length ?ts. tok_id (?ts ! j) = k"
    proof (cases "k = ?n")
      case True
      then show ?thesis using assms(3) by (intro exI [of _ i]) simp
    next
      case False
      with k tok_inv_owner [OF assms(1)] show ?thesis
        by (metis length_list_update nth_list_update_neq)
    qed
  next
    fix j assume j: "j < length ?ts" "tok_id (?ts ! j) \<noteq> 0"
    then show "tok_register (?ts ! j) \<and> tok_id (?ts ! j) \<le> sr_next_id ?r"
      using tok_invD(3) [OF assms(1), of j] le [of j] assms(3)
      by (auto simp: nth_list_update sr_remove_def sr_insert_def Let_def split: if_splits)
  next
    fix j l assume "j < length ?ts" "l < length ?ts" "j \<noteq> l" "tok_id (?ts ! j) \<noteq> 0"
    then show "tok_id (?ts ! j) \<noteq> tok_id (?ts ! l)"
      using tok_invD(4) [OF assms(1), of j l] new [of j] new [of l] assms(3) by (auto simp: nth_list_update split: if_splits)
  qed (simp add: sr_wf_remove sr_wf_insert assms(2))
qed

fun is_add :: "tok_command \<Rightarrow> bool" where
  "is_add (Tok_add i f) = True"
| "is_add _ = False"

abbreviation adds :: "tok_command list \<Rightarrow> nat" where
  "adds cs \<equiv> length (filter is_add cs)"

text \<open>What every command keeps; the ids count the registrations.\<close>

definition tok_good :: "nat \<Rightarrow> sr_token list \<times> stop_register \<Rightarrow> bool" where
  "tok_good n p \<longleftrightarrow> tok_inv p \<and> map_quiet (sr_map (snd p)) \<and> unat (sr_next_id (snd p)) \<le> n"

lemma unat_plus_one: "x \<noteq> - 1 \<Longrightarrow> unat (x + 1 :: slot_id) = Suc (unat x)"
  using unatSuc [of x] by (metis add.commute add_eq_0_iff)

lemma unat_less_top: "unat (x :: slot_id) \<le> n \<Longrightarrow> Suc n < 2 ^ 64 \<Longrightarrow> x \<noteq> - 1"
  using unat_stopped_value by force

lemma tok_exec_add_good:
  assumes "tok_good n (ts, r)" "slot_quiet f" "Suc n < 2 ^ 64"
  shows "\<exists>ts' r'. tok_exec order (Tok_add i f) (ts, r) = Inr (ts', r') \<and> tok_good (Suc n) (ts', r') \<and>
    length ts' = length ts"
proof (cases "i < length ts")
  case True
  have inv: "tok_inv (ts, r)" and quiet: "map_quiet (sr_map r)" and n: "unat (sr_next_id r) \<le> n"
    using assms(1) by (simp_all add: tok_good_def)
  have top: "sr_next_id r \<noteq> - 1" using unat_less_top [OF n assms(3)] .
  then have room: "sr_room r" using tok_invD(1) [OF inv] by (simp add: sr_room_def)
  note eq = tok_add_eq [OF inv room True, of order f]
  have "tok_good (Suc n) (ts[i := \<lparr>tok_id = sr_next_id r + 1, tok_register = True\<rparr>],
      sr_remove (tok_id (ts ! i)) (sr_insert f r))"
    using tok_add_inv [OF inv room True eq] n unat_plus_one [OF top] quiet assms(2)
    by (simp add: tok_good_def map_quiet_erase map_quiet_emplace sr_remove_def sr_insert_def Let_def)
  with eq show ?thesis by (intro exI) auto
next
  case False
  then show ?thesis using assms(1) by (auto simp: tok_good_def)
qed

lemma tok_assign_good:
  assumes "tok_good n (ts, r)"
  shows "\<exists>ts' r'. tok_exec order (Tok_assign i j) (ts, r) = Inr (ts', r') \<and> tok_good n (ts', r') \<and> length ts' = length ts"
proof -
  have inv: "tok_inv (ts, r)" and quiet: "map_quiet (sr_map r)" and n: "unat (sr_next_id r) \<le> n"
    using assms by (simp_all add: tok_good_def)
  have reg: "tok_id (ts ! i) \<noteq> 0 \<longrightarrow> tok_register (ts ! i)" if "i < length ts" for i
    using tok_invD(3) [OF inv that] by blast
  show ?thesis
  proof (cases "i < length ts \<and> j < length ts \<and> i \<noteq> j")
    case True
    let ?ts = "ts[i := (ts ! i)\<lparr>tok_id := tok_id (ts ! j), tok_register := tok_register (ts ! j)\<rparr>, j := (ts ! j)\<lparr>tok_id := 0\<rparr>]"
    have eq: "tok_exec order (Tok_assign i j) (ts, r) = Inr (?ts, sr_remove (tok_id (ts ! i)) r)"
      using True tok_assign_eq [OF tok_invD(1) [OF inv] reg] by simp
    then have "tok_inv (?ts, sr_remove (tok_id (ts ! i)) r)"
      using True tok_assign_inv [OF inv] by blast
    with eq n quiet show ?thesis
      by (auto simp: tok_good_def sr_remove_def map_quiet_erase)
  next
    case False
    then show ?thesis using assms by (auto simp: tok_assign_self_eq)
  qed
qed

lemma tok_reset_good:
  assumes "tok_good n (ts, r)"
  shows "\<exists>ts' r'. tok_exec order (Tok_reset i) (ts, r) = Inr (ts', r') \<and> tok_good n (ts', r') \<and> length ts' = length ts"
proof (cases "i < length ts")
  case True
  have inv: "tok_inv (ts, r)" and quiet: "map_quiet (sr_map r)" and n: "unat (sr_next_id r) \<le> n"
    using assms by (simp_all add: tok_good_def)
  have reg: "tok_id (ts ! i) \<noteq> 0 \<longrightarrow> tok_register (ts ! i)" using tok_invD(3) [OF inv True] by blast
  have eq: "tok_exec order (Tok_reset i) (ts, r) = Inr (ts[i := (ts ! i)\<lparr>tok_id := 0\<rparr>], sr_remove (tok_id (ts ! i)) r)"
    using True tok_reset_eq [OF tok_invD(1) [OF inv] reg] by simp
  then have "tok_inv (ts[i := (ts ! i)\<lparr>tok_id := 0\<rparr>], sr_remove (tok_id (ts ! i)) r)"
    using True tok_reset_inv [OF inv] by blast
  with eq n quiet show ?thesis
    by (auto simp: tok_good_def sr_remove_def map_quiet_erase)
qed (use assms in auto)

lemma tok_exec_good:
  assumes "tok_good n (ts, r)" "\<not> is_add c"
  shows "\<exists>ts' r'. tok_exec order c (ts, r) = Inr (ts', r') \<and> tok_good n (ts', r') \<and> length ts' = length ts"
proof -
  have inv: "tok_inv (ts, r)" and quiet: "map_quiet (sr_map r)" and n: "unat (sr_next_id r) \<le> n"
    using assms(1) by (simp_all add: tok_good_def)
  show ?thesis
  proof (cases c)
    case (Tok_assign i j)
    with tok_assign_good [OF assms(1)] show ?thesis by simp
  next
    case (Tok_swap i j)
    show ?thesis
    proof (cases "i < length ts \<and> j < length ts \<and> i \<noteq> j")
      case True
      then obtain ts' where eq: "tok_exec order (Tok_swap i j) (ts, r) = Inr (ts', r)" "length ts' = length ts"
        by (simp add: tok_swap_def)
      with True tok_swap_inv [OF inv] have "tok_inv (ts', r)" by blast
      with eq n quiet Tok_swap show ?thesis by (auto simp: tok_good_def)
    next
      case False
      then show ?thesis using Tok_swap assms(1) by auto
    qed
  next
    case (Tok_reset i)
    with tok_reset_good [OF assms(1)] show ?thesis by simp
  next
    case Tok_notify
    have "sr_map (sr_notify_all order r) = []" "sr_next_id (sr_notify_all order r) = sr_next_id r"
      using sr_notify_all_quiet [OF quiet] by simp_all
    moreover from this have "tok_inv (ts, sr_notify_all order r)"
      using inv by (simp add: tok_inv_def sr_wf_def)
    ultimately show ?thesis using n Tok_notify by (simp add: tok_good_def map_quiet_def)
  qed (use assms(2) in simp)
qed

lemma tok_client_good:
  "tok_good n (ts, r) \<Longrightarrow> list_all command_quiet cs \<Longrightarrow> n + adds cs < 2 ^ 64 \<Longrightarrow>
     \<exists>ts' r'. tok_client order cs (ts, r) = Inr (ts', r') \<and> tok_good (n + adds cs) (ts', r') \<and> length ts' = length ts"
proof (induction cs arbitrary: n ts r)
  case (Cons c cs)
  have "\<exists>ts' r'. tok_exec order c (ts, r) = Inr (ts', r') \<and> tok_good (n + adds [c]) (ts', r') \<and> length ts' = length ts"
  proof (cases "is_add c")
    case True
    then obtain i f where c: "c = Tok_add i f" by (cases c) auto
    with Cons.prems tok_exec_add_good [of n ts r f order i] show ?thesis by simp
  next
    case False
    with tok_exec_good [OF Cons.prems(1)] show ?thesis by simp
  qed
  then obtain ts1 r1 where step: "tok_exec order c (ts, r) = Inr (ts1, r1)" "tok_good (n + adds [c]) (ts1, r1)"
    "length ts1 = length ts" by blast
  have len: "n + adds [c] + adds cs = n + adds (c # cs)" by simp
  from Cons.IH [OF step(2)] Cons.prems(2,3) step(1,3) show ?case
    unfolding len by (simp del: filter.simps)
qed simp

lemma tok_start_good: "tok_good 0 (tok_start n)"
  by (simp add: tok_good_def tok_start_def tok_inv_def sr_wf_def sr_construct_def tok_construct_def map_quiet_def)

text \<open>Resetting the variables from \<open>i\<close> on leaves null ids behind.\<close>

lemma tok_reset_all:
  "tok_client order (map Tok_reset [i..<length ts]) (ts, r) = Inr (ts', r') \<Longrightarrow>
     (\<forall>t \<in> set (take i ts). tok_id t = 0) \<Longrightarrow> i \<le> length ts \<Longrightarrow> \<forall>t \<in> set ts'. tok_id t = 0"
proof (induction "length ts - i" arbitrary: i ts r)
  case 0
  then show ?case by simp
next
  case (Suc k)
  then have i: "i < length ts" by linarith
  then have "map Tok_reset [i..<length ts] = Tok_reset i # map Tok_reset [Suc i..<length ts]"
    by (simp add: upt_conv_Cons)
  then obtain ts1 r1 where e: "tok_exec order (Tok_reset i) (ts, r) = Inr (ts1, r1)"
    and rest: "tok_client order (map Tok_reset [Suc i..<length ts]) (ts1, r1) = Inr (ts', r')"
    using Suc.prems(1) by (auto simp: and_then_Inr)
  have ts1: "ts1 = ts[i := (ts ! i)\<lparr>tok_id := 0\<rparr>]"
    using e i by (auto simp: and_then_Inr tok_reset_def Let_def split: if_splits)
  show ?case
  proof (rule Suc.hyps(1))
    show "k = length ts1 - Suc i" using Suc.hyps(2) by (simp add: ts1)
    show "tok_client order (map Tok_reset [Suc i..<length ts1]) (ts1, r1) = Inr (ts', r')"
      using rest by (simp add: ts1)
    show "\<forall>t \<in> set (take (Suc i) ts1). tok_id t = 0"
      using i Suc.prems(2) by (auto simp: ts1 take_Suc_conv_app_nth)
    show "Suc i \<le> length ts1" using i by (simp add: ts1)
  qed
qed

section \<open>Callbacks by name\<close>

text \<open>
  A callback is now a name, the name of the slot it is registered with, and \<open>env\<close> gives the commands
  each callback runs. They are commands over the same token variables as the program's, so that what
  \<open>add\<close> returns is assigned to a variable and the token it held before is destroyed. \<open>notify_all\<close>
  moves the map out, clears it, and calls each callback in turn. A run need not end.
\<close>

datatype cb_call = Cb_do tok_command | Cb_call nat

partial_function (option) cb_run ::
    "(slot_map \<Rightarrow> slot_map) \<Rightarrow> (nat \<Rightarrow> tok_command list) \<Rightarrow> cb_call list \<Rightarrow>
       sr_token list \<times> stop_register \<Rightarrow> (sr_token list \<times> stop_register) result option" where
  "cb_run order env k p =
     (case k of
        [] \<Rightarrow> Some (Inr p)
      | Cb_call m # k' \<Rightarrow> cb_run order env (map Cb_do (env m) @ k') (fst p, sr_enter (Slot m []) (snd p))
      | Cb_do c # k' \<Rightarrow>
          (if c = Tok_notify then
             cb_run order env (map (Cb_call \<circ> slot_name \<circ> snd) (iteration order (sr_map (snd p))) @ k')
               (fst p, (snd p)\<lparr>sr_map := []\<rparr>)
           else
             (case tok_exec order c p of
                Inl x \<Rightarrow> Some (Inl x)
              | Inr p' \<Rightarrow> cb_run order env k' p')))"

lemma cb_run_simps:
  "cb_run order env [] p = Some (Inr p)"
  "cb_run order env (Cb_call m # k) p = cb_run order env (map Cb_do (env m) @ k) (fst p, sr_enter (Slot m []) (snd p))"
  "cb_run order env (Cb_do Tok_notify # k) p =
     cb_run order env (map (Cb_call \<circ> slot_name \<circ> snd) (iteration order (sr_map (snd p))) @ k)
       (fst p, (snd p)\<lparr>sr_map := []\<rparr>)"
  "c \<noteq> Tok_notify \<Longrightarrow> cb_run order env (Cb_do c # k) p =
     (case tok_exec order c p of Inl x \<Rightarrow> Some (Inl x) | Inr p' \<Rightarrow> cb_run order env k p')"
  by (simp_all add: cb_run.simps [of order env] split: sum.split)

subsection \<open>When it ends\<close>

definition toks_registered :: "sr_token list \<Rightarrow> bool" where
  "toks_registered ts \<longleftrightarrow> (\<forall>t \<in> set ts. tok_id t \<noteq> 0 \<longrightarrow> tok_register t)"

fun tok_added :: "tok_command \<Rightarrow> nat multiset" where
  "tok_added (Tok_add i f) = {#slot_name f#}"
| "tok_added _ = {#}"

abbreviation map_names :: "slot_map \<Rightarrow> nat multiset" where
  "map_names m \<equiv> image_mset (slot_name \<circ> snd) (mset m)"

lemma map_names_erase: "map_names (erase i m) \<subseteq># map_names m"
  by (simp add: erase_def image_mset_subseteq_mono multiset_filter_subset)

lemma toks_registered_update:
  "toks_registered ts \<Longrightarrow> (tok_id t \<noteq> 0 \<longrightarrow> tok_register t) \<Longrightarrow> toks_registered (ts[i := t])"
  using set_update_subset_insert [of ts i t] by (auto simp: toks_registered_def)

lemma toks_registered_nth: "toks_registered ts \<Longrightarrow> i < length ts \<Longrightarrow> tok_id (ts ! i) \<noteq> 0 \<longrightarrow> tok_register (ts ! i)"
  by (simp add: toks_registered_def)

lemma tok_reset_names:
  assumes "tok_id t \<noteq> 0 \<longrightarrow> tok_register t"
  shows "\<exists>r'. tok_reset t r = Inr (t\<lparr>tok_id := 0\<rparr>, r') \<and> map_names (sr_map r') \<subseteq># map_names (sr_map r)"
  using assms map_names_erase by (auto simp: tok_reset_def sr_remove_def Let_def)

lemma tok_assign_names:
  assumes "tok_id this \<noteq> 0 \<longrightarrow> tok_register this"
  shows "\<exists>r'. tok_assign this other r =
    Inr (this\<lparr>tok_id := tok_id other, tok_register := tok_register other\<rparr>, other\<lparr>tok_id := 0\<rparr>, r') \<and>
    map_names (sr_map r') \<subseteq># map_names (sr_map r)"
  using tok_reset_names [of "\<lparr>tok_id = tok_id this, tok_register = tok_register this\<rparr>" r] assms
  by (auto simp: tok_assign_def tok_move_def tok_swap_def tok_destroy_def)

lemma tok_add_names:
  assumes "tok_id (ts ! i) \<noteq> 0 \<longrightarrow> tok_register (ts ! i)" "i < length ts"
  shows "\<exists>r'. tok_exec order (Tok_add i f) (ts, r) =
      Inr (ts[i := \<lparr>tok_id = sr_next_id r + 1, tok_register = True\<rparr>], r') \<and>
    map_names (sr_map r') \<subseteq># map_names (sr_map r) + {#slot_name f#}"
proof -
  let ?t = "tok_construct (sr_next_id r + 1) True" and ?r = "sr_insert f r"
  obtain r' where r': "tok_assign (ts ! i) ?t ?r =
      Inr ((ts ! i)\<lparr>tok_id := tok_id ?t, tok_register := tok_register ?t\<rparr>, ?t\<lparr>tok_id := 0\<rparr>, r')"
    "map_names (sr_map r') \<subseteq># map_names (sr_map ?r)"
    using tok_assign_names [OF assms(1), of ?t ?r] by blast
  have "map_names (sr_map ?r) \<subseteq># map_names (sr_map r) + {#slot_name f#}"
    by (simp add: sr_insert_def emplace_def Let_def)
  with r' assms(2) show ?thesis
    by (cases "ts ! i")
      (auto simp: sr_add_def sr_insert_def Let_def tok_construct_def tok_destroy_def tok_reset_def
        intro: subset_mset.order_trans)
qed

lemma tok_exec_names:
  assumes "toks_registered ts" "c \<noteq> Tok_notify"
  shows "\<exists>ts' r'. tok_exec order c (ts, r) = Inr (ts', r') \<and> toks_registered ts' \<and>
    map_names (sr_map r') \<subseteq># map_names (sr_map r) + tok_added c"
proof (cases c)
  case (Tok_add i f)
  show ?thesis
  proof (cases "i < length ts")
    case True
    with tok_add_names [OF toks_registered_nth [OF assms(1) True] True, of order f r] Tok_add
    show ?thesis using toks_registered_update [OF assms(1)] by (auto simp del: tok_exec.simps)
  qed (use Tok_add assms(1) in simp)
next
  case (Tok_assign i j)
  show ?thesis
  proof (cases "i < length ts \<and> j < length ts \<and> i \<noteq> j")
    case True
    with tok_assign_names [OF toks_registered_nth [OF assms(1)], of i "ts ! j" r] Tok_assign assms(1)
    show ?thesis
      by (auto simp: toks_registered_nth intro!: toks_registered_update)
  qed (use Tok_assign assms(1) in \<open>auto simp: tok_assign_self_eq\<close>)
next
  case (Tok_swap i j)
  then show ?thesis using assms(1)
    by (auto simp: tok_swap_def toks_registered_nth intro!: toks_registered_update)
next
  case (Tok_reset i)
  show ?thesis
  proof (cases "i < length ts")
    case True
    with tok_reset_names [OF toks_registered_nth [OF assms(1) True], of r] Tok_reset assms(1)
    show ?thesis by (auto intro!: toks_registered_update)
  qed (use Tok_reset assms(1) in simp)
qed (use assms(2) in simp)

text \<open>
  The ranks of the callbacks that are registered, are going to be registered by a command on the
  stack, or are about to be called. A call replaces its callback's rank by smaller ones; other
  commands do not add any.
\<close>

fun cb_names :: "cb_call \<Rightarrow> nat multiset" where
  "cb_names (Cb_do c) = tok_added c"
| "cb_names (Cb_call m) = {#m#}"

definition cb_load :: "(nat \<Rightarrow> nat) \<Rightarrow> cb_call list \<Rightarrow> stop_register \<Rightarrow> nat multiset" where
  "cb_load rank k r = image_mset rank (sum_list (map cb_names k) + map_names (sr_map r))"

fun is_do :: "cb_call \<Rightarrow> bool" where
  "is_do (Cb_do c) = True"
| "is_do (Cb_call m) = False"

definition cb_order :: "((nat multiset \<times> nat) \<times> (nat multiset \<times> nat)) set" where
  "cb_order = mult less_than <*lex*> less_than"

lemma wf_cb_order: "wf cb_order"
  unfolding cb_order_def by (intro wf_lex_prod wf_mult wf_less_than)

lemma cb_names_calls: "sum_list (map (cb_names \<circ> (Cb_call \<circ> slot_name \<circ> snd)) m) = map_names m"
  by (induction m) simp_all

lemma cb_names_commands:
  "\<forall>i f. Tok_add i f \<in> set cs \<longrightarrow> rank (slot_name f) < (b :: nat) \<Longrightarrow>
     \<forall>a \<in># image_mset rank (sum_list (map (cb_names \<circ> Cb_do) cs)). a < b"
proof (induction cs)
  case (Cons c cs)
  then show ?case by (cases c) auto
qed simp

lemma cb_load_call:
  assumes "\<forall>i f. Tok_add i f \<in> set (env m) \<longrightarrow> rank (slot_name f) < rank m"
  shows "((cb_load rank (map Cb_do (env m) @ k) (sr_enter (Slot m []) r), a), (cb_load rank (Cb_call m # k) r, b)) \<in> cb_order"
proof -
  let ?I = "image_mset rank (sum_list (map cb_names k) + map_names (sr_map r))"
  let ?K = "image_mset rank (sum_list (map (cb_names \<circ> Cb_do) (env m)))"
  have "(?I + ?K, ?I + {#rank m#}) \<in> mult less_than"
    by (rule one_step_implies_mult) (use cb_names_commands [of "env m" rank "rank m"] assms in auto)
  then show ?thesis by (simp add: cb_order_def cb_load_def sr_enter_def ac_simps)
qed

lemma cb_load_le:
  assumes "A \<subseteq># B" "a < b"
  shows "((A, a), (B, b)) \<in> cb_order"
  using assms subset_implies_mult [of A B less_than]
  by (cases "A = B") (auto simp: cb_order_def subset_mset.less_le)

lemma cb_run_total:
  assumes rank: "\<forall>m i f. Tok_add i f \<in> set (env m) \<longrightarrow> rank (slot_name f) < (rank m :: nat)"
  shows "toks_registered ts \<Longrightarrow> \<exists>ts' r'. cb_run order env k (ts, r) = Some (Inr (ts', r'))"
proof (induction "(cb_load rank k r, length (filter is_do k))" arbitrary: k ts r
    rule: wf_induct_rule [OF wf_cb_order])
  case less: (1 k r ts)
  show ?case
  proof (cases k)
    case Nil
    then show ?thesis by (simp add: cb_run_simps)
  next
    case (Cons x k')
    show ?thesis
    proof (cases x)
      case (Cb_call m)
      have "((cb_load rank (map Cb_do (env m) @ k') (sr_enter (Slot m []) r),
          length (filter is_do (map Cb_do (env m) @ k'))), (cb_load rank k r, length (filter is_do k))) \<in> cb_order"
        unfolding Cons Cb_call by (rule cb_load_call) (use rank in blast)
      from less.hyps [OF this less.prems] Cons Cb_call show ?thesis by (simp add: cb_run_simps)
    next
      case (Cb_do c)
      show ?thesis
      proof (cases "c = Tok_notify")
        case True
        let ?calls = "map (Cb_call \<circ> slot_name \<circ> snd) (iteration order (sr_map r))"
        have "sum_list (map cb_names ?calls) = map_names (sr_map r)"
          using cb_names_calls [of "iteration order (sr_map r)"] by (simp add: comp_def)
        then have "cb_load rank (?calls @ k') (r\<lparr>sr_map := []\<rparr>) \<subseteq># cb_load rank k r"
          using Cons Cb_do True by (simp add: cb_load_def ac_simps)
        moreover have "length (filter is_do (?calls @ k')) < length (filter is_do k)"
          using Cons Cb_do by (simp add: comp_def)
        ultimately show ?thesis
          using less.hyps [OF cb_load_le less.prems] Cons Cb_do True by (simp add: cb_run_simps)
      next
        case False
        obtain ts' r' where c: "tok_exec order c (ts, r) = Inr (ts', r')" "toks_registered ts'"
            "map_names (sr_map r') \<subseteq># map_names (sr_map r) + tok_added c"
          using tok_exec_names [OF less.prems False] by blast
        let ?K = "sum_list (map cb_names k')"
        have "sum_list (map cb_names k) + map_names (sr_map r) = ?K + (map_names (sr_map r) + tok_added c)"
          using Cons Cb_do by (simp add: ac_simps)
        moreover have "?K + map_names (sr_map r') \<subseteq># ?K + (map_names (sr_map r) + tok_added c)"
          by (rule subset_mset.add_left_mono [OF c(3)])
        ultimately have "cb_load rank k' r' \<subseteq># cb_load rank k r"
          unfolding cb_load_def by (metis image_mset_subseteq_mono)
        moreover have "length (filter is_do k') < length (filter is_do k)"
          using Cons Cb_do by simp
        ultimately show ?thesis
          using less.hyps [OF cb_load_le c(2)] Cons Cb_do False c(1) by (simp add: cb_run_simps)
      qed
    qed
  qed
qed

subsection \<open>When it does not\<close>

text \<open>The states a callback \<open>m\<close> comes back to that registers itself in variable 0 and notifies.\<close>

definition cb_looping :: "nat \<Rightarrow> cb_call list \<Rightarrow> sr_token list \<times> stop_register \<Rightarrow> bool" where
  "cb_looping m k p \<longleftrightarrow>
     (\<exists>t ts. fst p = t # ts \<and> tok_id t = sr_next_id (snd p) \<and> (tok_id t \<noteq> 0 \<longrightarrow> tok_register t)) \<and>
     (sr_map (snd p) = [] \<and>
        (\<exists>k'. k = Cb_call m # k' \<or> k = Cb_do (Tok_add 0 (Slot m [])) # Cb_do Tok_notify # k') \<or>
      (\<exists>i k'. sr_map (snd p) = [(i, Slot m [])] \<and> k = Cb_do Tok_notify # k'))"

lemma iteration_single: "iteration order [x] = [x]"
  by (simp add: iteration_def)

lemma tok_add_looping:
  assumes "tok_id t = sr_next_id r" "tok_id t \<noteq> 0 \<longrightarrow> tok_register t" "sr_map r = []"
  shows "tok_exec order (Tok_add 0 f) (t # ts, r) =
    Inr (\<lparr>tok_id = sr_next_id r + 1, tok_register = True\<rparr> # ts,
         r\<lparr>sr_next_id := sr_next_id r + 1, sr_map := [(sr_next_id r + 1, f)]\<rparr>)"
  using assms
  by (cases t) (simp add: sr_defs Let_def emplace_def erase_def)

lemma cb_run_not_looping:
  "cb_run order env k p = Some y \<Longrightarrow> env m = [Tok_add 0 (Slot m []), Tok_notify] \<Longrightarrow> \<not> cb_looping m k p"
proof (induction order env k p y rule: cb_run.raw_induct [rotated, consumes 1, case_names step])
  case (step go order env k p y)
  note body = step.hyps and IH = step.IH
  show ?case
  proof
    assume loop: "cb_looping m k p"
    then obtain t ts r where p: "p = (t # ts, r)" and t: "tok_id t = sr_next_id r" "tok_id t \<noteq> 0 \<longrightarrow> tok_register t"
      by (cases p) (auto simp: cb_looping_def)
    from loop p consider
        (called) k' where "k = Cb_call m # k'" "sr_map r = []"
      | (adds) k' where "k = Cb_do (Tok_add 0 (Slot m [])) # Cb_do Tok_notify # k'" "sr_map r = []"
      | (notifies) i k' where "k = Cb_do Tok_notify # k'" "sr_map r = [(i, Slot m [])]"
      by (auto simp: cb_looping_def)
    then show False
    proof cases
      case called
      with body p step.prems
      have "go order env (Cb_do (Tok_add 0 (Slot m [])) # Cb_do Tok_notify # k') (t # ts, sr_enter (Slot m []) r) = Some y"
        by simp
      from IH [OF this step.prems] called t show False by (auto simp: cb_looping_def sr_enter_def)
    next
      case adds
      with body p tok_add_looping [OF t, of order "Slot m []" ts]
      have "go order env (Cb_do Tok_notify # k') (\<lparr>tok_id = sr_next_id r + 1, tok_register = True\<rparr> # ts,
          r\<lparr>sr_next_id := sr_next_id r + 1, sr_map := [(sr_next_id r + 1, Slot m [])]\<rparr>) = Some y"
        by (simp del: tok_exec.simps)
      from IH [OF this step.prems] show False by (auto simp: cb_looping_def)
    next
      case notifies
      with body p have "go order env (Cb_call m # k') (t # ts, r\<lparr>sr_map := []\<rparr>) = Some y"
        by (simp add: iteration_single)
      from IH [OF this step.prems] t show False by (auto simp: cb_looping_def)
    qed
  qed
qed

lemma cb_run_looping:
  assumes "env m = [Tok_add 0 (Slot m []), Tok_notify]" "cb_looping m k p"
  shows "cb_run order env k p = None"
  using cb_run_not_looping [of order env k p _ m] assms by (cases "cb_run order env k p") auto

section \<open>Properties\<close>

text \<open>
  C21. No callback outlives its token. The callbacks here do not register others when they run, and the
  program makes fewer than \<open>2 ^ 64\<close> registrations, so that no id wraps to the null id. Then any
  program over \<open>n\<close> token variables (additions, move assignments, swaps, resets, notifications,
  self-assignments included) runs without touching a null register, and when its variables have
  been reset or destroyed the register is empty.
\<close>

theorem tok_callbacks_do_not_outlive_tokens:
  assumes "list_all command_quiet program" "adds program < 2 ^ 64"
  shows "\<exists>ts r. tok_client order (program @ map Tok_reset [0..<n]) (tok_start n) = Inr (ts, r) \<and> sr_map r = []"
proof -
  obtain ts0 r0 where s: "tok_start n = (ts0, r0)" "length ts0 = n" by (simp add: tok_start_def)
  obtain ts1 r1 where p: "tok_client order program (tok_start n) = Inr (ts1, r1)" "tok_good (adds program) (ts1, r1)" "length ts1 = n"
    using tok_client_good [of 0 ts0 r0 program order] tok_start_good [of n] assms s by auto
  have "adds (map Tok_reset [0..<n]) = 0" "list_all command_quiet (map Tok_reset [0..<n])"
    by (simp_all add: list_all_iff filter_empty_conv)
  then obtain ts r where e: "tok_client order (map Tok_reset [0..<n]) (ts1, r1) = Inr (ts, r)"
      "tok_good (adds program) (ts, r)"
    using tok_client_good [OF p(2), of "map Tok_reset [0..<n]" order] assms(2) by auto
  have ids: "\<forall>t \<in> set ts. tok_id t = 0"
    using tok_reset_all [of order 0 ts1 r1 ts r] e(1) p(3) by simp
  have "sr_wf r" "fst ` set (sr_map r) \<subseteq> tok_id ` set ts"
    using e(2) tok_invD(1,2) by (auto simp: tok_good_def)
  with ids have "sr_map r = []" by (cases "sr_map r") (fastforce simp: sr_wf_def)+
  with p(1) e(1) show ?thesis by (simp add: tok_client_append)
qed

theorem tok_callbacks_do_not_outlive_tokens_witness:
  "\<exists>ts r. tok_client rev ([Tok_add 0 (Slot 1 []), Tok_add 0 (Slot 2 []), Tok_assign 1 0, Tok_assign 1 1] @
     map Tok_reset [0..<2]) (tok_start 2) = Inr (ts, r) \<and> sr_map r = []"
  by (rule tok_callbacks_do_not_outlive_tokens) simp_all

text \<open>
  A token guards its own callback only: after any such program, resetting one variable
  removes exactly the callback of that variable, and the callbacks of all others stay.
\<close>

theorem tok_reset_removes_own:
  assumes "list_all command_quiet program" "adds program < 2 ^ 64"
    and "tok_client order program (tok_start n) = Inr (ts, r)" "i < n"
  shows "\<exists>ts' r'. tok_exec order (Tok_reset i) (ts, r) = Inr (ts', r') \<and>
    map_of (sr_map r') (tok_id (ts ! i)) = None \<and>
    (\<forall>j < n. j \<noteq> i \<longrightarrow> map_of (sr_map r') (tok_id (ts ! j)) = map_of (sr_map r) (tok_id (ts ! j)))"
proof -
  obtain ts0 r0 where s: "tok_start n = (ts0, r0)" "length ts0 = n" by (simp add: tok_start_def)
  have good: "tok_good (adds program) (ts, r)" "length ts = n"
    using tok_client_good [of 0 ts0 r0 program order] tok_start_good [of n] assms s by auto
  then have inv: "tok_inv (ts, r)" and i: "i < length ts" using assms(4) by (simp_all add: tok_good_def)
  have eq: "tok_exec order (Tok_reset i) (ts, r) = Inr (ts[i := (ts ! i)\<lparr>tok_id := 0\<rparr>], sr_remove (tok_id (ts ! i)) r)"
    using i tok_reset_eq [OF tok_invD(1) [OF inv]] tok_invD(3) [OF inv i] by simp
  have zero: "map_of (sr_map r) 0 = None"
    using tok_invD(1) [OF inv] by (auto simp: sr_wf_def map_of_eq_None_iff)
  have "map_of (sr_map (sr_remove (tok_id (ts ! i)) r)) (tok_id (ts ! j)) = map_of (sr_map r) (tok_id (ts ! j))"
    if "j < n" "j \<noteq> i" for j
    using tok_invD(4) [OF inv, of i j] i good(2) that zero
    by (cases "tok_id (ts ! i) = 0") (auto simp: sr.remove_lookup)
  with eq show ?thesis by (simp add: sr.remove_lookup)
qed

theorem tok_reset_removes_own_witness:
  "\<exists>ts r ts' r'. tok_client rev [Tok_add 0 (Slot 1 []), Tok_add 1 (Slot 2 [])] (tok_start 2) = Inr (ts, r) \<and>
     tok_exec rev (Tok_reset 0) (ts, r) = Inr (ts', r') \<and> map_of (sr_map r') (tok_id (ts ! 1)) = Some (Slot 2 [])"
proof -
  obtain ts r where p: "tok_client rev [Tok_add 0 (Slot 1 []), Tok_add 1 (Slot 2 [])] (tok_start 2) = Inr (ts, r)"
    and m: "map_of (sr_map r) (tok_id (ts ! 1)) = Some (Slot 2 [])"
    by (simp add: tok_start_def numeral_2_eq_2 sr_defs Let_def emplace_def)
  from tok_reset_removes_own [OF _ _ p, of 0] m p show ?thesis by fastforce
qed

text \<open>
  C36. When notifying ends, and when it does not. Callbacks may use the token variables and the
  register while they run: register others, drop tokens, notify again. If the callbacks can be
  ranked so that each one registers only callbacks of lower rank, every program runs to its end,
  whatever the iteration order, and never touches a null register. A callback that registers itself
  again and then notifies is the converse: notifying never returns.
\<close>

theorem cb_notify_terminates:
  "((\<forall>m i f. Tok_add i f \<in> set (env m) \<longrightarrow> rank (slot_name f) < (rank m :: nat)) \<longrightarrow>
      (\<exists>ts r. cb_run order env (map Cb_do program) (tok_start n) = Some (Inr (ts, r)))) \<and>
   (env m = [Tok_add 0 (Slot m []), Tok_notify] \<longrightarrow>
      cb_run order env (map Cb_do [Tok_add 0 (Slot m []), Tok_notify]) (tok_start (Suc n)) = None)"
proof (intro conjI impI)
  assume "\<forall>m i f. Tok_add i f \<in> set (env m) \<longrightarrow> rank (slot_name f) < rank m"
  then show "\<exists>ts r. cb_run order env (map Cb_do program) (tok_start n) = Some (Inr (ts, r))"
    using cb_run_total [of env rank "replicate n (tok_construct 0 False)"]
    by (simp add: tok_start_def toks_registered_def tok_construct_def)
next
  assume env: "env m = [Tok_add 0 (Slot m []), Tok_notify]"
  have "cb_looping m (map Cb_do [Tok_add 0 (Slot m []), Tok_notify]) (tok_start (Suc n))"
    by (simp add: cb_looping_def tok_start_def tok_construct_def sr_construct_def)
  then show "cb_run order env (map Cb_do [Tok_add 0 (Slot m []), Tok_notify]) (tok_start (Suc n)) = None"
    by (rule cb_run_looping [where env = env and m = m, OF env])
qed

text \<open>Callback 1 registers callback 2 and notifies; callback 3 does the same with itself.\<close>

definition cb_example :: "nat \<Rightarrow> tok_command list" where
  "cb_example m = (if m = 1 then [Tok_add 0 (Slot 2 []), Tok_notify]
     else if m = 3 then [Tok_add 0 (Slot 3 []), Tok_notify] else [])"

theorem cb_notify_terminates_witness:
  "(\<exists>ts r. cb_run rev (cb_example(3 := [])) (map Cb_do [Tok_add 1 (Slot 1 []), Tok_notify]) (tok_start 2) = Some (Inr (ts, r))) \<and>
   cb_run rev cb_example (map Cb_do [Tok_add 0 (Slot 3 []), Tok_notify]) (tok_start 2) = None"
proof
  have "\<forall>m i f. Tok_add i f \<in> set ((cb_example(3 := [])) m) \<longrightarrow> 3 - slot_name f < 3 - m"
    by (auto simp: cb_example_def)
  then show "\<exists>ts r. cb_run rev (cb_example(3 := [])) (map Cb_do [Tok_add 1 (Slot 1 []), Tok_notify]) (tok_start 2) = Some (Inr (ts, r))"
    by (rule cb_notify_terminates [THEN conjunct1, THEN mp])
  show "cb_run rev cb_example (map Cb_do [Tok_add 0 (Slot 3 []), Tok_notify]) (tok_start 2) = None"
    unfolding numeral_2_eq_2
    by (rule cb_notify_terminates [THEN conjunct2, THEN mp]) (simp add: cb_example_def)
qed

text \<open>
  The ids wrap: the registration after \<open>2 ^ 64 - 1\<close> others gets id 0, which a token takes for
  "not registered", so that resetting the token leaves the callback in the register.
\<close>

theorem sr_id_wraps:
  assumes "sr_next_id r = - 1" "0 \<notin> fst ` set (sr_map r)" "sr_add f r = (t, r')"
  shows "tok_id t = 0 \<and> map_of (sr_map r') 0 = Some f \<and> tok_reset t r' = Inr (t, r')"
  using assms by (auto simp: sr_add_def tok_construct_def sr_insert_def Let_def tok_reset_def map_of_emplace)

theorem sr_id_wraps_witness:
  "\<exists>t r'. sr_add (Slot 1 []) (sr_construct\<lparr>sr_next_id := - 1\<rparr>) = (t, r') \<and>
     map_of (sr_map r') 0 = Some (Slot 1 []) \<and> tok_reset t r' = Inr (t, r')"
  using sr_id_wraps [of "sr_construct\<lparr>sr_next_id := - 1\<rparr>" "Slot 1 []"]
  by (cases "sr_add (Slot 1 []) (sr_construct\<lparr>sr_next_id := - 1\<rparr>)") (simp add: sr_construct_def)

end
