(* ===== verification/Fmex_Client.thy ===== *)
theory Fmex_Client
  imports Blog_Client Stop_Register
begin

text \<open>
  \<^verbatim>\<open>pre-cxx20/fmex_client\<close>: \<^verbatim>\<open>connect_transport_op.hpp\<close>,
  \<^verbatim>\<open>connection_base.hpp\<close>, \<^verbatim>\<open>connection_base.cpp\<close>, \<^verbatim>\<open>fmex_connection.hpp\<close> and
  the application of \<^verbatim>\<open>main.cpp\<close>. A connection owns a \<^verbatim>\<open>stop_register\<close>; the
  connect operation and the connected state each keep a callback in it through a token. JSON text
  is parsed and printed by a library and a parameter of the model, as is the iteration order of
  the register's map. The suspension points of the connect coroutine are those of the transport
  of the blog, which has the same steps.
\<close>

section \<open>State\<close>

datatype xc_send_state_t = xc_send_idle | xc_send_sending

datatype xc_ping_state_t = ping_not_active | ping_waiting_timer | ping_exited

text \<open>
  \<open>xc_op_token\<close> is the \<^verbatim>\<open>stop_token_\<close> in the state of the connect operation, as are the host, port,
  path and endpoints; \<open>xc_calls\<close> is the history of what the operation asked of the resolver and the
  layers of the stream.
\<close>

record exchange_connection = "ws_op io" +
  xc_buffer :: string
  xc_tx_queue :: "string list"
  xc_send_state :: xc_send_state_t
  xc_register :: stop_register
  xc_my_token :: sr_token
  xc_op_token :: sr_token
  xc_point :: connect_point
  xc_ping_state :: xc_ping_state_t
  xc_completions :: "error_code list"
  xc_errors :: "error_code list"
  xc_host :: string
  xc_port :: string
  xc_path :: string
  xc_endpoints :: "string list"
  xc_calls :: "connect_call list"

record xc_env =
  env_order :: "slot_map \<Rightarrow> slot_map"
  env_parse :: json_parse
  env_dump :: json_serialize

definition xc_construct :: exchange_connection where
  "xc_construct = \<lparr>pending = [], started = [], xc_buffer = [], xc_tx_queue = [], xc_send_state = xc_send_idle,
     xc_register = sr_construct, xc_my_token = tok_construct 0 False, xc_op_token = tok_construct 0 False,
     xc_point = At_start, xc_ping_state = ping_not_active, xc_completions = [], xc_errors = [],
     xc_host = [], xc_port = [], xc_path = [], xc_endpoints = [], xc_calls = []\<rparr>"

section \<open>The callbacks in the register\<close>

text \<open>
  The three callbacks: cancel the resolver, cancel the socket (both of the connect operation),
  and start the closing handshake.
\<close>

definition cancel_resolver :: slot where "cancel_resolver = Slot 1 []"
definition cancel_socket :: slot where "cancel_socket = Slot 2 []"
definition close_stream :: slot where "close_stream = Slot 3 []"

definition xc_initiate_close :: "exchange_connection \<Rightarrow> exchange_connection" where
  "xc_initiate_close s = initiate (Close_op (going_away, [])) s"

definition xc_callback :: "nat \<Rightarrow> exchange_connection \<Rightarrow> exchange_connection" where
  "xc_callback n s =
     (if n = slot_name cancel_resolver then perform Cancel_resolve s
      else if n = slot_name cancel_socket then perform Cancel_socket s
      else if n = slot_name close_stream then xc_initiate_close s
      else s)"

definition xc_stop :: "xc_env \<Rightarrow> exchange_connection \<Rightarrow> exchange_connection" where
  "xc_stop v s =
     (let r = sr_notify_all (env_order v) (xc_register s);
          calls = drop (length (sr_invoked (xc_register s))) (sr_invoked r)
      in fold xc_callback calls (s\<lparr>xc_register := r\<rparr>))"

text \<open>Assignments \<^verbatim>\<open>token = stop_register_.add(callback)\<close> to the two tokens, and their ends.\<close>

definition xc_set_op_token :: "slot \<Rightarrow> exchange_connection \<Rightarrow> exchange_connection result" where
  "xc_set_op_token f s =
     (let (t, r) = sr_add f (xc_register s) in
      and_then (tok_assign (xc_op_token s) t r) (\<lambda>(this, t', r').
        Inr (s\<lparr>xc_op_token := this, xc_register := r'\<rparr>)))"

definition xc_set_my_token :: "slot \<Rightarrow> exchange_connection \<Rightarrow> exchange_connection result" where
  "xc_set_my_token f s =
     (let (t, r) = sr_add f (xc_register s) in
      and_then (tok_assign (xc_my_token s) t r) (\<lambda>(this, t', r').
        Inr (s\<lparr>xc_my_token := this, xc_register := r'\<rparr>)))"

definition xc_reset_op_token :: "exchange_connection \<Rightarrow> exchange_connection result" where
  "xc_reset_op_token s =
     and_then (tok_reset (xc_op_token s) (xc_register s)) (\<lambda>(t, r).
       Inr (s\<lparr>xc_op_token := t, xc_register := r\<rparr>))"

section \<open>Ping\<close>

definition xc_ping_stop :: "exchange_connection \<Rightarrow> exchange_connection" where
  "xc_ping_stop s =
     (case xc_ping_state s of ping_waiting_timer \<Rightarrow> perform Cancel_wait s | _ \<Rightarrow> s)\<lparr>xc_ping_state := ping_exited\<rparr>"

definition xc_on_error :: "error_code \<Rightarrow> exchange_connection \<Rightarrow> exchange_connection" where
  "xc_on_error e s = xc_ping_stop (s\<lparr>xc_errors := xc_errors s @ [e]\<rparr>)"

text \<open>Both overloads of \<open>fail\<close>: they print and call \<open>on_error\<close>.\<close>

definition xc_fail :: "error_code \<Rightarrow> exchange_connection \<Rightarrow> exchange_connection" where
  "xc_fail e s = xc_on_error e s"

definition xc_ping_enter_waiting_state :: "exchange_connection \<Rightarrow> exchange_connection" where
  "xc_ping_enter_waiting_state s = initiate (Wait_op 5) (s\<lparr>xc_ping_state := ping_waiting_timer\<rparr>)"

definition xc_ping_start :: "exchange_connection \<Rightarrow> exchange_connection result" where
  "xc_ping_start s =
     and_then (check (xc_ping_state s = ping_not_active) ''ping_state_ == ping_not_active'' s) (\<lambda>s.
       Inr (xc_ping_enter_waiting_state s))"

section \<open>Sending\<close>

definition xc_initiate_send :: "exchange_connection \<Rightarrow> exchange_connection result" where
  "xc_initiate_send s =
     and_then (check (xc_send_state s = xc_send_idle) ''send_state_ == send_idle'' s) (\<lambda>s.
     and_then (check (xc_tx_queue s \<noteq> []) ''!tx_queue_.empty()'' s) (\<lambda>s.
       Inr (initiate (Write_op (hd (xc_tx_queue s))) (s\<lparr>xc_send_state := xc_send_sending\<rparr>))))"

definition xc_notify_send :: "string \<Rightarrow> exchange_connection \<Rightarrow> exchange_connection result" where
  "xc_notify_send frame s =
     (let s1 = s\<lparr>xc_tx_queue := xc_tx_queue s @ [frame]\<rparr> in
      if xc_send_state s1 = xc_send_idle then xc_initiate_send s1 else Inr s1)"

definition xc_on_write :: "error_code \<Rightarrow> exchange_connection \<Rightarrow> exchange_connection result" where
  "xc_on_write e s =
     (let s1 = s\<lparr>xc_send_state := xc_send_idle\<rparr> in
      and_then (check (xc_tx_queue s1 \<noteq> []) ''!tx_queue_.empty()'' s1) (\<lambda>s1.
      let s2 = s1\<lparr>xc_tx_queue := tl (xc_tx_queue s1)\<rparr> in
      if e \<noteq> None then Inr (xc_fail e s2)
      else if xc_tx_queue s2 \<noteq> [] then xc_initiate_send s2
      else Inr s2))"

definition xc_ping_frame :: "nat \<Rightarrow> json" where
  "xc_ping_frame now = JObject [(''cmd'', JString ''ping''), (''args'', JArray [JNumber now]),
     (''id'', JString ''random_id.me.hk'')]"

definition xc_ping_on_timer :: "xc_env \<Rightarrow> error_code \<Rightarrow> nat \<Rightarrow> exchange_connection \<Rightarrow> exchange_connection result" where
  "xc_ping_on_timer v e now s =
     (if e \<noteq> None then Inr (xc_fail e (s\<lparr>xc_ping_state := ping_exited\<rparr>))
      else and_then (xc_notify_send (env_dump v (xc_ping_frame now)) s) (\<lambda>s.
        Inr (xc_ping_enter_waiting_state s)))"

section \<open>Receiving\<close>

definition xc_enter_read_state :: "exchange_connection \<Rightarrow> exchange_connection" where
  "xc_enter_read_state s = initiate Read_op s"

definition xc_sub_frame :: json where
  "xc_sub_frame = JObject [(''cmd'', JString ''sub''), (''args'', JArray [JString ''ticker.btcusd_p'']),
     (''id'', JString ''random_id.me.hk'')]"

text \<open>
  The JSON library throws on a syntax error, on a subscript of a value that is not an object, and
  on a conversion to a string or a number of anything else.
\<close>

definition xc_on_text_frame :: "xc_env \<Rightarrow> string \<Rightarrow> exchange_connection \<Rightarrow> exchange_connection result" where
  "xc_on_text_frame v frame s =
     (case env_parse v frame of
        Some (JObject obj) \<Rightarrow>
          (case map_of obj ''type'' of
             Some (JString j_type) \<Rightarrow>
               if j_type = ''hello'' then xc_notify_send (env_dump v xc_sub_frame) s
               else if j_type = ''ticker.btcusd_p'' then
                 (case map_of obj ''ts'' of
                    Some (JNumber server_ts) \<Rightarrow> Inr s
                  | _ \<Rightarrow> Inl (Exception ''type_error''))
               else Inr s
           | _ \<Rightarrow> Inl (Exception ''type_error''))
      | Some _ \<Rightarrow> Inl (Exception ''type_error'')
      | None \<Rightarrow> Inl (Exception ''parse_error''))"

definition xc_on_read :: "xc_env \<Rightarrow> error_code \<Rightarrow> exchange_connection \<Rightarrow> exchange_connection result" where
  "xc_on_read v e s =
     (if e \<noteq> None then Inr (xc_fail e s)
      else case xc_on_text_frame v (xc_buffer s) s of
          Inr s1 \<Rightarrow> Inr (xc_enter_read_state (s1\<lparr>xc_buffer := []\<rparr>))
        | Inl (System_error x) \<Rightarrow> Inr (xc_on_error (Some x) (xc_fail (Some x) s))
        | Inl (Exception what) \<Rightarrow> Inr (xc_on_error (Some basic_fault) (xc_fail (Some basic_fault) s))
        | Inl Bad_function_call \<Rightarrow> Inr (xc_on_error (Some basic_fault) (xc_fail (Some basic_fault) s))
        | Inl x \<Rightarrow> Inl x)"

definition xc_on_close :: "error_code \<Rightarrow> exchange_connection \<Rightarrow> exchange_connection" where
  "xc_on_close e s = (if e \<noteq> None then xc_fail e s else s)"

section \<open>Connecting\<close>

definition xc_connect_handler :: "error_code \<Rightarrow> exchange_connection \<Rightarrow> exchange_connection result" where
  "xc_connect_handler e s =
     (let s = s\<lparr>xc_completions := xc_completions s @ [e]\<rparr> in
      if e \<noteq> None then Inr (xc_fail e s)
      else and_then (xc_ping_start s) (\<lambda>s.
        and_then (xc_set_my_token close_stream s) (\<lambda>s.
          Inr (xc_enter_read_state s))))"

text \<open>
  Completion of the operation: its handler runs, then the operation is destroyed together with
  the token in its state.
\<close>

definition xc_op_complete :: "error_code \<Rightarrow> exchange_connection \<Rightarrow> exchange_connection result" where
  "xc_op_complete e s = and_then (xc_connect_handler e (s\<lparr>xc_point := At_end\<rparr>)) xc_reset_op_token"

definition xc_call :: "connect_call list \<Rightarrow> exchange_connection \<Rightarrow> exchange_connection" where
  "xc_call cs s = s\<lparr>xc_calls := xc_calls s @ cs\<rparr>"

definition xc_connect_op :: "error_code \<Rightarrow> error_code \<Rightarrow> exchange_connection \<Rightarrow> exchange_connection result" where
  "xc_connect_op e sni s =
     (if e \<noteq> None then xc_op_complete e s
      else case xc_point s of
          At_start \<Rightarrow> and_then (xc_set_op_token cancel_resolver s) (\<lambda>s.
            Inr (initiate Resolve_op
              ((xc_call [Call_resolve (xc_host s) (xc_port s)] s)\<lparr>xc_point := At_resolve\<rparr>)))
        | At_resolve \<Rightarrow> and_then (xc_set_op_token cancel_socket s) (\<lambda>s.
            Inr (initiate Connect_op ((xc_call [Call_connect (xc_endpoints s)] s)\<lparr>xc_point := At_connect\<rparr>)))
        | At_connect \<Rightarrow>
            let s = xc_call [Call_server_name (xc_host s)] s in
            if sni \<noteq> None then xc_op_complete sni s
            else Inr (initiate Tls_handshake_op ((xc_call [Call_tls_handshake] s)\<lparr>xc_point := At_tls\<rparr>))
        | At_tls \<Rightarrow>
            Inr (initiate Handshake_op
              ((xc_call [Call_suggested_timeout, Call_user_agent ''custom-websocket-client-async'',
                  Call_handshake (xc_host s) (xc_path s)] s)\<lparr>xc_point := At_handshake\<rparr>))
        | At_handshake \<Rightarrow> and_then (xc_reset_op_token s) (xc_op_complete e)
        | At_end \<Rightarrow> Inr s)"

text \<open>The overload the resolver calls: it keeps the results and resumes the coroutine.\<close>

definition xc_connect_resolved :: "error_code \<Rightarrow> string list \<Rightarrow> exchange_connection \<Rightarrow> exchange_connection result" where
  "xc_connect_resolved e results s = xc_connect_op e None (s\<lparr>xc_endpoints := results\<rparr>)"

text \<open>A new connect operation: its data, before its first step.\<close>

definition xc_new_connect_op :: "string \<Rightarrow> string \<Rightarrow> string \<Rightarrow> exchange_connection \<Rightarrow> exchange_connection" where
  "xc_new_connect_op host port path s = s\<lparr>xc_host := host, xc_port := port, xc_path := path\<rparr>"

definition xc_notify_connect :: "string \<Rightarrow> string \<Rightarrow> string \<Rightarrow> exchange_connection \<Rightarrow> exchange_connection result" where
  "xc_notify_connect host port target s = xc_connect_op None None (xc_new_connect_op host port target s)"

definition xc_handle_connect_command :: "exchange_connection \<Rightarrow> exchange_connection result" where
  "xc_handle_connect_command s = xc_notify_connect ''api.fmex.com'' ''443'' ''/v2/ws'' s"

definition xc_start :: "exchange_connection \<Rightarrow> exchange_connection result" where
  "xc_start s = xc_handle_connect_command s"

lemmas xc_defs [model_defs] =
  xc_construct_def cancel_resolver_def cancel_socket_def close_stream_def xc_initiate_close_def xc_callback_def
  xc_stop_def xc_set_op_token_def xc_set_my_token_def xc_reset_op_token_def xc_ping_stop_def xc_on_error_def
  xc_fail_def xc_ping_enter_waiting_state_def xc_ping_start_def xc_initiate_send_def xc_notify_send_def
  xc_on_write_def xc_ping_on_timer_def xc_enter_read_state_def xc_on_text_frame_def xc_on_read_def xc_on_close_def
  xc_connect_handler_def xc_op_complete_def xc_call_def xc_connect_op_def xc_connect_resolved_def
  xc_new_connect_op_def xc_notify_connect_def xc_handle_connect_command_def xc_start_def

section \<open>Events\<close>

datatype xc_event =
    Xc_start
  | Xc_stop
  | Xc_resolve_done error_code "string list"
  | Xc_connect_done error_code error_code
  | Xc_tls_done error_code
  | Xc_handshake_done error_code
  | Xc_read_done error_code string
  | Xc_write_done error_code string
  | Xc_close_done error_code
  | Xc_wait_done error_code nat

fun xc_step :: "xc_env \<Rightarrow> exchange_connection \<Rightarrow> xc_event \<Rightarrow> exchange_connection result" where
  "xc_step v s Xc_start = xc_start s"
| "xc_step v s Xc_stop = Inr (xc_stop v s)"
| "xc_step v s (Xc_resolve_done e results) = xc_connect_resolved e results (settle Resolve_op s)"
| "xc_step v s (Xc_connect_done e sni) = xc_connect_op e sni (settle Connect_op s)"
| "xc_step v s (Xc_tls_done e) = xc_connect_op e None (settle Tls_handshake_op s)"
| "xc_step v s (Xc_handshake_done e) = xc_connect_op e None (settle Handshake_op s)"
| "xc_step v s (Xc_read_done e bytes) = xc_on_read v e ((settle Read_op s)\<lparr>xc_buffer := xc_buffer s @ bytes\<rparr>)"
| "xc_step v s (Xc_write_done e m) = xc_on_write e (settle (Write_op m) s)"
| "xc_step v s (Xc_close_done e) = Inr (xc_on_close e (settle (Close_op (going_away, [])) s))"
| "xc_step v s (Xc_wait_done e now) = xc_ping_on_timer v e now (settle (Wait_op 5) s)"

fun xc_enabled :: "exchange_connection \<Rightarrow> xc_event \<Rightarrow> bool" where
  "xc_enabled s Xc_start = (xc_point s = At_start)"
| "xc_enabled s Xc_stop = True"
| "xc_enabled s (Xc_resolve_done e results) = (Resolve_op \<in> set (pending s))"
| "xc_enabled s (Xc_connect_done e sni) = (Connect_op \<in> set (pending s))"
| "xc_enabled s (Xc_tls_done e) = (Tls_handshake_op \<in> set (pending s))"
| "xc_enabled s (Xc_handshake_done e) = (Handshake_op \<in> set (pending s))"
| "xc_enabled s (Xc_read_done e bytes) = (Read_op \<in> set (pending s))"
| "xc_enabled s (Xc_write_done e m) = (Write_op m \<in> set (pending s))"
| "xc_enabled s (Xc_close_done e) = (Close_op (going_away, []) \<in> set (pending s))"
| "xc_enabled s (Xc_wait_done e now) = (Wait_op 5 \<in> set (pending s))"

abbreviation xc_reachable :: "xc_env \<Rightarrow> exchange_connection \<Rightarrow> bool" where
  "xc_reachable v \<equiv> reachable xc_enabled (xc_step v) xc_construct"

lemma xc_ledger_frame [simp]:
  "xc_buffer (initiate x s) = xc_buffer s" "xc_buffer (settle x s) = xc_buffer s" "xc_buffer (perform x s) = xc_buffer s"
  "xc_tx_queue (initiate x s) = xc_tx_queue s" "xc_tx_queue (settle x s) = xc_tx_queue s" "xc_tx_queue (perform x s) = xc_tx_queue s"
  "xc_send_state (initiate x s) = xc_send_state s" "xc_send_state (settle x s) = xc_send_state s" "xc_send_state (perform x s) = xc_send_state s"
  "xc_register (initiate x s) = xc_register s" "xc_register (settle x s) = xc_register s" "xc_register (perform x s) = xc_register s"
  "xc_my_token (initiate x s) = xc_my_token s" "xc_my_token (settle x s) = xc_my_token s" "xc_my_token (perform x s) = xc_my_token s"
  "xc_op_token (initiate x s) = xc_op_token s" "xc_op_token (settle x s) = xc_op_token s" "xc_op_token (perform x s) = xc_op_token s"
  "xc_point (initiate x s) = xc_point s" "xc_point (settle x s) = xc_point s" "xc_point (perform x s) = xc_point s"
  "xc_ping_state (initiate x s) = xc_ping_state s" "xc_ping_state (settle x s) = xc_ping_state s" "xc_ping_state (perform x s) = xc_ping_state s"
  "xc_completions (initiate x s) = xc_completions s" "xc_completions (settle x s) = xc_completions s" "xc_completions (perform x s) = xc_completions s"
  "xc_errors (initiate x s) = xc_errors s" "xc_errors (settle x s) = xc_errors s" "xc_errors (perform x s) = xc_errors s"
  "xc_host (initiate x s) = xc_host s" "xc_host (settle x s) = xc_host s" "xc_host (perform x s) = xc_host s"
  "xc_port (initiate x s) = xc_port s" "xc_port (settle x s) = xc_port s" "xc_port (perform x s) = xc_port s"
  "xc_path (initiate x s) = xc_path s" "xc_path (settle x s) = xc_path s" "xc_path (perform x s) = xc_path s"
  "xc_endpoints (initiate x s) = xc_endpoints s" "xc_endpoints (settle x s) = xc_endpoints s" "xc_endpoints (perform x s) = xc_endpoints s"
  "xc_calls (initiate x s) = xc_calls s" "xc_calls (settle x s) = xc_calls s" "xc_calls (perform x s) = xc_calls s"
  by (simp_all add: initiate_def settle_def perform_def)

lemma xc_call_frame [simp]:
  "pending (xc_call cs s) = pending s" "started (xc_call cs s) = started s" "xc_buffer (xc_call cs s) = xc_buffer s"
  "xc_tx_queue (xc_call cs s) = xc_tx_queue s" "xc_send_state (xc_call cs s) = xc_send_state s"
  "xc_register (xc_call cs s) = xc_register s" "xc_my_token (xc_call cs s) = xc_my_token s"
  "xc_op_token (xc_call cs s) = xc_op_token s" "xc_point (xc_call cs s) = xc_point s"
  "xc_ping_state (xc_call cs s) = xc_ping_state s" "xc_completions (xc_call cs s) = xc_completions s"
  "xc_errors (xc_call cs s) = xc_errors s" "xc_host (xc_call cs s) = xc_host s" "xc_port (xc_call cs s) = xc_port s"
  "xc_path (xc_call cs s) = xc_path s" "xc_endpoints (xc_call cs s) = xc_endpoints s"
  "xc_calls (xc_call cs s) = xc_calls s @ cs"
  by (simp_all add: xc_call_def)

section \<open>Invariant\<close>

text \<open>Sending: one write at a time, of the front of the queue; without an error nothing waits while idle.\<close>

definition xc_send_inv :: "exchange_connection \<Rightarrow> bool" where
  "xc_send_inv s \<longleftrightarrow>
     (if xc_send_state s = xc_send_sending
      then xc_tx_queue s \<noteq> [] \<and> writes (pending s) = [hd (xc_tx_queue s)]
      else writes (pending s) = [] \<and> (xc_errors s = [] \<longrightarrow> xc_tx_queue s = []))"

text \<open>Connecting: one operation is awaited, and the connected state has not begun.\<close>

definition xc_connect_inv :: "exchange_connection \<Rightarrow> bool" where
  "xc_connect_inv s \<longleftrightarrow>
     filter connecting_op (pending s) = awaited (xc_point s) \<and>
     (if xc_point s = At_end then length (xc_completions s) = 1
      else xc_completions s = [] \<and> xc_errors s = [] \<and> xc_tx_queue s = [] \<and> xc_send_state s = xc_send_idle \<and>
        xc_ping_state s = ping_not_active \<and> Read_op \<notin> set (pending s) \<and> waits (pending s) = [] \<and>
        Close_op (going_away, []) \<notin> set (pending s))"

text \<open>The register: at most one callback, of the current phase, owned by the token of that phase.\<close>

definition xc_token_inv :: "exchange_connection \<Rightarrow> bool" where
  "xc_token_inv s \<longleftrightarrow> (let r = xc_register s in
     case xc_point s of
       At_start \<Rightarrow> sr_next_id r = 0 \<and> sr_map r = [] \<and> tok_id (xc_op_token s) = 0 \<and> tok_id (xc_my_token s) = 0
     | At_resolve \<Rightarrow> sr_next_id r = 1 \<and> sr_map r \<in> {[], [(1, cancel_resolver)]} \<and>
         xc_op_token s = \<lparr>tok_id = 1, tok_register = True\<rparr> \<and> tok_id (xc_my_token s) = 0
     | At_end \<Rightarrow> tok_id (xc_op_token s) = 0 \<and>
         (tok_id (xc_my_token s) = 0 \<and> sr_map r = [] \<or>
          sr_next_id r = 3 \<and> xc_my_token s = \<lparr>tok_id = 3, tok_register = True\<rparr> \<and> sr_map r \<in> {[], [(3, close_stream)]})
     | _ \<Rightarrow> sr_next_id r = 2 \<and> sr_map r \<in> {[], [(2, cancel_socket)]} \<and>
         xc_op_token s = \<lparr>tok_id = 2, tok_register = True\<rparr> \<and> tok_id (xc_my_token s) = 0)"

definition xc_inv :: "exchange_connection \<Rightarrow> bool" where
  "xc_inv s \<longleftrightarrow> xc_send_inv s \<and> xc_connect_inv s \<and> xc_token_inv s"

lemmas xc_inv_defs = xc_inv_def xc_send_inv_def xc_connect_inv_def xc_token_inv_def

lemma xc_inv_construct: "xc_inv xc_construct"
  by (simp add: xc_inv_defs xc_construct_def sr_construct_def tok_construct_def)

subsection \<open>Stopping\<close>

lemma iteration_small [simp]: "iteration order [] = []" "iteration order [x] = [x]"
proof -
  have "mset (iteration order []) = {#}" by (simp only: mset_iteration mset.simps)
  then show "iteration order [] = []" by (simp only: mset_zero_iff)
  have "size (mset (iteration order [x])) = 1" "set_mset (mset (iteration order [x])) = {x}"
    by (simp_all only: mset_iteration) simp_all
  then show "iteration order [x] = [x]" by (cases "iteration order [x]") auto
qed

lemma sr_notify_all_small:
  "sr_map r = [] \<Longrightarrow> sr_notify_all order r = r"
  "sr_map r = [(k, Slot n [])] \<Longrightarrow> sr_notify_all order r = r\<lparr>sr_map := [], sr_invoked := sr_invoked r @ [n]\<rparr>"
  by (simp_all add: sr_notify_all_def sr_enter_def)

text \<open>The register holds no callback, or the one of the current phase.\<close>

lemma xc_register_cases:
  assumes "xc_token_inv s"
  obtains (none) "sr_map (xc_register s) = []"
    | (resolving) "sr_map (xc_register s) = [(1, cancel_resolver)]" "xc_point s = At_resolve"
    | (connecting) "sr_map (xc_register s) = [(2, cancel_socket)]" "xc_point s \<in> {At_connect, At_tls, At_handshake}"
    | (open_stream) "sr_map (xc_register s) = [(3, close_stream)]" "xc_point s = At_end"
  using assms by (cases "xc_point s") (auto simp: xc_token_inv_def Let_def)

definition xc_callback_name :: "exchange_connection \<Rightarrow> nat list" where
  "xc_callback_name s = map (slot_name \<circ> snd) (sr_map (xc_register s))"

lemma xc_stop_eq:
  assumes "xc_token_inv s"
  shows "xc_stop v s = (case xc_callback_name s of
      [] \<Rightarrow> s
    | n # _ \<Rightarrow> xc_callback n (s\<lparr>xc_register := (xc_register s)\<lparr>sr_map := [], sr_invoked := sr_invoked (xc_register s) @ [n]\<rparr>\<rparr>))"
  using assms
  by (cases rule: xc_register_cases)
    (auto simp: xc_stop_def xc_callback_name_def sr_notify_all_small cancel_resolver_def cancel_socket_def close_stream_def)

lemma xc_stop_inv:
  assumes "xc_inv s"
  shows "xc_inv (xc_stop v s)"
proof -
  have t: "xc_token_inv s" using assms by (simp add: xc_inv_def)
  then show ?thesis
  proof (cases rule: xc_register_cases)
    case none
    then have "xc_stop v s = s" using xc_stop_eq [OF t] by (simp add: xc_callback_name_def)
    with assms show ?thesis by simp
  next
    case resolving
    then show ?thesis using assms xc_stop_eq [OF t, of v]
      by (auto simp: xc_callback_name_def xc_callback_def cancel_resolver_def xc_inv_defs Let_def)
  next
    case connecting
    then show ?thesis using assms xc_stop_eq [OF t, of v]
      by (auto simp: xc_callback_name_def xc_callback_def cancel_resolver_def cancel_socket_def xc_inv_defs Let_def)
  next
    case open_stream
    then show ?thesis using assms xc_stop_eq [OF t, of v]
      by (auto simp: xc_callback_name_def xc_callback_def cancel_resolver_def cancel_socket_def close_stream_def
          xc_initiate_close_def xc_inv_defs Let_def)
  qed
qed

subsection \<open>Errors and sending\<close>

lemma xc_on_error_frame [simp]:
  "pending (xc_on_error e s) = pending s" "xc_buffer (xc_on_error e s) = xc_buffer s"
  "xc_tx_queue (xc_on_error e s) = xc_tx_queue s" "xc_send_state (xc_on_error e s) = xc_send_state s"
  "xc_register (xc_on_error e s) = xc_register s" "xc_my_token (xc_on_error e s) = xc_my_token s"
  "xc_op_token (xc_on_error e s) = xc_op_token s" "xc_point (xc_on_error e s) = xc_point s"
  "xc_completions (xc_on_error e s) = xc_completions s" "xc_errors (xc_on_error e s) = xc_errors s @ [e]"
  "xc_ping_state (xc_on_error e s) = ping_exited" "writes (started (xc_on_error e s)) = writes (started s)"
  by (cases "xc_ping_state s"; simp add: xc_on_error_def xc_ping_stop_def)+

lemma xc_on_error_inv: "xc_inv s \<Longrightarrow> xc_point s = At_end \<Longrightarrow> xc_inv (xc_on_error e s)"
  by (auto simp: xc_inv_defs)

lemma xc_initiate_send_inv:
  assumes "writes (pending s) = []" "xc_send_state s = xc_send_idle" "xc_tx_queue s \<noteq> []"
    "xc_connect_inv s" "xc_token_inv s"
  shows "\<exists>t. xc_initiate_send s = Inr t \<and> xc_inv t"
proof -
  have "xc_point s = At_end" using assms(3,4) by (auto simp: xc_connect_inv_def split: if_splits)
  then show ?thesis using assms by (auto simp: xc_initiate_send_def xc_inv_defs Let_def)
qed

lemma xc_notify_send_inv:
  assumes "xc_inv s" "xc_point s = At_end"
  shows "\<exists>t. xc_notify_send m s = Inr t \<and> xc_inv t \<and> xc_point t = At_end"
proof (cases "xc_send_state s")
  case xc_send_idle
  let ?s = "s\<lparr>xc_tx_queue := xc_tx_queue s @ [m]\<rparr>"
  have "\<exists>t. xc_initiate_send ?s = Inr t \<and> xc_inv t"
    by (rule xc_initiate_send_inv) (use assms xc_send_idle in \<open>auto simp: xc_inv_defs Let_def\<close>)
  then show ?thesis
    using xc_send_idle assms(2) by (auto simp: xc_notify_send_def xc_initiate_send_def)
next
  case xc_send_sending
  with assms show ?thesis by (auto simp: xc_notify_send_def xc_inv_defs Let_def)
qed

lemma xc_on_write_inv:
  assumes "xc_inv s" "Write_op m \<in> set (pending s)"
  shows "\<exists>t. xc_on_write e (settle (Write_op m) s) = Inr t \<and> xc_inv t"
proof -
  have q: "xc_send_state s = xc_send_sending" "xc_tx_queue s \<noteq> []" "writes (pending s) = [m]"
    using assms by (auto simp: xc_inv_def xc_send_inv_def split: if_splits)
  have pt: "xc_point s = At_end" using assms(1) q(2) by (auto simp: xc_inv_defs split: if_splits)
  let ?s = "(settle (Write_op m) s)\<lparr>xc_send_state := xc_send_idle, xc_tx_queue := tl (xc_tx_queue s)\<rparr>"
  have w: "writes (pending ?s) = []" by (simp add: q(3) writes_remove1_Write)
  have ci: "xc_connect_inv ?s" "xc_token_inv ?s"
    using assms(1) pt by (auto simp: xc_inv_defs Let_def)
  show ?thesis
  proof (cases "e \<noteq> None \<or> xc_tx_queue ?s = []")
    case True
    have "xc_send_inv (xc_on_error e ?s)" using w by (simp add: xc_send_inv_def)
    moreover have "xc_tx_queue ?s = [] \<Longrightarrow> xc_send_inv ?s" using w by (simp add: xc_send_inv_def)
    moreover have "xc_connect_inv (xc_on_error e ?s)" "xc_token_inv (xc_on_error e ?s)"
      using ci pt by (simp_all add: xc_connect_inv_def xc_token_inv_def Let_def)
    ultimately show ?thesis
      using True ci q by (auto simp: xc_on_write_def xc_fail_def xc_inv_def Let_def)
  next
    case False
    then have "\<exists>t. xc_initiate_send ?s = Inr t \<and> xc_inv t"
      by (intro xc_initiate_send_inv) (use w ci in simp_all)
    with False q show ?thesis by (simp add: xc_on_write_def Let_def)
  qed
qed

subsection \<open>Connecting\<close>

text \<open>A completed step of connecting: the awaited operation is out of the ledger.\<close>

definition xc_resumed :: "connect_point \<Rightarrow> exchange_connection \<Rightarrow> bool" where
  "xc_resumed p s \<longleftrightarrow> xc_point s = p \<and> p \<noteq> At_end \<and> filter connecting_op (pending s) = [] \<and>
     xc_completions s = [] \<and> xc_errors s = [] \<and> xc_tx_queue s = [] \<and> xc_send_state s = xc_send_idle \<and>
     xc_ping_state s = ping_not_active \<and> Read_op \<notin> set (pending s) \<and> waits (pending s) = [] \<and>
     Close_op (going_away, []) \<notin> set (pending s) \<and> writes (pending s) = [] \<and> xc_token_inv s"

lemma xc_token_inv_frame [simp]:
  "xc_token_inv (xc_call cs s) = xc_token_inv s" "xc_token_inv (s\<lparr>xc_endpoints := ps\<rparr>) = xc_token_inv s"
  "xc_token_inv (xc_new_connect_op host port path s) = xc_token_inv s"
  by (cases "xc_point s"; simp add: xc_token_inv_def xc_new_connect_op_def Let_def)+

lemma xc_resumed_call [simp]: "xc_resumed p (xc_call cs s) = xc_resumed p s"
  by (simp add: xc_resumed_def)

lemma xc_resumedI:
  assumes "xc_inv s" "x \<in> set (pending s)" "connecting_op x"
  shows "\<exists>p. awaited p = [x] \<and> xc_resumed p (settle x s)"
proof -
  have "x \<in> set (filter connecting_op (pending s))" using assms by simp
  then have a: "awaited (xc_point s) = [x]" "filter connecting_op (pending s) = [x]"
    using assms(1) by (cases "xc_point s"; auto simp: xc_inv_def xc_connect_inv_def)+
  have p: "xc_point s \<noteq> At_end" using a(1) by auto
  then have b: "xc_completions s = []" "xc_errors s = []" "xc_tx_queue s = []" "xc_send_state s = xc_send_idle"
      "xc_ping_state s = ping_not_active" "Read_op \<notin> set (pending s)" "waits (pending s) = []"
      "Close_op (going_away, []) \<notin> set (pending s)" "writes (pending s) = []" "xc_token_inv s"
    using assms(1) by (auto simp: xc_inv_def xc_connect_inv_def xc_send_inv_def)
  have "writes (remove1 x (pending s)) = writes (pending s)" "waits (remove1 x (pending s)) = waits (pending s)"
    using assms(3) by (cases x; simp)+
  moreover have "filter connecting_op (remove1 x (pending s)) = []"
    using a(2) assms(3) by (simp add: filter_remove1_hit)
  moreover have "y \<notin> set (pending s) \<Longrightarrow> y \<notin> set (remove1 x (pending s))" for y by (rule notin_set_remove1)
  moreover have "xc_token_inv (settle x s)" using b(10) by (cases "xc_point s") (simp_all add: xc_token_inv_def Let_def)
  ultimately have "xc_resumed (xc_point s) (settle x s)"
    using b p by (simp add: xc_resumed_def)
  with a(1) show ?thesis by blast
qed

lemma xc_op_complete_error:
  assumes "xc_resumed p s" "p \<noteq> At_start"
  shows "\<exists>t. xc_op_complete (Some x) s = Inr t \<and> xc_inv t \<and> xc_completions t = [Some x] \<and>
    pending t = pending s \<and> xc_errors t = [Some x] \<and> xc_point t = At_end"
  using assms
  by (cases p)
    (auto simp: xc_op_complete_def xc_connect_handler_def xc_fail_def xc_reset_op_token_def tok_reset_def sr_remove_def
      erase_def xc_resumed_def xc_inv_defs Let_def)

text \<open>What the token operations do in the states they are used in.\<close>

lemma xc_reset_op_token_null:
  assumes "tok_id (xc_op_token s) = 0"
  shows "xc_reset_op_token s = Inr s"
proof -
  have "(xc_op_token s)\<lparr>tok_id := 0\<rparr> = xc_op_token s" using assms by (cases "xc_op_token s") simp
  with assms show ?thesis by (simp add: xc_reset_op_token_def tok_reset_def Let_def)
qed

lemma xc_reset_op_token_eq:
  assumes "xc_op_token s = \<lparr>tok_id = i, tok_register = True\<rparr>" "i \<noteq> 0" "sr_map (xc_register s) \<in> {[], [(i, f)]}"
  shows "xc_reset_op_token s = Inr (s\<lparr>xc_op_token := \<lparr>tok_id = 0, tok_register = True\<rparr>,
    xc_register := (xc_register s)\<lparr>sr_map := []\<rparr>\<rparr>)"
  using assms by (auto simp: xc_reset_op_token_def tok_reset_def sr_remove_def erase_def Let_def)

lemma xc_set_my_token_eq:
  assumes "tok_id (xc_my_token s) = 0" "sr_map (xc_register s) = []"
  shows "xc_set_my_token f s = Inr (s\<lparr>xc_my_token := \<lparr>tok_id = sr_next_id (xc_register s) + 1, tok_register = True\<rparr>,
    xc_register := (xc_register s)\<lparr>sr_next_id := sr_next_id (xc_register s) + 1,
      sr_map := [(sr_next_id (xc_register s) + 1, f)]\<rparr>\<rparr>)"
  using assms
  by (simp add: xc_set_my_token_def sr_add_def tok_construct_def tok_assign_def tok_move_def tok_swap_def
      tok_destroy_def tok_reset_def sr_insert_def emplace_def Let_def)

text \<open>The connected state: all that the last step of connecting leaves behind.\<close>

lemma xc_connected:
  assumes "xc_resumed At_handshake s"
  shows "\<exists>t. and_then (xc_reset_op_token s) (xc_op_complete None) = Inr t \<and> xc_inv t \<and> xc_completions t = [None]"
proof -
  have tok: "sr_next_id (xc_register s) = 2" "sr_map (xc_register s) \<in> {[], [(2, cancel_socket)]}"
      "xc_op_token s = \<lparr>tok_id = 2, tok_register = True\<rparr>" "tok_id (xc_my_token s) = 0"
    and st: "xc_completions s = []" "xc_errors s = []" "xc_tx_queue s = []" "xc_send_state s = xc_send_idle"
      "xc_ping_state s = ping_not_active" "filter connecting_op (pending s) = []" "writes (pending s) = []"
    using assms by (auto simp: xc_resumed_def xc_token_inv_def Let_def)
  have ne: "(2 :: slot_id) \<noteq> 0" by simp
  let ?s1 = "s\<lparr>xc_op_token := \<lparr>tok_id = 0, tok_register = True\<rparr>, xc_register := (xc_register s)\<lparr>sr_map := []\<rparr>\<rparr>"
  let ?s2 = "initiate (Wait_op 5) (?s1\<lparr>xc_point := At_end, xc_completions := [None], xc_ping_state := ping_waiting_timer\<rparr>)"
  let ?s3 = "?s2\<lparr>xc_my_token := \<lparr>tok_id = 3, tok_register = True\<rparr>,
      xc_register := (xc_register ?s2)\<lparr>sr_next_id := 3, sr_map := [(3, close_stream)]\<rparr>\<rparr>"
  have reset: "xc_reset_op_token s = Inr ?s1" using tok ne by (intro xc_reset_op_token_eq)
  have "xc_set_my_token close_stream ?s2 = Inr ?s3"
    using xc_set_my_token_eq [of ?s2 close_stream] tok by simp
  then have handler: "xc_connect_handler None (?s1\<lparr>xc_point := At_end\<rparr>) = Inr (initiate Read_op ?s3)"
    using st by (simp add: xc_connect_handler_def xc_ping_start_def xc_ping_enter_waiting_state_def xc_enter_read_state_def Let_def)
  have "xc_reset_op_token (initiate Read_op ?s3) = Inr (initiate Read_op ?s3)"
    by (rule xc_reset_op_token_null) simp
  then have step: "and_then (xc_reset_op_token s) (xc_op_complete None) = Inr (initiate Read_op ?s3)"
    by (simp only: reset xc_op_complete_def handler and_then_simps)
  have "xc_inv (initiate Read_op ?s3)" using st by (simp add: xc_inv_defs)
  with step show ?thesis by simp
qed

lemma xc_resumed_start:
  assumes "xc_resumed At_start s"
  shows "\<exists>t. xc_connect_op None sni s = Inr t \<and> xc_inv t"
  using assms
  by (auto simp: xc_connect_op_def xc_resumed_def xc_inv_defs xc_set_op_token_def
      sr_add_def tok_construct_def tok_assign_def tok_move_def tok_swap_def tok_destroy_def tok_reset_def
      sr_remove_def erase_def sr_insert_def emplace_def Let_def)

lemma xc_resumed_resolve:
  assumes "xc_resumed At_resolve s"
  shows "\<exists>t. xc_connect_op None sni s = Inr t \<and> xc_inv t"
  using assms
  by (auto simp: xc_connect_op_def xc_resumed_def xc_inv_defs xc_set_op_token_def
      sr_add_def tok_construct_def tok_assign_def tok_move_def tok_swap_def tok_destroy_def tok_reset_def
      sr_remove_def erase_def sr_insert_def emplace_def Let_def)

lemma xc_connect_op_ok:
  assumes "xc_resumed p s" "p \<noteq> At_start"
  shows "\<exists>t. xc_connect_op e sni s = Inr t \<and> xc_inv t"
proof (cases e)
  case (Some x)
  with xc_op_complete_error [OF assms] show ?thesis by (auto simp: xc_connect_op_def)
next
  case None
  have pt: "xc_point s = p" using assms(1) by (simp add: xc_resumed_def)
  show ?thesis
  proof (cases p)
    case At_resolve
    with None assms xc_resumed_resolve show ?thesis by simp
  next
    case At_connect
    show ?thesis
    proof (cases sni)
      case None
      with \<open>e = None\<close> At_connect assms(1) pt show ?thesis
        by (auto simp: xc_connect_op_def xc_resumed_def xc_inv_defs Let_def)
    next
      case (Some x)
      have "xc_resumed p (xc_call [Call_server_name (xc_host s)] s)" using assms(1) by simp
      with Some \<open>e = None\<close> At_connect pt xc_op_complete_error [OF _ assms(2), of "xc_call [Call_server_name (xc_host s)] s" x]
      show ?thesis by (auto simp: xc_connect_op_def)
    qed
  next
    case At_tls
    with None assms(1) pt show ?thesis by (auto simp: xc_connect_op_def xc_resumed_def xc_inv_defs Let_def)
  next
    case At_handshake
    with None pt xc_connected [of s] assms(1) show ?thesis by (auto simp: xc_connect_op_def)
  qed (use assms pt in \<open>auto simp: xc_resumed_def\<close>)
qed

subsection \<open>Every handler succeeds and keeps the invariant\<close>

lemma xc_at_end:
  assumes "xc_inv s" "x \<in> set (pending s)" "x = Read_op \<or> x = Wait_op 5 \<or> x = Close_op (going_away, [])"
  shows "xc_point s = At_end"
  using assms by (auto simp: xc_inv_def xc_connect_inv_def split: if_splits)

lemma xc_settle_inv:
  assumes "xc_inv s" "x = Read_op \<or> x = Wait_op 5 \<or> x = Close_op (going_away, [])" "xc_point s = At_end"
  shows "xc_inv (settle x s)"
proof -
  have "writes (remove1 x (pending s)) = writes (pending s)" "\<not> connecting_op x" using assms(2) by auto
  then show ?thesis using assms(1,3) by (simp add: xc_inv_defs Let_def)
qed

lemma xc_buffer_inv [simp]: "xc_inv (s\<lparr>xc_buffer := b\<rparr>) = xc_inv s"
  by (cases "xc_point s") (simp_all add: xc_inv_defs Let_def)

lemma xc_initiate_other_inv:
  "xc_inv s \<Longrightarrow> xc_point s = At_end \<Longrightarrow> x = Read_op \<or> x = Wait_op 5 \<Longrightarrow> xc_inv (initiate x s)"
  by (auto simp: xc_inv_defs Let_def)

lemma xc_ping_state_inv: "xc_inv s \<Longrightarrow> xc_point s = At_end \<Longrightarrow> xc_inv (s\<lparr>xc_ping_state := p\<rparr>)"
  by (auto simp: xc_inv_defs Let_def)

lemma xc_on_text_frame_disj:
  "xc_on_text_frame v frame s = Inr s \<and> frame_type (env_parse v frame) \<noteq> Some (JString ''hello'') \<or>
   xc_on_text_frame v frame s = xc_notify_send (env_dump v xc_sub_frame) s \<and>
     frame_type (env_parse v frame) = Some (JString ''hello'') \<or>
   (\<exists>what. xc_on_text_frame v frame s = Inl (Exception what)) \<and> frame_type (env_parse v frame) \<noteq> Some (JString ''hello'')"
  unfolding xc_on_text_frame_def by (auto split: option.split json.split)

lemma xc_on_text_frame_cases:
  obtains (none) "xc_on_text_frame v frame s = Inr s" "frame_type (env_parse v frame) \<noteq> Some (JString ''hello'')"
    | (hello) "xc_on_text_frame v frame s = xc_notify_send (env_dump v xc_sub_frame) s"
      "frame_type (env_parse v frame) = Some (JString ''hello'')"
    | (throws) what where "xc_on_text_frame v frame s = Inl (Exception what)"
      "frame_type (env_parse v frame) \<noteq> Some (JString ''hello'')"
  using xc_on_text_frame_disj [of v frame s] by blast

lemma xc_on_read_inv:
  assumes "xc_inv s" "Read_op \<in> set (pending s)"
  shows "\<exists>t. xc_step v s (Xc_read_done e bytes) = Inr t \<and> xc_inv t"
proof -
  let ?s = "(settle Read_op s)\<lparr>xc_buffer := xc_buffer s @ bytes\<rparr>"
  have pt: "xc_point s = At_end" using xc_at_end [OF assms] by simp
  then have inv: "xc_inv ?s" "xc_point ?s = At_end" using xc_settle_inv [OF assms(1)] by simp_all
  have again: "xc_inv (xc_enter_read_state (t\<lparr>xc_buffer := []\<rparr>))" if "xc_inv t" "xc_point t = At_end" for t
    using that xc_initiate_other_inv [of "t\<lparr>xc_buffer := []\<rparr>" Read_op] by (simp add: xc_enter_read_state_def)
  show ?thesis
  proof (cases e)
    case (Some x)
    with inv xc_on_error_inv show ?thesis by (simp add: xc_on_read_def xc_fail_def)
  next
    case None
    show ?thesis
    proof (cases rule: xc_on_text_frame_cases [of v "xc_buffer ?s" ?s])
      case none
      then show ?thesis using None again [OF inv] by (simp add: xc_on_read_def)
    next
      case hello
      then show ?thesis using None again xc_notify_send_inv [OF inv, of "env_dump v xc_sub_frame"]
        by (auto simp: xc_on_read_def)
    next
      case (throws what)
      then show ?thesis using None xc_on_error_inv inv by (simp add: xc_on_read_def xc_fail_def)
    qed
  qed
qed

lemma xc_ping_on_timer_inv:
  assumes "xc_inv s" "Wait_op 5 \<in> set (pending s)"
  shows "\<exists>t. xc_ping_on_timer v e now (settle (Wait_op 5) s) = Inr t \<and> xc_inv t"
proof -
  have pt: "xc_point s = At_end" using xc_at_end [OF assms] by simp
  then have inv: "xc_inv (settle (Wait_op 5) s)" "xc_point (settle (Wait_op 5) s) = At_end"
    using xc_settle_inv [OF assms(1)] by simp_all
  show ?thesis
  proof (cases e)
    case (Some x)
    with xc_on_error_inv [OF xc_ping_state_inv [OF inv]] inv show ?thesis
      by (simp add: xc_ping_on_timer_def xc_fail_def)
  next
    case None
    obtain t where t: "xc_notify_send (env_dump v (xc_ping_frame now)) (settle (Wait_op 5) s) = Inr t" "xc_inv t" "xc_point t = At_end"
      using xc_notify_send_inv [OF inv] by blast
    with None xc_initiate_other_inv [OF xc_ping_state_inv [OF t(2,3)]] show ?thesis
      by (simp add: xc_ping_on_timer_def xc_ping_enter_waiting_state_def)
  qed
qed

lemma xc_step_ok:
  assumes "xc_inv s" "xc_enabled s e"
  shows "\<exists>t. xc_step v s e = Inr t \<and> xc_inv t"
proof (cases e)
  case Xc_start
  then have "xc_resumed At_start s" using assms by (auto simp: xc_inv_def xc_connect_inv_def xc_send_inv_def xc_resumed_def)
  then have "xc_resumed At_start (xc_new_connect_op ''api.fmex.com'' ''443'' ''/v2/ws'' s)"
    using xc_token_inv_frame(3) [of "''api.fmex.com''" "''443''" "''/v2/ws''" s]
    by (simp add: xc_new_connect_op_def xc_resumed_def)
  with Xc_start xc_resumed_start show ?thesis
    by (simp add: xc_start_def xc_handle_connect_command_def xc_notify_connect_def)
next
  case (Xc_resolve_done x results)
  with assms obtain p where "awaited p = [Resolve_op]" "xc_resumed p (settle Resolve_op s)"
    using xc_resumedI [of s Resolve_op] by auto
  then have "xc_resumed p ((settle Resolve_op s)\<lparr>xc_endpoints := results\<rparr>)" "p \<noteq> At_start"
    by (auto simp: xc_resumed_def)
  from xc_connect_op_ok [OF this, of x None] Xc_resolve_done show ?thesis by (simp add: xc_connect_resolved_def)
next
  case (Xc_connect_done x sni)
  with assms obtain p where "awaited p = [Connect_op]" "xc_resumed p (settle Connect_op s)"
    using xc_resumedI [of s Connect_op] by auto
  with xc_connect_op_ok [of p] Xc_connect_done show ?thesis by fastforce
next
  case (Xc_tls_done x)
  with assms obtain p where "awaited p = [Tls_handshake_op]" "xc_resumed p (settle Tls_handshake_op s)"
    using xc_resumedI [of s Tls_handshake_op] by auto
  with xc_connect_op_ok [of p] Xc_tls_done show ?thesis by fastforce
next
  case (Xc_handshake_done x)
  with assms obtain p where "awaited p = [Handshake_op]" "xc_resumed p (settle Handshake_op s)"
    using xc_resumedI [of s Handshake_op] by auto
  with xc_connect_op_ok [of p] Xc_handshake_done show ?thesis by fastforce
next
  case (Xc_read_done x bytes)
  with assms xc_on_read_inv [OF assms(1)] show ?thesis by simp
next
  case (Xc_write_done x m)
  with assms xc_on_write_inv [OF assms(1)] show ?thesis by simp
next
  case (Xc_close_done x)
  then have "xc_point s = At_end" using assms xc_at_end [OF assms(1), of "Close_op (going_away, [])"] by simp
  with Xc_close_done xc_settle_inv [OF assms(1), of "Close_op (going_away, [])"] xc_on_error_inv show ?thesis
    by (simp add: xc_on_close_def xc_fail_def)
next
  case (Xc_wait_done x now)
  with assms xc_ping_on_timer_inv [OF assms(1)] show ?thesis by simp
qed (use assms xc_stop_inv in simp)

lemma xc_reachable_inv: "xc_reachable v s \<Longrightarrow> xc_inv s"
proof (induction rule: reachable_invariant)
  case start
  show ?case by (rule xc_inv_construct)
next
  case (step s e t)
  then show ?case using xc_step_ok [of s e v] by auto
qed

section \<open>Flow of frames\<close>

definition xc_written :: "exchange_connection \<Rightarrow> string list" where
  "xc_written s = writes (started s)"

definition xc_in_flight :: "exchange_connection \<Rightarrow> string list" where
  "xc_in_flight s = writes (pending s)"

definition xc_backlog :: "exchange_connection \<Rightarrow> string list" where
  "xc_backlog s = (if xc_send_state s = xc_send_sending then tl (xc_tx_queue s) else xc_tx_queue s)"

definition xc_ready :: "exchange_connection \<Rightarrow> bool" where
  "xc_ready s \<longleftrightarrow> xc_errors s = [] \<and> xc_send_state s = xc_send_idle"

text \<open>What each event sends: a subscription after a hello, a ping when the timer expires.\<close>

fun xc_accepted :: "xc_env \<Rightarrow> exchange_connection \<Rightarrow> xc_event \<Rightarrow> string list" where
  "xc_accepted v s (Xc_read_done None bytes) =
     (if frame_type (env_parse v (xc_buffer s @ bytes)) = Some (JString ''hello'') then [env_dump v xc_sub_frame] else [])"
| "xc_accepted v s (Xc_wait_done None now) = [env_dump v (xc_ping_frame now)]"
| "xc_accepted v s _ = []"

abbreviation xc_flow :: "exchange_connection \<Rightarrow> string list" where
  "xc_flow s \<equiv> xc_written s @ xc_backlog s"

lemmas xc_flow_defs = xc_written_def xc_backlog_def

lemma xc_flow_frame [simp]:
  "xc_flow (settle x s) = xc_flow s" "xc_flow (s\<lparr>xc_buffer := b\<rparr>) = xc_flow s"
  "xc_flow (s\<lparr>xc_ping_state := p\<rparr>) = xc_flow s" "xc_flow (s\<lparr>xc_point := c\<rparr>) = xc_flow s"
  "xc_flow (s\<lparr>xc_completions := cs\<rparr>) = xc_flow s" "xc_flow (s\<lparr>xc_register := r\<rparr>) = xc_flow s"
  "xc_flow (s\<lparr>xc_my_token := t\<rparr>) = xc_flow s" "xc_flow (s\<lparr>xc_op_token := t\<rparr>) = xc_flow s"
  "xc_flow (initiate (Wait_op 5) s) = xc_flow s" "xc_flow (initiate Read_op s) = xc_flow s"
  "xc_flow (initiate Resolve_op s) = xc_flow s" "xc_flow (initiate Connect_op s) = xc_flow s"
  "xc_flow (initiate Tls_handshake_op s) = xc_flow s" "xc_flow (initiate Handshake_op s) = xc_flow s"
  "xc_flow (initiate (Close_op c2) s) = xc_flow s"
  "xc_flow (perform Cancel_resolve s) = xc_flow s" "xc_flow (perform Cancel_socket s) = xc_flow s"
  "xc_flow (xc_on_error e s) = xc_flow s" "xc_flow (xc_call cs2 s) = xc_flow s"
  "xc_flow (s\<lparr>xc_endpoints := ps\<rparr>) = xc_flow s" "xc_flow (xc_new_connect_op host port path s) = xc_flow s"
  by (simp_all add: xc_flow_defs xc_new_connect_op_def)

lemma xc_flow_initiate_send: "xc_initiate_send s = Inr t \<Longrightarrow> xc_flow t = xc_flow s"
  by (auto simp: xc_initiate_send_def and_then_Inr xc_flow_defs)

lemma xc_notify_send_total: "\<exists>t. xc_notify_send m s = Inr t"
  by (cases "xc_send_state s") (auto simp: xc_notify_send_def xc_initiate_send_def)

lemma xc_flow_notify_send:
  assumes "xc_notify_send m s = Inr t" "xc_send_state s = xc_send_sending \<longrightarrow> xc_tx_queue s \<noteq> []"
  shows "xc_flow t = xc_flow s @ [m]"
proof (cases "xc_send_state s")
  case xc_send_idle
  with assms(1) have "xc_initiate_send (s\<lparr>xc_tx_queue := xc_tx_queue s @ [m]\<rparr>) = Inr t"
    by (simp add: xc_notify_send_def)
  from xc_flow_initiate_send [OF this] xc_send_idle show ?thesis by (simp add: xc_flow_defs)
next
  case xc_send_sending
  with assms show ?thesis by (auto simp: xc_notify_send_def xc_flow_defs)
qed

lemma xc_sending_queue: "xc_inv s \<Longrightarrow> xc_send_state s = xc_send_sending \<longrightarrow> xc_tx_queue s \<noteq> []"
  by (auto simp: xc_inv_def xc_send_inv_def)

lemma xc_flow_callback [simp]: "xc_flow (xc_callback n s) = xc_flow s"
  by (simp add: xc_callback_def xc_initiate_close_def)

lemma xc_flow_fold [simp]: "xc_flow (fold xc_callback ns s) = xc_flow s"
  by (induction ns arbitrary: s) simp_all

lemma xc_flow_tokens:
  "xc_reset_op_token s = Inr t \<Longrightarrow> xc_flow t = xc_flow s"
  "xc_set_my_token f s = Inr t \<Longrightarrow> xc_flow t = xc_flow s"
  "xc_set_op_token f s = Inr t \<Longrightarrow> xc_flow t = xc_flow s"
  by (auto simp: xc_reset_op_token_def xc_set_my_token_def xc_set_op_token_def and_then_Inr split: prod.splits)

lemma xc_flow_op_complete: "xc_op_complete e s = Inr t \<Longrightarrow> xc_flow t = xc_flow s"
  by (auto simp: xc_op_complete_def xc_connect_handler_def xc_fail_def and_then_Inr xc_ping_start_def Let_def
      xc_ping_enter_waiting_state_def xc_enter_read_state_def dest!: xc_flow_tokens split: if_splits)

lemma xc_flow_connect_op: "xc_connect_op e sni s = Inr t \<Longrightarrow> xc_flow t = xc_flow s"
  by (auto simp: xc_connect_op_def and_then_Inr Let_def dest!: xc_flow_tokens xc_flow_op_complete
      split: if_splits connect_point.splits)

lemma xc_flow_resolved: "xc_connect_resolved e results s = Inr t \<Longrightarrow> xc_flow t = xc_flow s"
  by (auto simp: xc_connect_resolved_def dest!: xc_flow_connect_op)

lemma xc_flow_step:
  assumes "xc_inv s" "xc_enabled s e" "xc_step v s e = Inr t"
  shows "xc_flow t = xc_flow s @ xc_accepted v s e"
proof (cases e)
  case (Xc_read_done x bytes)
  let ?s = "(settle Read_op s)\<lparr>xc_buffer := xc_buffer s @ bytes\<rparr>"
  show ?thesis
  proof (cases x)
    case None
    show ?thesis
    proof (cases rule: xc_on_text_frame_cases [of v "xc_buffer ?s" ?s])
      case hello
      obtain u where u: "xc_notify_send (env_dump v xc_sub_frame) ?s = Inr u" using xc_notify_send_total by blast
      then have "xc_flow u = xc_flow s @ [env_dump v xc_sub_frame]"
        using xc_flow_notify_send [OF u] xc_sending_queue [OF assms(1)] by simp
      with hello u show ?thesis
        using assms(3) None Xc_read_done by (auto simp: xc_on_read_def xc_enter_read_state_def)
    qed (use assms(3) None Xc_read_done in \<open>auto simp: xc_on_read_def xc_enter_read_state_def xc_fail_def\<close>)
  next
    case (Some y)
    then show ?thesis using assms(3) Xc_read_done by (auto simp: xc_on_read_def xc_fail_def)
  qed
next
  case (Xc_write_done x m)
  then have "xc_send_state s = xc_send_sending" using assms(1,2) by (auto simp: xc_inv_def xc_send_inv_def split: if_splits)
  then have "xc_flow ((settle (Write_op m) s)\<lparr>xc_send_state := xc_send_idle, xc_tx_queue := tl (xc_tx_queue s)\<rparr>) = xc_flow s"
    by (simp add: xc_flow_defs)
  then show ?thesis using Xc_write_done assms(3)
    by (auto simp: xc_on_write_def xc_fail_def and_then_Inr Let_def dest!: xc_flow_initiate_send split: if_splits)
next
  case (Xc_wait_done x now)
  then show ?thesis using assms(3) xc_sending_queue [OF assms(1)]
    by (cases x) (auto simp: xc_ping_on_timer_def xc_fail_def and_then_Inr xc_ping_enter_waiting_state_def
        dest!: xc_flow_notify_send)
next
  case (Xc_close_done x)
  then show ?thesis using assms(3) by (auto simp: xc_on_close_def xc_fail_def)
next
  case Xc_stop
  then show ?thesis using assms(3) by (auto simp: xc_stop_def Let_def)
next
  case Xc_start
  then show ?thesis using assms(3)
    by (auto simp: xc_start_def xc_handle_connect_command_def xc_notify_connect_def dest!: xc_flow_connect_op)
qed (use assms(3) xc_flow_connect_op xc_flow_resolved in fastforce)+

interpretation xc: prompt_send_region
  xc_enabled "xc_step v" xc_construct xc_written xc_in_flight xc_backlog "xc_accepted v" xc_ready
  for v
proof unfold_locales
  show "xc_written xc_construct = [] \<and> xc_backlog xc_construct = []"
    by (simp add: xc_flow_defs xc_construct_def)
  show "xc_flow t = xc_written s @ xc_backlog s @ xc_accepted v s e"
    if "xc_reachable v s" "xc_enabled s e" "xc_step v s e = Inr t" for s e t
    using xc_flow_step [OF xc_reachable_inv] that by simp
  show "length (xc_in_flight s) \<le> 1" if "xc_reachable v s" for s
    using xc_reachable_inv [OF that] by (auto simp: xc_inv_def xc_send_inv_def xc_in_flight_def split: if_splits)
  show "xc_backlog s = []" if "xc_reachable v s" "xc_ready s" for s
    using xc_reachable_inv [OF that(1)] that(2) by (auto simp: xc_inv_def xc_send_inv_def xc_ready_def xc_backlog_def)
qed

section \<open>The application\<close>

record fmex_app =
  fx_connections :: "exchange_connection list"
  fx_signal_waits :: nat

definition fx_construct :: fmex_app where
  "fx_construct = \<lparr>fx_connections = [], fx_signal_waits = 0\<rparr>"

definition fx_start_connections :: "fmex_app \<Rightarrow> fmex_app result" where
  "fx_start_connections a =
     and_then (xc_start xc_construct) (\<lambda>c. Inr (a\<lparr>fx_connections := fx_connections a @ [c]\<rparr>))"

definition fx_stop_connections :: "xc_env \<Rightarrow> fmex_app \<Rightarrow> fmex_app" where
  "fx_stop_connections v a = a\<lparr>fx_connections := map (xc_stop v) (fx_connections a)\<rparr>"

definition fx_start :: "fmex_app \<Rightarrow> fmex_app result" where
  "fx_start a = fx_start_connections (a\<lparr>fx_signal_waits := Suc (fx_signal_waits a)\<rparr>)"

definition fx_stop :: "xc_env \<Rightarrow> fmex_app \<Rightarrow> fmex_app" where
  "fx_stop v a = fx_stop_connections v a"

definition fx_on_signal :: "xc_env \<Rightarrow> error_code \<Rightarrow> nat \<Rightarrow> fmex_app \<Rightarrow> fmex_app result" where
  "fx_on_signal v e sig a =
     (if e \<noteq> None then
        if e = Some operation_aborted then Inr a else Inl (Exit_called 100)
      else if sig = SIGINT then Inr (fx_stop_connections v a)
      else Inr a)"

lemmas fx_defs [model_defs] =
  fx_construct_def fx_start_connections_def fx_stop_connections_def fx_start_def fx_stop_def fx_on_signal_def

section \<open>Properties\<close>

text \<open>
  No handler of the exchange connection fails: in every reachable state every event is
  handled without a failed assertion, an empty queue, a null register or an exception leaving
  the handler, for every parser and every frame.
\<close>

theorem xc_handlers_total:
  assumes "xc_reachable v s" "xc_enabled s e"
  shows "\<exists>t. xc_step v s e = Inr t"
  using xc_step_ok [OF xc_reachable_inv [OF assms(1)] assms(2)] by blast

theorem xc_handlers_total_witness:
  "\<exists>s t. run xc_enabled (xc_step \<lparr>env_order = (\<lambda>m. m), env_parse = (\<lambda>_. None), env_dump = (\<lambda>_. [])\<rparr>) xc_construct
      [Xc_start, Xc_resolve_done None []] = Some s \<and>
     xc_step \<lparr>env_order = (\<lambda>m. m), env_parse = (\<lambda>_. None), env_dump = (\<lambda>_. [])\<rparr> s (Xc_connect_done (Some basic_fault) None) = Inr t"
proof -
  let ?v = "\<lparr>env_order = (\<lambda>m. m), env_parse = (\<lambda>_. None), env_dump = (\<lambda>_. [])\<rparr>"
  obtain s where r: "run xc_enabled (xc_step ?v) xc_construct [Xc_start, Xc_resolve_done None []] = Some s"
    and e: "xc_enabled s (Xc_connect_done (Some basic_fault) None)"
    by (simp add: xc_defs sr_defs emplace_def erase_def Let_def)
  from xc_handlers_total [OF run_reachable [OF r] e] r show ?thesis by blast
qed

text \<open>
  Frames leave in order and one at a time; as long as no error was reported, an idle sender
  has written everything that was to be sent.
\<close>

theorem xc_frames_in_order:
  assumes "run xc_enabled (xc_step v) xc_construct es = Some s"
  shows "prefix (xc_written s) (taken (xc_step v) (xc_accepted v) xc_construct es) \<and>
    (xc_ready s \<longrightarrow> xc_written s = taken (xc_step v) (xc_accepted v) xc_construct es)"
  using xc.written_prefix [OF assms] xc.ready_all_written [OF assms] by blast

theorem xc_frames_in_order_witness:
  "\<exists>s. run xc_enabled (xc_step \<lparr>env_order = (\<lambda>m. m), env_parse = (\<lambda>_. None), env_dump = (\<lambda>_. ''p'')\<rparr>) xc_construct
      [Xc_start, Xc_resolve_done None [], Xc_connect_done None None, Xc_tls_done None, Xc_handshake_done None,
       Xc_wait_done None 1, Xc_wait_done None 2] = Some s \<and> xc_written s = [''p''] \<and>
     prefix (xc_written s) (taken (xc_step \<lparr>env_order = (\<lambda>m. m), env_parse = (\<lambda>_. None), env_dump = (\<lambda>_. ''p'')\<rparr>)
       (xc_accepted \<lparr>env_order = (\<lambda>m. m), env_parse = (\<lambda>_. None), env_dump = (\<lambda>_. ''p'')\<rparr>) xc_construct
      [Xc_start, Xc_resolve_done None [], Xc_connect_done None None, Xc_tls_done None, Xc_handshake_done None,
       Xc_wait_done None 1, Xc_wait_done None 2])"
proof -
  let ?v = "\<lparr>env_order = (\<lambda>m. m), env_parse = (\<lambda>_. None), env_dump = (\<lambda>_. ''p'')\<rparr>"
  let ?es = "[Xc_start, Xc_resolve_done None [], Xc_connect_done None None, Xc_tls_done None, Xc_handshake_done None,
       Xc_wait_done None 1, Xc_wait_done None 2]"
  obtain s where r: "run xc_enabled (xc_step ?v) xc_construct ?es = Some s" and w: "xc_written s = [''p'']"
    by (simp add: xc_defs sr_defs emplace_def erase_def Let_def xc_written_def)
  from xc_frames_in_order [OF r] r w show ?thesis by blast
qed

text \<open>
  Connecting completes once: the handler of the connect operation is called at most once over
  the whole life of the connection; when it has been called, no step of connecting is
  outstanding and the stop register holds no callback of the operation, whose state (which those
  callbacks refer to) is gone.
\<close>

theorem xc_connect_completes_once:
  assumes "xc_reachable v s"
  shows "length (xc_completions s) \<le> 1 \<and>
    (xc_completions s \<noteq> [] \<longrightarrow> filter connecting_op (pending s) = [] \<and>
       cancel_resolver \<notin> snd ` set (sr_map (xc_register s)) \<and> cancel_socket \<notin> snd ` set (sr_map (xc_register s)))"
proof -
  have inv: "xc_inv s" using assms by (rule xc_reachable_inv)
  show ?thesis
  proof (cases "xc_point s = At_end")
    case True
    with inv show ?thesis
      by (auto simp: xc_inv_defs Let_def cancel_resolver_def cancel_socket_def close_stream_def)
  next
    case False
    with inv show ?thesis by (simp add: xc_inv_def xc_connect_inv_def)
  qed
qed

theorem xc_connect_completes_once_witness:
  "\<exists>s. run xc_enabled (xc_step \<lparr>env_order = rev, env_parse = (\<lambda>_. None), env_dump = (\<lambda>_. [])\<rparr>) xc_construct
      [Xc_start, Xc_resolve_done (Some basic_fault) []] = Some s \<and>
     xc_completions s = [Some basic_fault] \<and> filter connecting_op (pending s) = []"
proof -
  obtain s where r: "run xc_enabled (xc_step \<lparr>env_order = rev, env_parse = (\<lambda>_. None), env_dump = (\<lambda>_. [])\<rparr>) xc_construct
      [Xc_start, Xc_resolve_done (Some basic_fault) []] = Some s" and c: "xc_completions s = [Some basic_fault]"
    by (simp add: xc_defs sr_defs emplace_def erase_def Let_def)
  from xc_connect_completes_once [OF run_reachable [OF r]] r c show ?thesis by auto
qed

text \<open>
  C17. What \<open>stop\<close> does in every reachable state: it cancels the resolver, cancels the socket or
  starts the closing handshake, whichever the phase has registered, once, and a second \<open>stop\<close>
  does nothing at all.
\<close>

theorem xc_stop_effect:
  assumes "xc_reachable v s"
  shows "xc_stop v (xc_stop v s) = xc_stop v s \<and>
    started (xc_stop v s) = started s @
      (if sr_map (xc_register s) = [] then []
       else case xc_point s of
           At_resolve \<Rightarrow> [Cancel_resolve]
         | At_end \<Rightarrow> [Close_op (going_away, [])]
         | _ \<Rightarrow> [Cancel_socket])"
proof -
  have inv: "xc_inv s" using assms by (rule xc_reachable_inv)
  then have t: "xc_token_inv s" "xc_token_inv (xc_stop v s)"
    using xc_stop_inv [OF inv, of v] by (simp_all add: xc_inv_def)
  note eqs = xc_stop_eq [OF t(1), of v] xc_stop_eq [OF t(2), of v]
  from t(1) show ?thesis
  proof (cases rule: xc_register_cases)
    case none
    with eqs(1) show ?thesis by (simp add: xc_callback_name_def)
  next
    case resolving
    with eqs show ?thesis by (simp add: xc_callback_name_def xc_callback_def cancel_resolver_def)
  next
    case connecting
    with eqs show ?thesis
      by (auto simp: xc_callback_name_def xc_callback_def cancel_resolver_def cancel_socket_def)
  next
    case open_stream
    with eqs show ?thesis
      by (simp add: xc_callback_name_def xc_callback_def cancel_resolver_def cancel_socket_def close_stream_def
          xc_initiate_close_def)
  qed
qed

theorem xc_stop_effect_witness:
  "\<exists>s. run xc_enabled (xc_step \<lparr>env_order = rev, env_parse = (\<lambda>_. None), env_dump = (\<lambda>_. [])\<rparr>) xc_construct
      [Xc_start] = Some s \<and>
     started (xc_stop \<lparr>env_order = rev, env_parse = (\<lambda>_. None), env_dump = (\<lambda>_. [])\<rparr> s) = [Resolve_op, Cancel_resolve]"
proof -
  let ?v = "\<lparr>env_order = rev, env_parse = (\<lambda>_. None), env_dump = (\<lambda>_. [])\<rparr>"
  obtain s where r: "run xc_enabled (xc_step ?v) xc_construct [Xc_start] = Some s"
    and s: "started s = [Resolve_op]" "sr_map (xc_register s) \<noteq> []" "xc_point s = At_resolve"
    by (simp add: xc_defs sr_defs emplace_def erase_def Let_def)
  from xc_stop_effect [OF run_reachable [OF r]] s r show ?thesis by simp
qed

text \<open>
  A stop can get lost: when the name has been resolved but the completion has not run yet,
  cancelling the resolver has no effect and the callback is gone, so the connection is made all
  the same and stays open, reading, with no closing handshake started.
\<close>

theorem xc_stop_lost_while_resolving:
  "\<exists>s. run xc_enabled (xc_step v) xc_construct
       [Xc_start, Xc_stop, Xc_resolve_done None [], Xc_connect_done None None, Xc_tls_done None, Xc_handshake_done None] = Some s \<and>
     Read_op \<in> set (pending s) \<and> xc_errors s = [] \<and> Close_op (going_away, []) \<notin> set (started s)"
  by (simp add: xc_defs sr_defs emplace_def erase_def Let_def)

text \<open>
  An exception in \<open>on_text_frame\<close> reports the same error twice: \<open>fail\<close> already calls
  \<open>on_error\<close>, and the handler calls it again; reading is not resumed.
\<close>

theorem xc_exception_reported_twice:
  assumes "xc_reachable v s" "Read_op \<in> set (pending s)" "env_parse v (xc_buffer s @ bytes) = None"
  shows "\<exists>t. xc_step v s (Xc_read_done None bytes) = Inr t \<and>
    xc_errors t = xc_errors s @ [Some basic_fault, Some basic_fault] \<and> pending t = remove1 Read_op (pending s)"
  using assms(3) by (simp add: xc_on_read_def xc_on_text_frame_def xc_fail_def)

theorem xc_exception_reported_twice_witness:
  "\<exists>s t. run xc_enabled (xc_step \<lparr>env_order = rev, env_parse = (\<lambda>_. None), env_dump = (\<lambda>_. [])\<rparr>) xc_construct
      [Xc_start, Xc_resolve_done None [], Xc_connect_done None None, Xc_tls_done None, Xc_handshake_done None] = Some s \<and>
     xc_step \<lparr>env_order = rev, env_parse = (\<lambda>_. None), env_dump = (\<lambda>_. [])\<rparr> s (Xc_read_done None ''x'') = Inr t \<and>
     xc_errors t = [Some basic_fault, Some basic_fault]"
proof -
  let ?v = "\<lparr>env_order = rev, env_parse = (\<lambda>_. None), env_dump = (\<lambda>_. [])\<rparr>"
  obtain s where r: "run xc_enabled (xc_step ?v) xc_construct
      [Xc_start, Xc_resolve_done None [], Xc_connect_done None None, Xc_tls_done None, Xc_handshake_done None] = Some s"
    and s: "Read_op \<in> set (pending s)" "xc_errors s = []"
    by (simp add: xc_defs sr_defs emplace_def erase_def Let_def)
  from xc_exception_reported_twice [OF run_reachable [OF r] s(1), of "''x''"] s(2) r show ?thesis by auto
qed

end
