(* ===== verification/Dialling.thy ===== *)
theory Dialling
  imports Fmex_Client
begin

text \<open>
  What the two exchange clients ask of the network while they connect: which name they resolve,
  which endpoints they connect to, which name they present in the TLS and WebSocket handshakes, and
  under which deadlines. The connect operations of \<^verbatim>\<open>blog-2020-09/wss_transport.cpp\<close> and
  \<^verbatim>\<open>fmex_client/connect_transport_op.hpp\<close> keep a history of these calls; here it is compared with
  the script of a complete connect.
\<close>

section \<open>The client of the blog\<close>

definition fm_script :: "string list \<Rightarrow> connect_call list" where
  "fm_script endpoints =
     [Call_resolve ''api.fmex.com'' ''443'',
      Call_expires_after 15, Call_connect endpoints, Call_server_name ''api.fmex.com'',
      Call_expires_after 15, Call_tls_handshake,
      Call_expires_after 15, Call_handshake ''api.fmex.com'' ''/v2/ws'',
      Call_expires_never]"

text \<open>How far the script has been followed at each suspension point.\<close>

fun fm_asked :: "connect_point \<Rightarrow> nat set" where
  "fm_asked At_start = {0}"
| "fm_asked At_resolve = {1}"
| "fm_asked At_connect = {3}"
| "fm_asked At_tls = {6}"
| "fm_asked At_handshake = {8}"
| "fm_asked At_end = {4, 9}"

definition fm_dial_inv :: "fmex_connection \<Rightarrow> bool" where
  "fm_dial_inv s \<longleftrightarrow>
     (wss_point s \<noteq> At_start \<longrightarrow>
        wss_host s = ''api.fmex.com'' \<and> wss_port s = ''443'' \<and> wss_target s = ''/v2/ws'') \<and>
     (\<exists>n \<in> fm_asked (wss_point s). wss_calls s = take n (fm_script (wss_endpoints s)) \<and>
        (wss_state s = connected \<longrightarrow> n = 9))"

text \<open>What the functions outside connecting leave alone.\<close>

definition fm_dial :: "fmex_connection \<Rightarrow> connect_point \<times> string \<times> string \<times> string \<times> string list \<times> connect_call list" where
  "fm_dial s = (wss_point s, wss_host s, wss_port s, wss_target s, wss_endpoints s, wss_calls s)"

lemma fm_dial_invI: "fm_dial_inv s \<Longrightarrow> fm_dial t = fm_dial s \<Longrightarrow> (wss_state t = connected \<Longrightarrow> wss_state s = connected) \<Longrightarrow> fm_dial_inv t"
  unfolding fm_dial_inv_def fm_dial_def by auto

lemma fm_dial_frame [simp]:
  "fm_dial (initiate x s) = fm_dial s" "fm_dial (settle x s) = fm_dial s"
  "fm_dial (s\<lparr>wss_rx_buffer := b\<rparr>) = fm_dial s" "fm_dial (s\<lparr>wss_state := st\<rparr>) = fm_dial s"
  "fm_dial (s\<lparr>fm_ping_state := p\<rparr>) = fm_dial s" "fm_dial (s\<lparr>wss_completions := cs\<rparr>) = fm_dial s"
  "fm_dial (s\<lparr>wss_send_state := ss\<rparr>) = fm_dial s" "fm_dial (s\<lparr>wss_send_queue := qs\<rparr>) = fm_dial s"
  "fm_dial (s\<lparr>wss_errors := n\<rparr>) = fm_dial s"
  by (simp_all add: fm_dial_def)

lemma fm_dial_start_sending [simp]:
  "fm_dial (wss_start_sending s) = fm_dial s" "wss_state (wss_start_sending s) = wss_state s"
  by (simp_all add: wss_start_sending_def)

lemma fm_dial_functions [simp]:
  "fm_dial (wss_start_reading s) = fm_dial s" "wss_state (wss_start_reading s) = wss_state s"
  "fm_dial (wss_send_text_frame m s) = fm_dial s" "wss_state (wss_send_text_frame m s) = wss_state s"
  "fm_dial (fm_ping_enter_wait s) = fm_dial s" "wss_state (fm_ping_enter_wait s) = wss_state s"
  "fm_dial (wss_event_transport_error (fm_virtual parse serialize) s) = fm_dial s"
  by (simp_all add: wss_start_reading_def wss_send_text_frame_def fm_ping_enter_wait_def wss_event_transport_error_def)

lemma fm_error_not_connected [simp]: "wss_state (wss_event_transport_error (fm_virtual parse serialize) s) \<noteq> connected"
  by (auto simp: wss_event_transport_error_def)

lemma fm_dial_text:
  assumes "fm_on_text_frame parse serialize frame s = Inr t"
  shows "fm_dial t = fm_dial s" "wss_state t = wss_state s"
  using assms by (cases rule: fm_on_text_frame_cases;
    simp add: fm_on_hello_def fm_request_ticker_def fm_ping_event_pong_def)+

lemma fm_dial_read:
  assumes "wss_handle_read (fm_virtual parse serialize) e is_text n s = Inr t"
  shows "fm_dial t = fm_dial s" "wss_state t = connected \<Longrightarrow> wss_state s = connected"
  using assms fm_dial_text [of parse serialize "take n (wss_rx_buffer s)" s]
  by (auto simp: wss_handle_read_def split: if_splits sum.splits)

lemma fm_dial_complete:
  assumes "wss_connect_complete (fm_virtual parse serialize) e s = Inr t"
  shows "fm_dial t = fm_dial s" "e \<noteq> None \<Longrightarrow> wss_state t \<noteq> connected"
  using assms
  by (auto simp: wss_connect_complete_def wss_event_transport_up_def fm_ping_enter_state_def and_then_Inr Let_def
      split: if_splits)

lemma fm_dial_call:
  "fm_dial (wss_call cs s) = (wss_point s, wss_host s, wss_port s, wss_target s, wss_endpoints s, wss_calls s @ cs)"
  by (simp add: fm_dial_def)

text \<open>One resumption of the coroutine goes on with the script.\<close>

lemma fm_connect_op_dial:
  assumes "wss_connect_op (fm_virtual parse serialize) e sni s = Inr t" "fm_dial_inv s"
    and "wss_state s \<noteq> connected" "wss_point s \<noteq> At_start" "wss_point s \<noteq> At_end"
  shows "fm_dial_inv t"
proof -
  from assms(1) obtain u where u: "(if e \<noteq> None then wss_connect_complete (fm_virtual parse serialize) e s else Inr s) = Inr u"
    by (auto simp: wss_connect_op_def and_then_Inr)
  have d: "fm_dial u = fm_dial s" "wss_state u \<noteq> connected"
    using u fm_dial_complete [of parse serialize e s u] assms(3) by (auto split: if_splits)
  have inv: "fm_dial_inv u" by (rule fm_dial_invI [OF assms(2) d(1)]) (use d in simp)
  have pt: "wss_point u = wss_point s" using d(1) by (simp add: fm_dial_def)
  have fin: "fm_dial_inv t" if "wss_connect_complete (fm_virtual parse serialize) x v = Inr t"
    "fm_dial_inv v" "x \<noteq> None \<or> wss_calls v = fm_script (wss_endpoints v)" for x v
  proof (cases "wss_state t = connected")
    case True
    with that fm_dial_complete [OF that(1)] have "wss_calls v = fm_script (wss_endpoints v)" by auto
    with that(2) fm_dial_complete(1) [OF that(1)] show ?thesis
      by (cases "wss_point t") (auto simp: fm_dial_inv_def fm_dial_def fm_script_def)
  next
    case False
    with that(2) fm_dial_complete(1) [OF that(1)] fm_dial_invI show ?thesis by blast
  qed
  show ?thesis
  proof (cases "wss_point s")
    case At_handshake
    let ?v = "(wss_call [Call_expires_never] u)\<lparr>wss_point := At_end\<rparr>"
    have "fm_dial_inv ?v" "wss_calls ?v = fm_script (wss_endpoints ?v)"
      using inv pt At_handshake d(2) by (simp_all add: fm_dial_inv_def fm_script_def)
    with fin [of e ?v] u assms(1) pt At_handshake show ?thesis by (auto simp: wss_connect_op_def)
  next
    case At_connect
    show ?thesis
    proof (cases sni)
      case None
      with u assms(1) pt At_connect inv d(2) show ?thesis
        by (auto simp: wss_connect_op_def fm_dial_inv_def fm_script_def)
    next
      case (Some y)
      let ?v = "(wss_call [Call_server_name (wss_host u)] u)\<lparr>wss_point := At_end\<rparr>"
      have "fm_dial_inv ?v"
        using inv pt At_connect d(2) by (simp add: fm_dial_inv_def fm_script_def)
      with fin [of sni ?v] Some u assms(1) pt At_connect show ?thesis by (auto simp: wss_connect_op_def)
    qed
  qed (use u assms pt inv d(2) in \<open>auto simp: wss_connect_op_def fm_dial_inv_def fm_script_def\<close>)
qed

lemma fm_dial_step:
  assumes "fm_inv s" "fm_enabled s e" "fm_dial_inv s" "fm_step parse serialize s e = Inr t"
  shows "fm_dial_inv t"
proof (cases e)
  case Fm_start
  with assms(1,3,4) show ?thesis
    by (auto simp: wss_start_def fm_on_start_def wss_initiate_connect_def wss_connect_op_def wss_new_connect_op_def
        fm_dial_inv_def fm_script_def fm_inv_def fm_connect_inv_def split: if_splits)
next
  case (Fm_resolve_done x results)
  with assms obtain p where p: "awaited p = [Resolve_op]" "fm_resumed p (settle Resolve_op s)"
    using fm_resumedI [of s Resolve_op] by auto
  then have "wss_point s = At_resolve" by (cases p) (auto simp: fm_resumed_def)
  with p assms(3) have "fm_dial_inv ((settle Resolve_op s)\<lparr>wss_endpoints := results\<rparr>)"
    by (auto simp: fm_dial_inv_def fm_script_def fm_resumed_def)
  with fm_connect_op_dial Fm_resolve_done assms(4) p(2) show ?thesis
    by (fastforce simp: wss_connect_resolved_def fm_resumed_def)
next
  case (Fm_connect_done x sni)
  with assms obtain p where p: "fm_resumed p (settle Connect_op s)" using fm_resumedI [of s Connect_op] by auto
  have "fm_dial_inv (settle Connect_op s)" by (rule fm_dial_invI [OF assms(3)]) simp_all
  with fm_connect_op_dial Fm_connect_done assms(4) p show ?thesis by (fastforce simp: fm_resumed_def)
next
  case (Fm_tls_done x)
  with assms obtain p where p: "fm_resumed p (settle Tls_handshake_op s)"
    using fm_resumedI [of s Tls_handshake_op] by auto
  have "fm_dial_inv (settle Tls_handshake_op s)" by (rule fm_dial_invI [OF assms(3)]) simp_all
  with fm_connect_op_dial Fm_tls_done assms(4) p show ?thesis by (fastforce simp: fm_resumed_def)
next
  case (Fm_handshake_done x)
  with assms obtain p where p: "fm_resumed p (settle Handshake_op s)" using fm_resumedI [of s Handshake_op] by auto
  have "fm_dial_inv (settle Handshake_op s)" by (rule fm_dial_invI [OF assms(3)]) simp_all
  with fm_connect_op_dial Fm_handshake_done assms(4) p show ?thesis by (fastforce simp: fm_resumed_def)
next
  case (Fm_read_done x is_text bytes)
  with assms(4) fm_dial_read show ?thesis by (intro fm_dial_invI [OF assms(3)]) fastforce+
next
  case (Fm_write_done x m)
  with assms(4) show ?thesis
    by (intro fm_dial_invI [OF assms(3)]) (auto simp: wss_handle_send_def Let_def split: list.splits if_splits)
next
  case (Fm_wait_done x now)
  with assms(4) show ?thesis
    by (intro fm_dial_invI [OF assms(3)]) (auto simp: fm_ping_event_timeout_def split: if_splits)
qed (use assms in \<open>simp add: wss_stop_def\<close>)

lemma fm_reachable_dial: "fm_reachable parse serialize s \<Longrightarrow> fm_dial_inv s"
proof (induction rule: reachable_invariant)
  case start
  show ?case by (simp add: fm_dial_inv_def fm_construct_def fm_script_def)
next
  case (step s e t)
  then show ?case using fm_dial_step fm_reachable_inv by blast
qed

section \<open>The later client\<close>

definition xc_script :: "string list \<Rightarrow> connect_call list" where
  "xc_script endpoints =
     [Call_resolve ''api.fmex.com'' ''443'', Call_connect endpoints, Call_server_name ''api.fmex.com'',
      Call_tls_handshake, Call_suggested_timeout, Call_user_agent ''custom-websocket-client-async'',
      Call_handshake ''api.fmex.com'' ''/v2/ws'']"

text \<open>The operation ends at its first error, or completely.\<close>

fun xc_asked :: "connect_point \<Rightarrow> nat set" where
  "xc_asked At_start = {0}"
| "xc_asked At_resolve = {1}"
| "xc_asked At_connect = {2}"
| "xc_asked At_tls = {4}"
| "xc_asked At_handshake = {7}"
| "xc_asked At_end = {1, 2, 3, 4, 7}"

definition xc_dial_inv :: "exchange_connection \<Rightarrow> bool" where
  "xc_dial_inv s \<longleftrightarrow>
     (xc_point s \<noteq> At_start \<longrightarrow> xc_host s = ''api.fmex.com'' \<and> xc_port s = ''443'' \<and> xc_path s = ''/v2/ws'') \<and>
     (\<exists>n \<in> xc_asked (xc_point s). xc_calls s = take n (xc_script (xc_endpoints s)) \<and>
        (None \<in> set (xc_completions s) \<longrightarrow> n = 7))"

definition xc_dial ::
    "exchange_connection \<Rightarrow> string \<times> string \<times> string \<times> string list \<times> connect_call list" where
  "xc_dial s = (xc_host s, xc_port s, xc_path s, xc_endpoints s, xc_calls s)"

lemma xc_dial_invI:
  "xc_dial_inv s \<Longrightarrow> xc_dial t = xc_dial s \<Longrightarrow> xc_point t = xc_point s \<Longrightarrow> xc_completions t = xc_completions s \<Longrightarrow> xc_dial_inv t"
  unfolding xc_dial_inv_def xc_dial_def by auto

abbreviation xc_same :: "exchange_connection \<Rightarrow> exchange_connection \<Rightarrow> bool" where
  "xc_same t s \<equiv> xc_dial t = xc_dial s \<and> xc_point t = xc_point s \<and> xc_completions t = xc_completions s"

lemma xc_dial_frame [simp]:
  "xc_dial (initiate x s) = xc_dial s" "xc_dial (settle x s) = xc_dial s" "xc_dial (perform x s) = xc_dial s"
  "xc_dial (s\<lparr>xc_buffer := b\<rparr>) = xc_dial s" "xc_dial (s\<lparr>xc_tx_queue := q\<rparr>) = xc_dial s"
  "xc_dial (s\<lparr>xc_send_state := ss\<rparr>) = xc_dial s" "xc_dial (s\<lparr>xc_register := r\<rparr>) = xc_dial s"
  "xc_dial (s\<lparr>xc_my_token := k\<rparr>) = xc_dial s" "xc_dial (s\<lparr>xc_op_token := k\<rparr>) = xc_dial s"
  "xc_dial (s\<lparr>xc_ping_state := p\<rparr>) = xc_dial s" "xc_dial (s\<lparr>xc_errors := es\<rparr>) = xc_dial s"
  "xc_dial (s\<lparr>xc_point := c\<rparr>) = xc_dial s" "xc_dial (s\<lparr>xc_completions := cs\<rparr>) = xc_dial s"
  by (simp_all add: xc_dial_def)

lemma xc_same_error [simp]: "xc_same (xc_on_error e s) s"
  by (simp add: xc_on_error_def xc_ping_stop_def split: xc_ping_state_t.split)

lemma xc_same_send:
  "xc_initiate_send s = Inr t \<Longrightarrow> xc_same t s"
  "xc_notify_send m s = Inr t \<Longrightarrow> xc_same t s"
  by (auto simp: xc_initiate_send_def xc_notify_send_def and_then_Inr Let_def split: if_splits)

lemma xc_same_tokens:
  "xc_reset_op_token s = Inr t \<Longrightarrow> xc_same t s"
  "xc_set_my_token f s = Inr t \<Longrightarrow> xc_same t s"
  "xc_set_op_token f s = Inr t \<Longrightarrow> xc_same t s"
  by (auto simp: xc_reset_op_token_def xc_set_my_token_def xc_set_op_token_def and_then_Inr split: prod.splits)

lemma xc_same_callbacks: "xc_same (fold xc_callback ns s) s"
  by (induction ns arbitrary: s) (simp_all add: xc_callback_def xc_initiate_close_def)

lemma xc_same_stop: "xc_same (xc_stop v s) s"
  using xc_same_callbacks by (simp add: xc_stop_def Let_def)

lemma xc_complete_dial:
  assumes "xc_op_complete e s = Inr t"
  shows "xc_dial t = xc_dial s \<and> xc_point t = At_end \<and> xc_completions t = xc_completions s @ [e]"
  using assms
  by (auto simp: xc_op_complete_def xc_connect_handler_def xc_fail_def and_then_Inr xc_ping_start_def Let_def
      xc_ping_enter_waiting_state_def xc_enter_read_state_def dest!: xc_same_tokens split: if_splits)

lemma xc_connect_op_dial:
  assumes op: "xc_connect_op e sni s = Inr t" and inv: "xc_dial_inv s"
    and pt: "xc_point s \<noteq> At_start" "xc_point s \<noteq> At_end" and fresh: "xc_completions s = []"
  shows "xc_dial_inv t"
proof -
  have early: "xc_dial_inv r" if "xc_op_complete x u = Inr r" "xc_dial_inv u" "xc_completions u = []"
    "xc_point u \<noteq> At_start" "x \<noteq> None \<or> xc_calls u = xc_script (xc_endpoints u)"
    "xc_point u = At_end \<or> xc_asked (xc_point u) \<subseteq> xc_asked At_end" for x u r
    using xc_complete_dial [OF that(1)] that(2-6)
    by (auto simp: xc_dial_inv_def xc_dial_def xc_script_def)
  show ?thesis
  proof (cases "e = None")
    case False
    with op early [of e s t] inv pt fresh show ?thesis
      by (cases "xc_point s") (auto simp: xc_connect_op_def)
  next
    case True
    show ?thesis
    proof (cases "xc_point s")
      case At_resolve
      with True op obtain u where u: "xc_set_op_token cancel_socket s = Inr u"
        "t = initiate Connect_op ((xc_call [Call_connect (xc_endpoints u)] u)\<lparr>xc_point := At_connect\<rparr>)"
        by (auto simp: xc_connect_op_def and_then_Inr)
      with inv xc_same_tokens(3) [OF u(1)] At_resolve fresh show ?thesis
        by (auto simp: xc_dial_inv_def xc_dial_def xc_script_def)
    next
      case At_connect
      show ?thesis
      proof (cases sni)
        case None
        with True op inv At_connect fresh show ?thesis
          by (auto simp: xc_connect_op_def xc_dial_inv_def xc_script_def)
      next
        case (Some y)
        let ?u = "xc_call [Call_server_name (xc_host s)] s"
        from Some True op At_connect have c: "xc_op_complete sni ?u = Inr t" by (simp add: xc_connect_op_def)
        from xc_complete_dial [OF c] Some inv At_connect fresh show ?thesis
          by (auto simp: xc_dial_inv_def xc_dial_def xc_script_def)
      qed
    next
      case At_tls
      with True op inv fresh show ?thesis by (auto simp: xc_connect_op_def xc_dial_inv_def xc_script_def)
    next
      case At_handshake
      with True op obtain u where u: "xc_reset_op_token s = Inr u" "xc_op_complete e u = Inr t"
        by (auto simp: xc_connect_op_def and_then_Inr)
      from xc_same_tokens(1) [OF u(1)] xc_complete_dial [OF u(2)] inv At_handshake fresh show ?thesis
        by (auto simp: xc_dial_inv_def xc_dial_def xc_script_def)
    qed (use pt in auto)
  qed
qed

lemma xc_start_dial:
  assumes "xc_start s = Inr t" "xc_inv s" "xc_point s = At_start" "xc_dial_inv s"
  shows "xc_dial_inv t"
proof -
  let ?s = "xc_new_connect_op ''api.fmex.com'' ''443'' ''/v2/ws'' s"
  have s: "xc_host ?s = ''api.fmex.com''" "xc_port ?s = ''443''" "xc_path ?s = ''/v2/ws''" "xc_calls ?s = []"
    "xc_completions ?s = []" "xc_point ?s = At_start"
    using assms(2-4) by (auto simp: xc_new_connect_op_def xc_dial_inv_def xc_inv_def xc_connect_inv_def)
  from assms(1) s(6) obtain u where u: "xc_set_op_token cancel_resolver ?s = Inr u"
    "t = initiate Resolve_op ((xc_call [Call_resolve (xc_host u) (xc_port u)] u)\<lparr>xc_point := At_resolve\<rparr>)"
    by (auto simp: xc_start_def xc_handle_connect_command_def xc_notify_connect_def xc_connect_op_def and_then_Inr)
  from xc_same_tokens(3) [OF u(1)] s u(2) show ?thesis
    by (auto simp: xc_dial_inv_def xc_dial_def xc_script_def)
qed

lemma xc_dial_step:
  assumes inv: "xc_inv s" and en: "xc_enabled s e" and d: "xc_dial_inv s" and st: "xc_step v s e = Inr t"
  shows "xc_dial_inv t"
proof -
  have resumed: "xc_dial_inv t" if x: "x \<in> set (pending s)" "connecting_op x"
    and op: "xc_connect_op ec sni u = Inr t"
    and u: "u = settle x s \<or> x = Resolve_op \<and> u = (settle x s)\<lparr>xc_endpoints := ps\<rparr>" for x ec sni u ps
  proof -
    from xc_resumedI [OF inv x] obtain p where p: "awaited p = [x]" "xc_resumed p (settle x s)" by blast
    then have pt: "xc_point s = p" "p \<noteq> At_start" "p \<noteq> At_end" "xc_completions s = []" by (auto simp: xc_resumed_def)
    have "xc_dial_inv u" "xc_point u = p" "xc_completions u = []"
      using d u p(1) pt by (cases p; auto simp: xc_dial_inv_def xc_script_def)+
    with op pt show ?thesis by (auto intro: xc_connect_op_dial)
  qed
  show ?thesis
  proof (cases e)
    case Xc_start
    with xc_start_dial inv en d st show ?thesis by simp
  next
    case (Xc_resolve_done x results)
    with en st show ?thesis by (intro resumed [of Resolve_op x None _ results]) (auto simp: xc_connect_resolved_def)
  next
    case (Xc_connect_done x sni)
    with en st show ?thesis by (intro resumed [of Connect_op x sni "settle Connect_op s"]) auto
  next
    case (Xc_tls_done x)
    with en st show ?thesis by (intro resumed [of Tls_handshake_op x None "settle Tls_handshake_op s"]) auto
  next
    case (Xc_handshake_done x)
    with en st show ?thesis by (intro resumed [of Handshake_op x None "settle Handshake_op s"]) auto
  next
    case (Xc_read_done x bytes)
    let ?s = "(settle Read_op s)\<lparr>xc_buffer := xc_buffer s @ bytes\<rparr>"
    have "xc_same t ?s"
      using st Xc_read_done xc_same_send(2) [of "env_dump v xc_sub_frame" ?s] xc_notify_send_total [of "env_dump v xc_sub_frame" ?s]
      by (cases rule: xc_on_text_frame_cases [of v "xc_buffer ?s" ?s])
        (auto simp: xc_on_read_def xc_fail_def xc_enter_read_state_def split: if_splits sum.splits)
    then show ?thesis by (intro xc_dial_invI [OF d]) simp_all
  next
    case (Xc_write_done x m)
    with st have "xc_same t s"
      by (auto simp: xc_on_write_def xc_fail_def and_then_Inr Let_def dest!: xc_same_send split: if_splits)
    then show ?thesis by (intro xc_dial_invI [OF d]) simp_all
  next
    case (Xc_close_done x)
    with st have "xc_same t s" by (auto simp: xc_on_close_def xc_fail_def)
    then show ?thesis by (intro xc_dial_invI [OF d]) simp_all
  next
    case (Xc_wait_done x now)
    with st have "xc_same t s"
      by (auto simp: xc_ping_on_timer_def xc_fail_def and_then_Inr xc_ping_enter_waiting_state_def
          dest!: xc_same_send split: if_splits)
    then show ?thesis by (intro xc_dial_invI [OF d]) simp_all
  next
    case Xc_stop
    with st xc_same_stop show ?thesis by (intro xc_dial_invI [OF d]) auto
  qed
qed

lemma xc_reachable_dial: "xc_reachable v s \<Longrightarrow> xc_dial_inv s"
proof (induction rule: reachable_invariant)
  case start
  show ?case by (simp add: xc_dial_inv_def xc_construct_def xc_script_def)
next
  case (step s e t)
  then show ?case using xc_dial_step xc_reachable_inv by blast
qed

section \<open>Properties\<close>

text \<open>
  C28. The blog's client asks for the exchange and nothing else: in every reachable state the calls
  made while connecting are a prefix of the script, which resolves \<^verbatim>\<open>api.fmex.com:443\<close>, connects to
  what the resolver returned, presents the same name in the TLS handshake and requests \<^verbatim>\<open>/v2/ws\<close> of
  it, each step but the first under a deadline of fifteen seconds; and a connected transport has gone
  through all of it, so that no deadline is left running.
\<close>

theorem fm_dials_exchange:
  assumes "fm_reachable parse serialize s"
  shows "prefix (wss_calls s) (fm_script (wss_endpoints s)) \<and>
    (wss_state s = connected \<longrightarrow> wss_calls s = fm_script (wss_endpoints s))"
  using fm_reachable_dial [OF assms] by (auto simp: fm_dial_inv_def take_is_prefix fm_script_def)

theorem fm_dials_exchange_witness:
  "\<exists>s. run fm_enabled (fm_step (\<lambda>_. None) (\<lambda>_. [])) fm_construct
      [Fm_start, Fm_resolve_done None [''a''], Fm_connect_done None None, Fm_tls_done None, Fm_handshake_done None] = Some s \<and>
    wss_state s = connected \<and> wss_calls s = fm_script [''a'']"
proof -
  let ?es = "[Fm_start, Fm_resolve_done None [''a''], Fm_connect_done None None, Fm_tls_done None, Fm_handshake_done None]"
  obtain s where r: "run fm_enabled (fm_step (\<lambda>_. None) (\<lambda>_. [])) fm_construct ?es = Some s"
    and s: "wss_state s = connected" "wss_endpoints s = [''a'']"
    by (simp add: fm_defs wss_defs wss_call_def Let_def)
  from fm_dials_exchange [OF run_reachable [OF r]] r s show ?thesis by auto
qed

text \<open>
  The later client follows its own script, without the deadlines of the transport; it stops at
  the first error, and its connect operation reports success only after the whole script.
\<close>

theorem xc_dials_exchange:
  assumes "xc_reachable v s"
  shows "prefix (xc_calls s) (xc_script (xc_endpoints s)) \<and>
    (None \<in> set (xc_completions s) \<longrightarrow> xc_calls s = xc_script (xc_endpoints s))"
  using xc_reachable_dial [OF assms] by (auto simp: xc_dial_inv_def take_is_prefix xc_script_def)

theorem xc_dials_exchange_witness:
  "\<exists>s. run xc_enabled (xc_step \<lparr>env_order = rev, env_parse = (\<lambda>_. None), env_dump = (\<lambda>_. [])\<rparr>) xc_construct
      [Xc_start, Xc_resolve_done None [''a''], Xc_connect_done (Some basic_fault) None] = Some s \<and>
    prefix (xc_calls s) (xc_script [''a'']) \<and> length (xc_calls s) = 2"
proof -
  obtain s where r: "run xc_enabled (xc_step \<lparr>env_order = rev, env_parse = (\<lambda>_. None), env_dump = (\<lambda>_. [])\<rparr>) xc_construct
      [Xc_start, Xc_resolve_done None [''a''], Xc_connect_done (Some basic_fault) None] = Some s"
    and s: "xc_endpoints s = [''a'']" "length (xc_calls s) = 2"
    by (simp add: xc_defs sr_defs emplace_def erase_def Let_def)
  from xc_dials_exchange [OF run_reachable [OF r]] r s show ?thesis by auto
qed

end
