(* ===== verification/Endpoint_Map.thy ===== *)
theory Endpoint_Map
  imports Echo_Server
begin

text \<open>
  The connection maps of the servers and of the pool: \<^verbatim>\<open>std::unordered_map\<close> with the
  \<^verbatim>\<open>endpoint_hasher\<close> of \<^verbatim>\<open>echo_server/server.hpp\<close> (the same code stands in \<^verbatim>\<open>cxx20/server.hpp\<close> and
  \<^verbatim>\<open>chatterbox/connection_pool.hpp\<close>). The components use association lists for them; this theory
  justifies it. What a client of such a map relies on is the locale \<open>endpoint_map\<close>, of which the
  association list and a table of buckets, over any hash function, are both instances; and the one
  loop over a map does the same in every order of its entries.
\<close>

section \<open>The hash function\<close>

text \<open>
  An address as \<^verbatim>\<open>net::ip::address\<close> has it: of version 4, or of version 6 with a scope.
  \<^verbatim>\<open>boost::hash_combine\<close> is a parameter, at the four types it is used with, and so is the printing of
  an address.
\<close>

datatype ip_address = V4 "32 word" | V6 "128 word" "32 word"

record hash_functions =
  combine_port :: "64 word \<Rightarrow> 16 word \<Rightarrow> 64 word"
  combine_bytes :: "64 word \<Rightarrow> 8 word list \<Rightarrow> 64 word"
  combine_long :: "64 word \<Rightarrow> 64 word \<Rightarrow> 64 word"
  combine_string :: "64 word \<Rightarrow> string \<Rightarrow> 64 word"
  print_address :: "ip_address \<Rightarrow> string"

fun is_v4 :: "ip_address \<Rightarrow> bool" where
  "is_v4 (V4 a) = True"
| "is_v4 (V6 a scope) = False"

fun is_v6 :: "ip_address \<Rightarrow> bool" where
  "is_v6 (V4 a) = False"
| "is_v6 (V6 a scope) = True"

fun is_unspecified :: "ip_address \<Rightarrow> bool" where
  "is_unspecified (V4 a) = (a = 0)"
| "is_unspecified (V6 a scope) = (a = 0 \<and> scope = 0)"

text \<open>The bytes of an address, most significant first.\<close>

definition word_bytes :: "nat \<Rightarrow> 'a :: len word \<Rightarrow> 8 word list" where
  "word_bytes n w = map (\<lambda>i. ucast (drop_bit (8 * i) w)) (rev [0..<n])"

fun to_bytes :: "ip_address \<Rightarrow> 8 word list" where
  "to_bytes (V4 a) = word_bytes 4 a"
| "to_bytes (V6 a scope) = word_bytes 16 a"

definition hasher_combine :: "hash_functions \<Rightarrow> 64 word \<Rightarrow> ip_address \<Rightarrow> 64 word" where
  "hasher_combine H seed v =
     (if is_v4 v then combine_bytes H seed (to_bytes v)
      else if is_v6 v then combine_bytes H seed (to_bytes v)
      else if is_unspecified v then combine_long H seed 0x4751301174351161
      else combine_string H seed (print_address H v))"

definition endpoint_hasher :: "hash_functions \<Rightarrow> ip_address \<times> 16 word \<Rightarrow> 64 word" where
  "endpoint_hasher H ep = hasher_combine H (combine_port H 0 (snd ep)) (fst ep)"

section \<open>The interface of a map\<close>

locale endpoint_map =
  fixes empty :: 'm
    and assign :: "'k \<Rightarrow> 'v \<Rightarrow> 'm \<Rightarrow> 'm"
    and entries :: "'m \<Rightarrow> ('k \<times> 'v) list"
    and invar :: "'m \<Rightarrow> bool"
  assumes empty_law: "invar empty \<and> entries empty = []"
    and assign_law: "invar m \<Longrightarrow> invar (assign k v m) \<and> map_of (entries (assign k v m)) = (map_of (entries m))(k \<mapsto> v)"
    and distinct_law: "invar m \<Longrightarrow> distinct (map fst (entries m))"
begin

definition assign_all :: "('k \<times> 'v) list \<Rightarrow> 'm" where
  "assign_all kvs = fold (\<lambda>(k, v). assign k v) kvs empty"

lemma assign_all_spec:
  "invar (assign_all kvs) \<and> map_of (entries (assign_all kvs)) = fold (\<lambda>(k, v) f. f(k \<mapsto> v)) kvs Map.empty"
proof -
  have "invar m \<Longrightarrow> invar (fold (\<lambda>(k, v). assign k v) kvs m) \<and>
      map_of (entries (fold (\<lambda>(k, v). assign k v) kvs m)) = fold (\<lambda>(k, v) f. f(k \<mapsto> v)) kvs (map_of (entries m))" for m
    by (induction kvs arbitrary: m) (auto simp: assign_law)
  from this [of empty] show ?thesis by (simp add: assign_all_def empty_law)
qed

text \<open>The entries, and so their number, depend on the assignments only.\<close>

lemma entries_graph: "invar m \<Longrightarrow> set (entries m) = Map.graph (map_of (entries m))"
  using graph_map_of_if_distinct_dom [OF distinct_law] by blast

lemma mset_assign_all:
  assumes "distinct (map fst xs)" "map_of xs = fold (\<lambda>(k, v) f. f(k \<mapsto> v)) kvs Map.empty"
  shows "mset (entries (assign_all kvs)) = mset xs"
proof -
  let ?m = "assign_all kvs"
  note m = assign_all_spec [of kvs]
  then have d: "distinct (entries ?m)" "distinct xs"
    using distinct_law [of ?m] assms(1) by (auto simp: distinct_map)
  have "set xs = Map.graph (map_of xs)" using graph_map_of_if_distinct_dom [OF assms(1)] by simp
  moreover have "set (entries ?m) = Map.graph (map_of xs)" using entries_graph [of ?m] m assms(2) by simp
  ultimately show ?thesis using d set_eq_iff_mset_eq_distinct by blast
qed

end

interpretation al: endpoint_map "[]" AList.update "\<lambda>xs. xs" "\<lambda>xs. distinct (map fst xs)"
  by unfold_locales (auto simp: update_conv' distinct_update)

section \<open>A table of buckets\<close>

text \<open>
  The buckets of an \<^verbatim>\<open>unordered_map\<close>. \<open>hm_assign\<close> is \<^verbatim>\<open>m[k] = v\<close>: the key is looked for in the bucket
  of its hash, and afterwards the table may be rehashed to another number of buckets, which
  \<open>policy\<close> chooses. Iteration goes from bucket to bucket.
\<close>

type_synonym ('k, 'v) hash_map = "('k \<times> 'v) list list"

definition hm_empty :: "nat \<Rightarrow> ('k, 'v) hash_map" where
  "hm_empty n = replicate (Suc n) []"

definition hm_entries :: "('k, 'v) hash_map \<Rightarrow> ('k \<times> 'v) list" where
  "hm_entries m = concat m"

definition hm_slot :: "('k \<Rightarrow> 64 word) \<Rightarrow> 'k \<Rightarrow> ('k, 'v) hash_map \<Rightarrow> nat" where
  "hm_slot hash k m = unat (hash k) mod length m"

definition hm_put :: "('k \<Rightarrow> 64 word) \<Rightarrow> 'k \<Rightarrow> 'v \<Rightarrow> ('k, 'v) hash_map \<Rightarrow> ('k, 'v) hash_map" where
  "hm_put hash k v m = (let i = hm_slot hash k m in m[i := AList.update k v (m ! i)])"

definition hm_rehash :: "('k \<Rightarrow> 64 word) \<Rightarrow> nat \<Rightarrow> ('k, 'v) hash_map \<Rightarrow> ('k, 'v) hash_map" where
  "hm_rehash hash n m = fold (\<lambda>(k, v). hm_put hash k v) (hm_entries m) (hm_empty n)"

definition hm_assign ::
    "('k \<Rightarrow> 64 word) \<Rightarrow> (('k, 'v) hash_map \<Rightarrow> nat option) \<Rightarrow> 'k \<Rightarrow> 'v \<Rightarrow> ('k, 'v) hash_map \<Rightarrow> ('k, 'v) hash_map" where
  "hm_assign hash policy k v m =
     (let m1 = hm_put hash k v m in case policy m1 of None \<Rightarrow> m1 | Some n \<Rightarrow> hm_rehash hash n m1)"

text \<open>Every entry is in the bucket of its key, and no bucket has a key twice.\<close>

definition hm_inv :: "('k \<Rightarrow> 64 word) \<Rightarrow> ('k, 'v) hash_map \<Rightarrow> bool" where
  "hm_inv hash m \<longleftrightarrow> m \<noteq> [] \<and>
     (\<forall>i < length m. distinct (map fst (m ! i)) \<and> (\<forall>(k, v) \<in> set (m ! i). hm_slot hash k m = i))"

lemma hm_slot_less: "m \<noteq> [] \<Longrightarrow> hm_slot hash k m < length m"
  by (simp add: hm_slot_def)

text \<open>Under the invariant the table is a finite map: what its slot has.\<close>

lemma hm_invD:
  assumes "hm_inv hash m" "i < length m"
  shows "distinct (map fst (m ! i))" "(k, v) \<in> set (m ! i) \<Longrightarrow> hm_slot hash k m = i"
  using assms unfolding hm_inv_def by blast+

lemma distinct_keys_concat:
  "(\<And>i. i < length m \<Longrightarrow> distinct (map fst (m ! i))) \<Longrightarrow>
   (\<And>i j. i < length m \<Longrightarrow> j < length m \<Longrightarrow> i \<noteq> j \<Longrightarrow> fst ` set (m ! i) \<inter> fst ` set (m ! j) = {}) \<Longrightarrow>
     distinct (map fst (concat m))"
proof (induction m)
  case Nil
  then show ?case by simp
next
  case (Cons b m)
  have "distinct (map fst (concat m))"
    by (rule Cons.IH) (use Cons.prems(1) [of "Suc i" for i] Cons.prems(2) [of "Suc i" "Suc j" for i j] in auto)
  moreover have "distinct (map fst b)" using Cons.prems(1) [of 0] by simp
  moreover have "fst ` set b \<inter> fst ` set (concat m) = {}"
  proof -
    have "fst ` set b \<inter> fst ` set c = {}" if c: "c \<in> set m" for c
    proof -
      obtain j where "j < length m" "c = m ! j" using c by (auto simp: in_set_conv_nth)
      with Cons.prems(2) [of 0 "Suc j"] show ?thesis by simp
    qed
    moreover have "fst ` set (concat m) = (\<Union>c \<in> set m. fst ` set c)" by auto
    ultimately show ?thesis by simp blast
  qed
  ultimately show ?case by simp
qed

lemma hm_entries_distinct:
  assumes "hm_inv hash m"
  shows "distinct (map fst (hm_entries m))"
  unfolding hm_entries_def
proof (rule distinct_keys_concat)
  fix i j assume ij: "i < length m" "j < length m" "i \<noteq> j"
  have "hm_slot hash k m = i" if "k \<in> fst ` set (m ! i)" "i < length m" for k i
    using that hm_invD(2) [OF assms] by auto
  with ij show "fst ` set (m ! i) \<inter> fst ` set (m ! j) = {}" by (metis disjoint_iff)
qed (use assms in \<open>simp add: hm_inv_def\<close>)

lemma hm_lookup:
  assumes "hm_inv hash m"
  shows "map_of (hm_entries m) k = map_of (m ! hm_slot hash k m) k"
proof -
  have slot: "hm_slot hash k m < length m" using assms by (simp add: hm_inv_def hm_slot_less)
  have "(k, v) \<in> set (hm_entries m) \<longleftrightarrow> (k, v) \<in> set (m ! hm_slot hash k m)" for v
  proof
    assume "(k, v) \<in> set (hm_entries m)"
    then obtain b where "b \<in> set m" "(k, v) \<in> set b" by (auto simp: hm_entries_def)
    then obtain i where "i < length m" "(k, v) \<in> set (m ! i)" by (metis in_set_conv_nth)
    with hm_invD(2) [OF assms] show "(k, v) \<in> set (m ! hm_slot hash k m)" by blast
  next
    assume "(k, v) \<in> set (m ! hm_slot hash k m)"
    with slot show "(k, v) \<in> set (hm_entries m)" unfolding hm_entries_def by (auto intro!: bexI [of _ "m ! hm_slot hash k m"])
  qed
  moreover have "distinct (map fst (m ! hm_slot hash k m))" using assms slot by (simp add: hm_inv_def)
  ultimately have "map_of (hm_entries m) k = Some v \<longleftrightarrow> map_of (m ! hm_slot hash k m) k = Some v" for v
    using hm_entries_distinct [OF assms] by simp
  then show ?thesis by (metis option.exhaust)
qed

lemma AList_update_subset: "set (AList.update k v xs) \<subseteq> insert (k, v) (set xs)"
  by (induction xs) (auto split: if_splits)

lemma hm_put_inv:
  assumes "hm_inv hash m"
  shows "hm_inv hash (hm_put hash k v m)"
proof -
  let ?m = "hm_put hash k v m"
  have m: "?m \<noteq> []" "length ?m = length m" "hm_slot hash j ?m = hm_slot hash j m" for j
    using assms by (simp_all add: hm_inv_def hm_slot_def hm_put_def Let_def)
  have nth: "?m ! i = (if i = hm_slot hash k m then AList.update k v (m ! i) else m ! i)" if "i < length m" for i
    using that by (auto simp: hm_put_def Let_def)
  have "distinct (map fst (?m ! i)) \<and> (\<forall>(j, u) \<in> set (?m ! i). hm_slot hash j m = i)" if i: "i < length m" for i
    using hm_invD [OF assms i] AList_update_subset [of k v "m ! i"] by (auto simp: nth [OF i] distinct_update)
  with m show ?thesis by (simp add: hm_inv_def)
qed

lemma hm_put_map:
  assumes "hm_inv hash m"
  shows "map_of (hm_entries (hm_put hash k v m)) = (map_of (hm_entries m))(k \<mapsto> v)"
proof (rule ext)
  fix j
  have same: "hm_slot hash j (hm_put hash k v m) = hm_slot hash j m"
    by (simp add: hm_slot_def hm_put_def Let_def)
  have less: "hm_slot hash k m < length m" using assms by (simp add: hm_inv_def hm_slot_less)
  have "map_of (hm_put hash k v m ! hm_slot hash j m) j = ((map_of (m ! hm_slot hash j m))(k \<mapsto> v)) j"
    using less by (cases "hm_slot hash j m = hm_slot hash k m") (auto simp: hm_put_def Let_def update_conv')
  then show "map_of (hm_entries (hm_put hash k v m)) j = ((map_of (hm_entries m))(k \<mapsto> v)) j"
    using hm_lookup [OF hm_put_inv [OF assms, of k v], of j] hm_lookup [OF assms, of j] same by simp
qed

lemma hm_empty_ok: "hm_inv hash (hm_empty n)" "hm_entries (hm_empty n) = []"
  by (auto simp: hm_inv_def hm_empty_def hm_entries_def simp del: replicate_Suc)

lemma hm_rehash_ok:
  assumes "hm_inv hash m"
  shows "hm_inv hash (hm_rehash hash n m)" "map_of (hm_entries (hm_rehash hash n m)) = map_of (hm_entries m)"
proof -
  have put: "hm_inv hash t \<Longrightarrow> hm_inv hash (fold (\<lambda>(k, v). hm_put hash k v) kvs t) \<and>
      map_of (hm_entries (fold (\<lambda>(k, v). hm_put hash k v) kvs t)) = map_of (hm_entries t) ++ map_of (rev kvs)" for kvs t
    by (induction kvs arbitrary: t) (auto simp: hm_put_inv hm_put_map)
  have "map_of (rev (hm_entries m)) = map_of (hm_entries m)"
  proof (rule ext)
    fix k
    have "map_of (rev (hm_entries m)) k = Some v \<longleftrightarrow> map_of (hm_entries m) k = Some v" for v
      using hm_entries_distinct [OF assms] by (simp flip: rev_map)
    then show "map_of (rev (hm_entries m)) k = map_of (hm_entries m) k" by (metis option.exhaust)
  qed
  with put [OF hm_empty_ok(1) [of hash n], of "hm_entries m"]
  show "hm_inv hash (hm_rehash hash n m)" "map_of (hm_entries (hm_rehash hash n m)) = map_of (hm_entries m)"
    by (simp_all add: hm_rehash_def hm_empty_ok)
qed

interpretation hm: endpoint_map "hm_empty n" "hm_assign hash policy" hm_entries "hm_inv hash" for n hash policy
proof unfold_locales
  show "hm_inv hash (hm_empty n) \<and> hm_entries (hm_empty n) = []"
    using hm_empty_ok by blast
  show "hm_inv hash (hm_assign hash policy k v m) \<and>
      map_of (hm_entries (hm_assign hash policy k v m)) = (map_of (hm_entries m))(k \<mapsto> v)" if "hm_inv hash m" for m k v
    using hm_put_inv [OF that] hm_put_map [OF that] hm_rehash_ok [OF hm_put_inv [OF that]]
    by (auto simp: hm_assign_def Let_def split: option.split)
  show "distinct (map fst (hm_entries m))" if "hm_inv hash m" for m
    by (rule hm_entries_distinct [OF that])
qed

section \<open>Properties\<close>

text \<open>
  The hash of an endpoint depends on its port and the bytes of its address only, for every
  \<^verbatim>\<open>hash_combine\<close>: an address is always of version 4 or 6, and the last two branches of \<^verbatim>\<open>combine\<close>
  are never taken.
\<close>

theorem endpoint_hasher_bytes:
  "endpoint_hasher H (a, p) = combine_bytes H (combine_port H 0 p) (to_bytes a)"
  by (cases a) (simp_all add: endpoint_hasher_def hasher_combine_def)

text \<open>
  A connection map is its association list: for every hash function, every initial number of
  buckets and every policy of rehashing, the \<^verbatim>\<open>unordered_map\<close> filled by any sequence of assignments
  \<^verbatim>\<open>m[k] = v\<close> has the same entries, each once, as the association list filled by the same
  assignments, and so the same size.
\<close>

theorem hash_map_is_association_list:
  "mset (hm_entries (fold (\<lambda>(k, v). hm_assign hash policy k v) kvs (hm_empty n))) =
     mset (fold (\<lambda>(k, v). AList.update k v) kvs [])"
proof -
  let ?xs = "fold (\<lambda>(k, v). AList.update k v) kvs []"
  have "distinct (map fst ?xs) \<and> map_of ?xs = fold (\<lambda>(k, v) f. f(k \<mapsto> v)) kvs Map.empty"
    using al.assign_all_spec [of kvs] by (simp add: al.assign_all_def)
  then show ?thesis
    using hm.mset_assign_all [where xs = ?xs and kvs = kvs and hash = hash and policy = policy and n = n]
    by (simp add: hm.assign_all_def)
qed

text \<open>
  Stopping the server does not depend on the order of its map: whatever table, filled over
  whatever hash function, holds the connections of a reachable server, the loop of \<^verbatim>\<open>handle_stop\<close> over
  it succeeds and leaves the same server.
\<close>

theorem stop_order_is_irrelevant:
  assumes "app_reachable a" "mset (hm_entries m) = mset (srv_connections (app_server a))"
  shows "srv_stop_all (hm_entries m) (app_server a) = srv_stop_all (srv_connections (app_server a)) (app_server a) \<and>
    (\<exists>s. srv_stop_all (hm_entries m) (app_server a) = Inr s)"
proof -
  let ?s = "app_server a"
  have ok: "srv_map_ok ?s" using app_reachable_inv [OF assms(1)] by (simp add: srv_inv_def)
  have same: "set (hm_entries m) = set (srv_connections ?s)" using assms(2) by (rule mset_eq_setD)
  have "distinct (map snd (hm_entries m))"
    using srv_map_ok_ids(1) [OF ok] assms(2) mset_eq_imp_distinct_iff [of "map snd (hm_entries m)" "map snd (srv_connections ?s)"]
    by simp
  with srv_map_ok_ids(2) [OF ok] same
  have "srv_stop_all (hm_entries m) ?s =
      Inr (?s\<lparr>srv_sessions := srv_stopped_sessions (snd ` set (srv_connections ?s)) (srv_sessions ?s)\<rparr>)"
    using srv_stop_all_spec [of "hm_entries m" ?s] by simp
  moreover have "srv_stop_all (srv_connections ?s) ?s =
      Inr (?s\<lparr>srv_sessions := srv_stopped_sessions (snd ` set (srv_connections ?s)) (srv_sessions ?s)\<rparr>)"
    using srv_stop_all_spec [of "srv_connections ?s" ?s] srv_map_ok_ids [OF ok] by simp
  ultimately show ?thesis by simp
qed

text \<open>Two connections, in a table of three buckets that lists them in the opposite order.\<close>

theorem stop_order_is_irrelevant_witness:
  "\<exists>a s. run app_enabled app_step app_start
      [App_run, App_accept_done None (Inr (''::1'', 7)), App_accept_done None (Inr (''::1'', 6))] = Some a \<and>
    srv_connections (app_server a) = [((''::1'', 7), 0), ((''::1'', 6), 1)] \<and>
    srv_stop_all (hm_entries [[((''::1'', 6), 1)], [((''::1'', 7), 0)], []]) (app_server a) = Inr s"
proof -
  let ?es = "[App_run, App_accept_done None (Inr (''::1'', 7)), App_accept_done None (Inr (''::1'', 6))]"
  obtain a where r: "run app_enabled app_step app_start ?es = Some a"
    and c: "srv_connections (app_server a) = [((''::1'', 7), 0), ((''::1'', 6), 1)]"
    by (simp add: app_defs srv_initiate_accept_def srv_handle_run_def srv_handle_accept_success settle_def initiate_def Let_def)
  have "mset (hm_entries [[((''::1'', 6), 1)], [((''::1'', 7), 0)], []]) = mset (srv_connections (app_server a))"
    by (simp add: c hm_entries_def)
  from stop_order_is_irrelevant [OF run_reachable [OF r] this] r c show ?thesis by blast
qed

end
