(* ===== verification/Console.thy ===== *)
theory Console
  imports Chatterbox
begin

text \<open>
  \<^verbatim>\<open>pre-cxx20/chatterbox/console.hpp\<close>: the composed operation that reads commands from
  the terminal line by line until it is told to quit, and \<^verbatim>\<open>app.hpp\<close> /
  \<^verbatim>\<open>app.cpp\<close>, which run it next to the connection pool.
\<close>

section \<open>Text\<close>

definition line_feed :: char where
  "line_feed = CHR 0x0A"

text \<open>White space as \<^verbatim>\<open>boost::trim\<close> sees it in the C locale.\<close>

definition is_space :: "char \<Rightarrow> bool" where
  "is_space c \<longleftrightarrow> (let n = of_char c :: nat in n = 32 \<or> (9 \<le> n \<and> n \<le> 13))"

definition trim :: "string \<Rightarrow> string" where
  "trim s = rev (dropWhile is_space (rev (dropWhile is_space s)))"

definition to_lower :: "char \<Rightarrow> char" where
  "to_lower c = (let n = of_char c :: nat in if 65 \<le> n \<and> n \<le> 90 then char_of (n + 32) else c)"

text \<open>A full match of the expression for quitting, ignoring case.\<close>

definition reg_quit :: "string \<Rightarrow> bool" where
  "reg_quit line \<longleftrightarrow> map to_lower line \<in> {''quit'', ''exit'', ''done''}"

text \<open>The bytes of \<open>s\<close> up to and including its first line feed.\<close>

definition line_length :: "string \<Rightarrow> nat" where
  "line_length s = Suc (length (takeWhile (\<lambda>c. c \<noteq> line_feed) s))"

section \<open>The operation\<close>

datatype con_point = Con_begin | Con_reading | Con_posted | Con_over

text \<open>
  \<open>con_run_op\<close> says whether the console has an operation; \<open>con_results\<close> is the history of the
  calls of its handler, \<open>con_lines\<close> the history of the lines taken from the terminal, and
  \<open>con_unrecognised\<close> counts the messages printed for them.
\<close>

record console =
  con_run_op :: bool
  con_point :: con_point
  con_rxstore :: string
  con_ec :: error_code
  con_results :: "error_code list"
  con_lines :: "string list"
  con_unrecognised :: nat
  con_cancels :: nat

definition con_construct :: console where
  "con_construct = \<lparr>con_run_op = False, con_point = Con_begin, con_rxstore = [], con_ec = None, con_results = [],
     con_lines = [], con_unrecognised = 0, con_cancels = 0\<rparr>"

text \<open>
  The constructor of the console duplicates the standard input and assigns it to the descriptor, which
  throws the error \<open>e\<close> when there is one, say because the standard input is closed.
\<close>

definition con_open :: "error_code \<Rightarrow> console result" where
  "con_open e = (case e of Some x \<Rightarrow> Inl (System_error x) | None \<Rightarrow> Inr con_construct)"

text \<open>From the label \<open>done\<close> on.\<close>

definition con_done :: "bool \<Rightarrow> console \<Rightarrow> console" where
  "con_done cont s =
     (if \<not> cont then s\<lparr>con_point := Con_posted\<rparr>
      else s\<lparr>con_point := Con_over, con_run_op := False, con_results := con_results s @ [con_ec s]\<rparr>)"

text \<open>The head of the loop.\<close>

definition con_loop :: "bool \<Rightarrow> console \<Rightarrow> console" where
  "con_loop cont s = (if con_ec s = None then s\<lparr>con_point := Con_reading\<rparr> else con_done cont s)"

definition con_resume :: "error_code \<Rightarrow> nat \<Rightarrow> bool \<Rightarrow> console \<Rightarrow> console" where
  "con_resume e bytes_transferred cont s =
     (let s1 = (if e \<noteq> None \<and> con_ec s = None then s\<lparr>con_ec := e\<rparr> else s) in
      case con_point s1 of
        Con_begin \<Rightarrow> con_loop cont s1
      | Con_reading \<Rightarrow>
          let line = take bytes_transferred (con_rxstore s1);
              s2 = s1\<lparr>con_rxstore := drop bytes_transferred (con_rxstore s1), con_lines := con_lines s1 @ [line]\<rparr>
          in if reg_quit (trim line) then con_done cont s2
             else con_loop cont (s2\<lparr>con_unrecognised := Suc (con_unrecognised s2)\<rparr>)
      | Con_posted \<Rightarrow> s1
      | Con_over \<Rightarrow> s1)"

definition con_async_run :: "console \<Rightarrow> console result" where
  "con_async_run s =
     and_then (check (\<not> con_run_op s) ''!this->run_op_'' s) (\<lambda>s.
       Inr (con_resume None 0 False
         (s\<lparr>con_run_op := True, con_point := Con_begin, con_rxstore := [], con_ec := None\<rparr>)))"

text \<open>
  \<open>cancel\<close> of the operation runs on the executor of its handler, which is the console's own thread;
  \<open>cancel\<close> of the console reaches the operation while there is one.
\<close>

definition run_op_cancel :: "console \<Rightarrow> console" where
  "run_op_cancel s = s\<lparr>con_ec := Some operation_aborted, con_cancels := Suc (con_cancels s)\<rparr>"

definition con_cancel :: "console \<Rightarrow> console" where
  "con_cancel s = (if con_run_op s then run_op_cancel s else s)"

lemmas con_defs [model_defs] =
  con_construct_def con_done_def con_loop_def con_resume_def con_async_run_def con_cancel_def run_op_cancel_def

text \<open>
  \<^verbatim>\<open>async_read_until\<close> completes without error when the store holds a line feed, and reports
  the bytes up to and including the first one; with an error it reports none.
\<close>

datatype con_event = Con_run | Con_cancel | Con_read_done error_code string

fun con_step :: "console \<Rightarrow> con_event \<Rightarrow> console result" where
  "con_step s Con_run = con_async_run s"
| "con_step s Con_cancel = Inr (con_cancel s)"
| "con_step s (Con_read_done e bytes) =
     (let s1 = s\<lparr>con_rxstore := con_rxstore s @ bytes\<rparr> in
      Inr (con_resume e (if e = None then line_length (con_rxstore s1) else 0) True s1))"

fun con_enabled :: "console \<Rightarrow> con_event \<Rightarrow> bool" where
  "con_enabled s Con_run = (\<not> con_run_op s \<and> con_point s = Con_begin)"
| "con_enabled s Con_cancel = True"
| "con_enabled s (Con_read_done e bytes) =
     (con_point s = Con_reading \<and> (e = None \<longrightarrow> line_feed \<in> set (con_rxstore s @ bytes)))"

abbreviation con_reachable :: "console \<Rightarrow> bool" where
  "con_reachable \<equiv> reachable con_enabled con_step con_construct"

section \<open>Lines\<close>

lemma takeWhile_split:
  "x \<in> set s \<Longrightarrow> take (Suc (length (takeWhile (\<lambda>c. c \<noteq> x) s))) s = takeWhile (\<lambda>c. c \<noteq> x) s @ [x]"
  by (induction s) auto

text \<open>A line as \<open>async_read_until\<close> delivers it: it ends in its only line feed.\<close>

definition is_line :: "string \<Rightarrow> bool" where
  "is_line l \<longleftrightarrow> (\<exists>w. l = w @ [line_feed] \<and> line_feed \<notin> set w)"

lemma line_length_is_line: "line_feed \<in> set s \<Longrightarrow> is_line (take (line_length s) s)"
  unfolding line_length_def is_line_def using takeWhile_split [of line_feed s]
  by (auto dest: set_takeWhileD intro!: exI [of _ "takeWhile (\<lambda>c. c \<noteq> line_feed) s"])

section \<open>Invariant\<close>

text \<open>
  While the operation runs it is suspended in a read and has seen no command to quit; it ends
  with one call of its handler.
\<close>

definition con_inv :: "console \<Rightarrow> bool" where
  "con_inv s \<longleftrightarrow>
     (case con_point s of
        Con_begin \<Rightarrow> \<not> con_run_op s \<and> con_results s = [] \<and> con_lines s = [] \<and> con_rxstore s = [] \<and>
          con_ec s = None \<and> con_unrecognised s = 0 \<and> con_cancels s = 0
      | Con_reading \<Rightarrow> con_run_op s \<and> con_results s = [] \<and>
          (\<forall>l \<in> set (con_lines s). is_line l \<and> \<not> reg_quit (trim l)) \<and> con_unrecognised s = length (con_lines s)
      | Con_posted \<Rightarrow> False
      | Con_over \<Rightarrow> \<not> con_run_op s \<and> con_results s = [con_ec s] \<and> con_lines s \<noteq> [] \<and>
          (\<forall>l \<in> set (butlast (con_lines s)). is_line l \<and> \<not> reg_quit (trim l)) \<and>
          (con_ec s = None \<longrightarrow> is_line (last (con_lines s)) \<and> reg_quit (trim (last (con_lines s)))) \<and>
          (con_ec s \<noteq> None \<longrightarrow> is_line (last (con_lines s)) \<or> last (con_lines s) = []))"

lemma reg_quit_Nil [simp]: "\<not> reg_quit (trim [])"
  by (simp add: reg_quit_def trim_def)

lemma con_read_inv:
  assumes "con_inv s" "con_enabled s (Con_read_done e bytes)" "con_step s (Con_read_done e bytes) = Inr t"
  shows "con_inv t"
proof -
  have pt: "con_point s = Con_reading" using assms(2) by simp
  let ?s = "s\<lparr>con_rxstore := con_rxstore s @ bytes\<rparr>"
  show ?thesis
  proof (cases e)
    case None
    let ?l = "take (line_length (con_rxstore ?s)) (con_rxstore ?s)"
    have "is_line ?l" using assms(2) None by (intro line_length_is_line) simp
    then show ?thesis
      using assms(1,3) pt None
      by (auto simp: con_inv_def con_resume_def con_loop_def con_done_def Let_def split: if_splits)
  next
    case (Some x)
    then show ?thesis
      using assms(1,3) pt
      by (auto simp: con_inv_def con_resume_def con_loop_def con_done_def Let_def split: if_splits)
  qed
qed

lemma con_inv_step:
  assumes "con_inv s" "con_enabled s e" "con_step s e = Inr t"
  shows "con_inv t"
proof (cases e)
  case Con_run
  then show ?thesis using assms
    by (auto simp: con_inv_def con_async_run_def con_resume_def con_loop_def Let_def)
next
  case Con_cancel
  then show ?thesis using assms by (cases "con_point s") (auto simp: con_inv_def con_cancel_def run_op_cancel_def)
next
  case (Con_read_done x bytes)
  then show ?thesis using assms con_read_inv by blast
qed

lemma con_reachable_inv: "con_reachable s \<Longrightarrow> con_inv s"
  by (induction rule: reachable_invariant)
    (simp add: con_inv_def con_construct_def, blast intro: con_inv_step)

text \<open>The bytes a run delivers to the console.\<close>

fun con_input :: "con_event list \<Rightarrow> string" where
  "con_input [] = []"
| "con_input (Con_read_done e bytes # es) = bytes @ con_input es"
| "con_input (_ # es) = con_input es"

lemma con_resume_bytes:
  assumes "con_point s = Con_reading"
  shows "concat (con_lines (con_resume e n cont s)) @ con_rxstore (con_resume e n cont s) = concat (con_lines s) @ con_rxstore s"
    and "con_point (con_resume e n cont s) \<noteq> Con_begin"
  using assms by (auto simp: con_resume_def con_loop_def con_done_def Let_def)

lemma con_input_step:
  assumes "con_enabled s e" "con_step s e = Inr t" "con_point s = Con_begin \<longrightarrow> con_rxstore s = []"
  shows "concat (con_lines t) @ con_rxstore t = concat (con_lines s) @ con_rxstore s @ con_input [e] \<and>
    (con_point t = Con_begin \<longrightarrow> con_rxstore t = [])"
proof (cases e)
  case (Con_read_done x bytes)
  then show ?thesis using assms by (auto simp: con_resume_bytes Let_def)
qed (use assms in \<open>auto simp: con_async_run_def con_cancel_def run_op_cancel_def con_resume_def con_loop_def split: if_splits\<close>)

lemma con_input_append: "con_input (es @ fs) = con_input es @ con_input fs"
  by (induction es rule: con_input.induct) auto

lemma con_input_run:
  "run con_enabled con_step s es = Some t \<Longrightarrow> con_point s = Con_begin \<longrightarrow> con_rxstore s = [] \<Longrightarrow>
     concat (con_lines t) @ con_rxstore t = concat (con_lines s) @ con_rxstore s @ con_input es"
proof (induction rule: run_induct)
  case (Cons s e es u)
  from con_input_step [OF Cons.hyps(1,2) Cons.prems] Cons.IH show ?case
    using con_input_append [of "[e]" es] by (simp flip: append_assoc)
qed simp

text \<open>
  The operation's error is set by a read that failed and by a cancellation, and by nothing else. A
  cancellation before the operation was started or after its end reaches nobody and does not count.
\<close>

fun read_failed :: "con_event \<Rightarrow> bool" where
  "read_failed (Con_read_done e bytes) = (e \<noteq> None)"
| "read_failed _ = False"

lemma con_ec_step:
  assumes "con_inv s" "con_enabled s e" "con_step s e = Inr t"
  shows "con_cancels s \<le> con_cancels t \<and>
    (con_ec t = None \<longleftrightarrow> con_ec s = None \<and> con_cancels t = con_cancels s \<and> \<not> read_failed e)"
proof (cases e)
  case Con_run
  with assms show ?thesis
    by (auto simp: con_inv_def con_async_run_def con_resume_def con_loop_def Let_def)
next
  case Con_cancel
  with assms(3) show ?thesis by (auto simp: con_cancel_def run_op_cancel_def split: if_splits)
next
  case (Con_read_done x bytes)
  with assms(2,3) show ?thesis
    by (auto simp: con_resume_def con_loop_def con_done_def Let_def split: if_splits)
qed

lemma con_ec_run:
  "run con_enabled con_step s es = Some t \<Longrightarrow> con_inv s \<Longrightarrow>
     con_cancels s \<le> con_cancels t \<and>
     (con_ec t = None \<longleftrightarrow> con_ec s = None \<and> con_cancels t = con_cancels s \<and> \<not> list_ex read_failed es)"
proof (induction rule: run_induct)
  case (Cons s e es u)
  from con_ec_step [OF Cons.prems Cons.hyps(1,2)] Cons.IH [OF con_inv_step [OF Cons.prems Cons.hyps(1,2)]]
  show ?case by auto
qed simp

section \<open>Properties\<close>

text \<open>
  C38. The console reads its input line by line: after any run, the lines it has taken followed
  by what is in its store are exactly the bytes it was given; every line taken but the last ends in
  its only line feed and is no command to quit; the operation is running exactly while it reads, and
  its handler is called exactly once, when it ends. The handler gets no error exactly when the last
  line is a command to quit, no read has failed, and the operation has not been cancelled while
  it ran; a command to quit that is read after a cancellation ends the operation with an error.
\<close>

theorem con_reads_lines:
  assumes "run con_enabled con_step con_construct es = Some s"
  shows "concat (con_lines s) @ con_rxstore s = con_input es \<and>
    (con_run_op s \<longleftrightarrow> con_point s = Con_reading) \<and>
    length (con_results s) = (if con_point s = Con_over then 1 else 0) \<and>
    (\<forall>l \<in> set (butlast (con_lines s)). is_line l \<and> \<not> reg_quit (trim l)) \<and>
    (con_results s = [None] \<longleftrightarrow>
       con_lines s \<noteq> [] \<and> reg_quit (trim (last (con_lines s))) \<and> con_cancels s = 0 \<and> \<not> list_ex read_failed es) \<and>
    (con_lines s \<noteq> [] \<and> reg_quit (trim (last (con_lines s))) \<longrightarrow> con_point s = Con_over)"
proof -
  have inv: "con_inv s" using run_reachable [OF assms] by (rule con_reachable_inv)
  have ec: "con_ec s = None \<longleftrightarrow> con_cancels s = 0 \<and> \<not> list_ex read_failed es"
    using con_ec_run [OF assms] by (simp add: con_inv_def con_construct_def)
  have quit: "con_point s = Con_over" if "con_lines s \<noteq> []" "reg_quit (trim (last (con_lines s)))"
    using inv that by (cases "con_point s") (auto simp: con_inv_def)
  have "concat (con_lines s) @ con_rxstore s = con_input es"
    using con_input_run [OF assms] by (simp add: con_construct_def)
  moreover have "\<forall>l \<in> set (butlast (con_lines s)). is_line l \<and> \<not> reg_quit (trim l)"
    using inv by (cases "con_point s") (auto simp: con_inv_def dest: in_set_butlastD)
  moreover have "con_run_op s \<longleftrightarrow> con_point s = Con_reading"
    "length (con_results s) = (if con_point s = Con_over then 1 else 0)"
    using inv by (cases "con_point s"; simp add: con_inv_def)+
  moreover have "con_results s = [None] \<longleftrightarrow>
      con_lines s \<noteq> [] \<and> reg_quit (trim (last (con_lines s))) \<and> con_ec s = None"
    using inv quit by (cases "con_point s") (auto simp: con_inv_def)
  ultimately show ?thesis using ec quit by blast
qed

text \<open>One console reads "hi" and " Quit"; another is cancelled and then reads "quit".\<close>

theorem con_reads_lines_witness:
  "(\<exists>s. run con_enabled con_step con_construct
      [Con_run, Con_read_done None (''hi'' @ [line_feed] @ '' Quit'' @ [line_feed]), Con_read_done None []] = Some s \<and>
     con_results s = [None] \<and> con_lines s = [''hi'' @ [line_feed], '' Quit'' @ [line_feed]]) \<and>
   (\<exists>s. run con_enabled con_step con_construct [Con_run, Con_cancel, Con_read_done None (''quit'' @ [line_feed])] = Some s \<and>
     con_results s \<noteq> [None] \<and> length (con_results s) = 1 \<and> con_lines s = [''quit'' @ [line_feed]])"
proof
  let ?es = "[Con_run, Con_read_done None (''hi'' @ [line_feed] @ '' Quit'' @ [line_feed]), Con_read_done None []]"
  have "map_option (\<lambda>s. (con_cancels s, con_lines s)) (run con_enabled con_step con_construct ?es) =
      Some (0, [''hi'' @ [line_feed], '' Quit'' @ [line_feed]])"
    by code_simp
  then obtain s where r: "run con_enabled con_step con_construct ?es = Some s"
    and s: "con_cancels s = 0" "con_lines s = [''hi'' @ [line_feed], '' Quit'' @ [line_feed]]"
    by (auto simp: map_option_eq_Some simp del: run.simps)
  moreover have "reg_quit (trim ('' Quit'' @ [line_feed]))" by code_simp
  ultimately show "\<exists>s. run con_enabled con_step con_construct ?es = Some s \<and>
     con_results s = [None] \<and> con_lines s = [''hi'' @ [line_feed], '' Quit'' @ [line_feed]]"
    using con_reads_lines [OF r] by (simp del: run.simps)
next
  let ?es = "[Con_run, Con_cancel, Con_read_done None (''quit'' @ [line_feed])]"
  have "map_option (\<lambda>s. (con_cancels s, con_lines s)) (run con_enabled con_step con_construct ?es) =
      Some (1, [''quit'' @ [line_feed]])"
    by code_simp
  then obtain s where r: "run con_enabled con_step con_construct ?es = Some s"
    and s: "con_cancels s = 1" "con_lines s = [''quit'' @ [line_feed]]"
    by (auto simp: map_option_eq_Some simp del: run.simps)
  moreover have "reg_quit (trim (''quit'' @ [line_feed]))" by code_simp
  ultimately show "\<exists>s. run con_enabled con_step con_construct ?es = Some s \<and>
     con_results s \<noteq> [None] \<and> length (con_results s) = 1 \<and> con_lines s = [''quit'' @ [line_feed]]"
    using con_reads_lines [OF r] by (simp del: run.simps)
qed

section \<open>The application\<close>

record chat_app =
  ca_pool :: connection_pool
  ca_console :: console
  ca_signal_waits :: nat

definition ca_construct :: chat_app where
  "ca_construct = \<lparr>ca_pool = cp_construct, ca_console = con_construct, ca_signal_waits = 0\<rparr>"

text \<open>The constructor: \<open>sig\<close> is the error of registering the signals, \<open>fd\<close> that of the console.\<close>

definition ca_open :: "error_code \<Rightarrow> error_code \<Rightarrow> chat_app result" where
  "ca_open sig fd =
     (case sig of
        Some x \<Rightarrow> Inl (System_error x)
      | None \<Rightarrow> and_then (con_open fd) (\<lambda>c. Inr \<lparr>ca_pool = cp_construct, ca_console = c, ca_signal_waits = 0\<rparr>))"

lemma ca_open_ok: "ca_open None None = Inr ca_construct"
  by (simp add: ca_open_def con_open_def ca_construct_def)

definition ca_initiate_console :: "chat_app \<Rightarrow> chat_app result" where
  "ca_initiate_console a = and_then (con_async_run (ca_console a)) (\<lambda>c. Inr (a\<lparr>ca_console := c\<rparr>))"

definition ca_handle_run :: "error + endpoint \<Rightarrow> chat_app \<Rightarrow> chat_app result" where
  "ca_handle_run sock a =
     and_then (cp_handle_run sock (ca_pool a)) (\<lambda>p.
       ca_initiate_console (a\<lparr>ca_signal_waits := Suc (ca_signal_waits a), ca_pool := p\<rparr>))"

definition ca_handle_signal :: "error_code \<Rightarrow> chat_app \<Rightarrow> chat_app" where
  "ca_handle_signal e a =
     (if e = None then a\<lparr>ca_pool := cp_handle_stop (ca_pool a), ca_console := con_cancel (ca_console a)\<rparr> else a)"

text \<open>\<^verbatim>\<open>signals_.cancel()\<close> makes the wait complete with an error, which does nothing.\<close>

definition ca_handle_console :: "error_code \<Rightarrow> chat_app \<Rightarrow> chat_app" where
  "ca_handle_console e a = (if e = None then a\<lparr>ca_pool := cp_handle_stop (ca_pool a)\<rparr> else a)"

text \<open>A completed read of the console, with the calls of \<open>handle_console\<close> it makes.\<close>

definition ca_console_read :: "error_code \<Rightarrow> string \<Rightarrow> chat_app \<Rightarrow> chat_app result" where
  "ca_console_read e bytes a =
     and_then (con_step (ca_console a) (Con_read_done e bytes)) (\<lambda>c.
       Inr (fold ca_handle_console (drop (length (con_results (ca_console a))) (con_results c)) (a\<lparr>ca_console := c\<rparr>)))"

lemmas ca_defs [model_defs] =
  ca_construct_def ca_initiate_console_def ca_handle_run_def ca_handle_signal_def ca_handle_console_def ca_console_read_def

datatype ca_event =
    Ca_run "error + endpoint"
  | Ca_signal error_code
  | Ca_read error_code string
  | Ca_session nat cc_event

fun ca_step :: "chat_app \<Rightarrow> ca_event \<Rightarrow> chat_app result" where
  "ca_step a (Ca_run sock) = ca_handle_run sock a"
| "ca_step a (Ca_signal e) = Inr (ca_handle_signal e (a\<lparr>ca_signal_waits := ca_signal_waits a - 1\<rparr>))"
| "ca_step a (Ca_read e bytes) = ca_console_read e bytes a"
| "ca_step a (Ca_session i e) = and_then (cp_on_session i e (ca_pool a)) (\<lambda>p. Inr (a\<lparr>ca_pool := p\<rparr>))"

fun ca_enabled :: "chat_app \<Rightarrow> ca_event \<Rightarrow> bool" where
  "ca_enabled a (Ca_run sock) = (con_enabled (ca_console a) Con_run \<and> cp_enabled (ca_pool a) (Cp_run sock))"
| "ca_enabled a (Ca_signal e) = (0 < ca_signal_waits a)"
| "ca_enabled a (Ca_read e bytes) = con_enabled (ca_console a) (Con_read_done e bytes)"
| "ca_enabled a (Ca_session i e) = cp_enabled (ca_pool a) (Cp_session i e)"

abbreviation ca_reachable :: "chat_app \<Rightarrow> bool" where
  "ca_reachable \<equiv> reachable ca_enabled ca_step ca_construct"

lemma cp_ec_stop [simp]: "cp_ec (cp_handle_stop p) = Some operation_aborted"
  using cp_stop_fold_frame by (simp add: cp_handle_stop_def)

text \<open>
  Both parts stay within their invariants; the console ends without error, or is cancelled, only
  together with a stop of the pool.
\<close>

definition ca_inv :: "chat_app \<Rightarrow> bool" where
  "ca_inv a \<longleftrightarrow> con_inv (ca_console a) \<and> cp_reachable (ca_pool a) \<and>
     (con_point (ca_console a) = Con_begin \<longrightarrow> ca_signal_waits a = 0) \<and>
     (con_results (ca_console a) = [None] \<or> 0 < con_cancels (ca_console a) \<longrightarrow> cp_ec (ca_pool a) \<noteq> None)"

lemma cp_session_ec: "cp_on_session i e p = Inr q \<Longrightarrow> cp_ec q = cp_ec p"
  by (auto simp: cp_on_session_def and_then_Inr)

lemma cp_stop_reachable: "cp_reachable p \<Longrightarrow> cp_reachable (cp_handle_stop p)"
  by (rule reachable_step [where e = Cp_stop]) simp_all

lemma ca_read_inv:
  assumes "ca_inv a" "ca_enabled a (Ca_read e bytes)" "ca_console_read e bytes a = Inr b"
  shows "ca_inv b"
proof -
  let ?c = "ca_console a"
  obtain c where c: "con_step ?c (Con_read_done e bytes) = Inr c"
    and b: "b = fold ca_handle_console (drop (length (con_results ?c)) (con_results c)) (a\<lparr>ca_console := c\<rparr>)"
    using assms(3) by (auto simp: ca_console_read_def and_then_Inr simp del: con_step.simps)
  have inv: "con_inv ?c" "con_inv c"
    using assms(1,2) con_inv_step [OF _ _ c] by (simp_all add: ca_inv_def)
  have pt: "con_point ?c = Con_reading" using assms(2) by simp
  then have r: "con_results ?c = []" using inv(1) by (simp add: con_inv_def)
  have cc: "con_cancels c = con_cancels ?c" and nb: "con_point c \<noteq> Con_begin"
    using c pt by (auto simp: con_resume_def con_loop_def con_done_def Let_def split: if_splits)
  have pool: "cp_reachable (ca_pool a)" "0 < con_cancels ?c \<Longrightarrow> cp_ec (ca_pool a) \<noteq> None"
    using assms(1) by (simp_all add: ca_inv_def)
  have "con_results c = [] \<or> con_results c = [con_ec c]"
    using inv(2) by (cases "con_point c") (auto simp: con_inv_def)
  then consider "con_results c = []" | "con_results c = [None]" | x where "con_results c = [Some x]"
    by (cases "con_ec c") auto
  then show ?thesis
  proof cases
    case 2
    then have "b = a\<lparr>ca_console := c, ca_pool := cp_handle_stop (ca_pool a)\<rparr>"
      by (simp add: b r ca_handle_console_def)
    with inv(2) nb cp_stop_reachable [OF pool(1)] show ?thesis by (simp add: ca_inv_def)
  next
    case 1
    then have "b = a\<lparr>ca_console := c\<rparr>" by (simp add: b r)
    with inv(2) nb pool cc 1 show ?thesis by (simp add: ca_inv_def)
  next
    case 3
    then have "b = a\<lparr>ca_console := c\<rparr>" by (simp add: b r ca_handle_console_def)
    with inv(2) nb pool cc 3 show ?thesis by (simp add: ca_inv_def)
  qed
qed

lemma ca_inv_step:
  assumes "ca_inv a" "ca_enabled a e" "ca_step a e = Inr b"
  shows "ca_inv b"
proof (cases e)
  case (Ca_run sock)
  then obtain p c where p: "cp_handle_run sock (ca_pool a) = Inr p" and c: "con_async_run (ca_console a) = Inr c"
    and b: "b = a\<lparr>ca_signal_waits := Suc (ca_signal_waits a), ca_pool := p, ca_console := c\<rparr>"
    using assms(3) by (auto simp: ca_handle_run_def ca_initiate_console_def and_then_Inr)
  have "cp_reachable p"
    by (rule reachable_step [of _ _ _ "ca_pool a" "Cp_run sock"])
      (use assms(1,2) p Ca_run in \<open>simp_all add: ca_inv_def\<close>)
  moreover have "con_inv c" using con_inv_step [of "ca_console a" Con_run c] assms(1,2) c Ca_run by (simp add: ca_inv_def)
  moreover have "con_point c = Con_reading" "con_results c = con_results (ca_console a)" "con_cancels c = con_cancels (ca_console a)"
    using c by (auto simp: con_async_run_def con_resume_def con_loop_def and_then_Inr)
  moreover have "con_cancels (ca_console a) = 0" "con_results (ca_console a) = []"
    using assms(1,2) Ca_run by (simp_all add: ca_inv_def con_inv_def)
  ultimately show ?thesis by (simp add: b ca_inv_def)
next
  case (Ca_signal x)
  have "con_inv (con_cancel (ca_console a))"
    using con_inv_step [of "ca_console a" Con_cancel] assms(1) by (simp add: ca_inv_def)
  moreover have "con_point (ca_console a) \<noteq> Con_begin" using assms(1,2) Ca_signal by (auto simp: ca_inv_def)
  moreover have "con_point (con_cancel (ca_console a)) = con_point (ca_console a)" by (simp add: con_cancel_def run_op_cancel_def)
  ultimately show ?thesis
    using assms(1,3) Ca_signal cp_stop_reachable by (auto simp: ca_inv_def ca_handle_signal_def)
next
  case (Ca_read x bytes)
  then show ?thesis using assms ca_read_inv by simp
next
  case (Ca_session i x)
  then obtain p where p: "cp_on_session i x (ca_pool a) = Inr p" "b = a\<lparr>ca_pool := p\<rparr>"
    using assms(3) by (auto simp: and_then_Inr)
  have "cp_reachable p"
    by (rule reachable_step [of _ _ _ "ca_pool a" "Cp_session i x"])
      (use assms(1,2) p Ca_session in \<open>simp_all add: ca_inv_def\<close>)
  with assms(1) cp_session_ec [OF p(1)] show ?thesis by (simp add: p(2) ca_inv_def)
qed

lemma ca_reachable_inv: "ca_reachable a \<Longrightarrow> ca_inv a"
proof (induction rule: reachable_invariant)
  case start
  show ?case by (simp add: ca_inv_def ca_construct_def con_inv_def con_construct_def reachable_start)
qed (blast intro: ca_inv_step)

text \<open>
  C39. Quitting stops everything: once the console has reported a command to quit, or a signal
  has cancelled it, the pool is stopped, and every connection with an operation outstanding has
  been told to stop.
\<close>

theorem ca_quit_stops_clients:
  assumes "ca_reachable a" "con_results (ca_console a) = [None] \<or> 0 < con_cancels (ca_console a)"
  shows "cp_ec (ca_pool a) \<noteq> None \<and>
    (\<forall>c \<in> set (cp_sessions (ca_pool a)). pending c \<noteq> [] \<longrightarrow> cc_ec c \<noteq> None)"
proof -
  have inv: "ca_inv a" using assms(1) by (rule ca_reachable_inv)
  then have "cp_inv (ca_pool a)" "cp_ec (ca_pool a) \<noteq> None"
    using assms(2) cp_reachable_inv by (simp_all add: ca_inv_def)
  then show ?thesis by (auto simp: cp_inv_def split: list.splits)
qed

theorem ca_quit_stops_clients_witness:
  "\<exists>a. run ca_enabled ca_step ca_construct
      [Ca_run (Inr (''127.0.0.1'', 5000)), Ca_read None (''quit'' @ [line_feed])] = Some a \<and>
     length (cp_sessions (ca_pool a)) = 1 \<and> cp_ec (ca_pool a) \<noteq> None"
proof -
  have "map_option (\<lambda>a. (con_results (ca_console a), length (cp_sessions (ca_pool a))))
      (run ca_enabled ca_step ca_construct
        [Ca_run (Inr (''127.0.0.1'', 5000)), Ca_read None (''quit'' @ [line_feed])]) = Some ([None], 1)"
    by code_simp
  then obtain a where r: "run ca_enabled ca_step ca_construct
      [Ca_run (Inr (''127.0.0.1'', 5000)), Ca_read None (''quit'' @ [line_feed])] = Some a"
    and q: "con_results (ca_console a) = [None]" "length (cp_sessions (ca_pool a)) = 1"
    by (auto simp: map_option_eq_Some simp del: run.simps)
  from ca_quit_stops_clients [OF run_reachable [OF r]] q r show ?thesis by blast
qed

end
