(* ===== verification/Programs.thy ===== *)
theory Programs
  imports Cxx20_Server Console Fmex_Client
begin

text \<open>
  The five networked programs as the operating system sees them: \<^verbatim>\<open>echo_server/main.cpp\<close>,
  \<^verbatim>\<open>chatterbox/main.cpp\<close>, \<^verbatim>\<open>cxx20/main.cpp\<close>, \<^verbatim>\<open>blog-2020-09/main.cpp\<close> and
  \<^verbatim>\<open>fmex_client/main.cpp\<close>. Each constructs its application, starts it and runs the
  \<^verbatim>\<open>io_context\<close>; what differs is where exceptions are caught and the status returned. The
  events the context delivers are a list; the theorems say how the program ends for every list the
  application allows.
\<close>

section \<open>Running an application\<close>

text \<open>
  \<^verbatim>\<open>io_context::run\<close>: one handler after the other, until none is left or one does not return
  normally.
\<close>

fun io_run :: "('s \<Rightarrow> 'e \<Rightarrow> 's result) \<Rightarrow> 's \<Rightarrow> 'e list \<Rightarrow> 's result" where
  "io_run step s [] = Inr s"
| "io_run step s (e # es) = and_then (step s e) (\<lambda>t. io_run step t es)"

text \<open>The events a run may consist of: each can happen where it stands, and none follows a fault.\<close>

fun schedule :: "('s \<Rightarrow> 'e \<Rightarrow> bool) \<Rightarrow> ('s \<Rightarrow> 'e \<Rightarrow> 's result) \<Rightarrow> 's \<Rightarrow> 'e list \<Rightarrow> bool" where
  "schedule enabled step s [] = True"
| "schedule enabled step s (e # es) =
     (enabled s e \<and> (case step s e of Inl _ \<Rightarrow> es = [] | Inr t \<Rightarrow> schedule enabled step t es))"

lemma io_run_Inl:
  "schedule enabled step s es \<Longrightarrow>
     io_run step s es = Inl x \<longleftrightarrow>
       (\<exists>ds e t. es = ds @ [e] \<and> run enabled step s ds = Some t \<and> enabled t e \<and> step t e = Inl x)"
proof (induction es arbitrary: s)
  case (Cons e es)
  show ?case
  proof (cases "step s e")
    case (Inl y)
    with Cons.prems show ?thesis by (auto simp: Cons_eq_append_conv)
  next
    case (Inr u)
    with Cons.prems have en: "enabled s e" and es: "schedule enabled step u es" by simp_all
    with Cons.IH [OF es] Inr show ?thesis by (auto simp: Cons_eq_append_conv)
  qed
qed simp

lemma schedule_step:
  "schedule enabled step s (ds @ [e]) \<Longrightarrow> run enabled step s ds = Some t \<Longrightarrow> enabled t e"
  by (induction ds arbitrary: s) (auto split: sum.splits if_splits)

lemma run_schedule: "run enabled step s ds = Some t \<Longrightarrow> enabled t e \<Longrightarrow> schedule enabled step s (ds @ [e])"
  by (induction ds arbitrary: s) (auto split: sum.splits if_splits)

text \<open>
  The same over an invariant: the run faults exactly at an event that faults from a reachable state,
  when \<open>faulty\<close> describes those events and their faults.
\<close>

lemma io_run_faulty:
  assumes sched: "schedule enabled step s0 es"
    and faulty: "\<And>t e x. reachable enabled step s0 t \<Longrightarrow> enabled t e \<Longrightarrow> step t e = Inl x \<longleftrightarrow> faulty t e x"
  shows "io_run step s0 es = Inl x \<longleftrightarrow> (\<exists>ds e t. es = ds @ [e] \<and> run enabled step s0 ds = Some t \<and> faulty t e x)"
proof -
  have "step t e = Inl x \<and> enabled t e \<longleftrightarrow> faulty t e x"
    if "es = ds @ [e]" "run enabled step s0 ds = Some t" for ds e t
    using faulty [OF run_reachable [OF that(2)]] schedule_step [of enabled step s0 ds e t] sched that by blast
  then show ?thesis unfolding io_run_Inl [OF sched] by blast
qed

section \<open>How a program ends\<close>

text \<open>
  The exit status, or the fault that ends the process without one: an exception nothing catches
  (\<^verbatim>\<open>std::terminate\<close>), a failed assertion (\<^verbatim>\<open>std::abort\<close>) or undefined behaviour. The second part
  is the exception whose \<^verbatim>\<open>what()\<close> \<open>main\<close> prints.
\<close>

datatype exit_status = Exits nat | Dies fault

record program_end =
  pe_status :: exit_status
  pe_printed :: "fault option"

definition returns :: "nat \<Rightarrow> program_end" where
  "returns n = \<lparr>pe_status = Exits n, pe_printed = None\<rparr>"

definition uncaught :: "fault \<Rightarrow> program_end" where
  "uncaught x = \<lparr>pe_status = (case x of Exit_called n \<Rightarrow> Exits n | _ \<Rightarrow> Dies x), pe_printed = None\<rparr>"

definition caught :: "nat \<Rightarrow> fault \<Rightarrow> program_end" where
  "caught n x = (if catchable x then \<lparr>pe_status = Exits n, pe_printed = Some x\<rparr> else uncaught x)"

lemmas program_end_defs = returns_def uncaught_def caught_def

section \<open>The programs\<close>

text \<open>
  The servers construct the application outside the \<^verbatim>\<open>try\<close>. \<open>e\<close> is the first error of opening,
  binding and listening.
\<close>

definition echo_main :: "error_code \<Rightarrow> app_event list \<Rightarrow> program_end" where
  "echo_main e es =
     (case app_construct e of
        Inl x \<Rightarrow> uncaught x
      | Inr the_app \<Rightarrow>
          (case io_run app_step the_app es of Inl x \<Rightarrow> caught 0 x | Inr _ \<Rightarrow> returns 0))"

definition cx_main :: "error_code \<Rightarrow> cxa_event list \<Rightarrow> program_end" where
  "cx_main e es =
     (case cxa_construct e of
        Inl x \<Rightarrow> uncaught x
      | Inr the_app \<Rightarrow>
          (case io_run cxa_step the_app es of Inl x \<Rightarrow> caught 0 x | Inr _ \<Rightarrow> returns 0))"

text \<open>
  So does the chatterbox, whose constructor registers signals (\<open>sig\<close> is the error of that) and opens
  the console (\<open>fd\<close>).
\<close>

definition chat_main :: "error_code \<Rightarrow> error_code \<Rightarrow> ca_event list \<Rightarrow> program_end" where
  "chat_main sig fd es =
     (case ca_open sig fd of
        Inl x \<Rightarrow> uncaught x
      | Inr the_app \<Rightarrow>
          (case io_run ca_step the_app es of Inl x \<Rightarrow> caught 0 x | Inr _ \<Rightarrow> returns 0))"

text \<open>The client of the blog constructs it inside, and exits with 100 when it catches something.\<close>

definition blog_main :: "json_parse \<Rightarrow> json_serialize \<Rightarrow> ba_event list \<Rightarrow> program_end" where
  "blog_main parse serialize es =
     (case io_run (ba_step parse serialize) ba_construct es of Inl x \<Rightarrow> caught 100 x | Inr _ \<Rightarrow> returns 0)"

text \<open>The exchange client, driven by its signal set and its connections, catches nothing.\<close>

datatype fx_event = Fx_start | Fx_signal error_code nat | Fx_connection nat xc_event

fun fx_step :: "xc_env \<Rightarrow> fmex_app \<Rightarrow> fx_event \<Rightarrow> fmex_app result" where
  "fx_step v a Fx_start = fx_start a"
| "fx_step v a (Fx_signal e sig) = fx_on_signal v e sig (a\<lparr>fx_signal_waits := fx_signal_waits a - 1\<rparr>)"
| "fx_step v a (Fx_connection i e) =
     and_then (xc_step v (fx_connections a ! i) e) (\<lambda>c. Inr (a\<lparr>fx_connections := (fx_connections a)[i := c]\<rparr>))"

fun fx_enabled :: "fmex_app \<Rightarrow> fx_event \<Rightarrow> bool" where
  "fx_enabled a Fx_start = (fx_connections a = [])"
| "fx_enabled a (Fx_signal e sig) = (0 < fx_signal_waits a)"
| "fx_enabled a (Fx_connection i e) =
     (i < length (fx_connections a) \<and> e \<noteq> Xc_start \<and> e \<noteq> Xc_stop \<and> xc_enabled (fx_connections a ! i) e)"

definition fmex_main :: "xc_env \<Rightarrow> fx_event list \<Rightarrow> program_end" where
  "fmex_main v es = (case io_run (fx_step v) fx_construct es of Inl x \<Rightarrow> uncaught x | Inr _ \<Rightarrow> returns 0)"

section \<open>When a handler faults\<close>

text \<open>
  The end of a program whose run faults in one of two ways: with \<open>A\<close>, which \<^verbatim>\<open>main\<close> catches, or
  with \<open>B\<close>, which nothing does.
\<close>

lemma caught_end:
  assumes "\<And>x. r = Inl x \<longleftrightarrow> A x \<or> B x" "\<And>x. A x \<Longrightarrow> catchable x"
    "\<And>x. B x \<Longrightarrow> \<not> catchable x \<and> (\<forall>n. x \<noteq> Exit_called n)"
    and p: "p = (case r of Inl x \<Rightarrow> caught n x | Inr _ \<Rightarrow> returns 0)"
  shows "pe_printed p = Some x \<longleftrightarrow> A x" "pe_status p = Dies x \<longleftrightarrow> B x"
    "pe_printed p = None \<Longrightarrow> pe_status p = Exits 0 \<or> (\<exists>x. pe_status p = Dies x)"
proof -
  have "(pe_printed p = Some x \<longleftrightarrow> A x) \<and> (pe_status p = Dies x \<longleftrightarrow> B x) \<and>
      (pe_printed p = None \<longrightarrow> pe_status p = Exits 0 \<or> (\<exists>x. pe_status p = Dies x))" for x
  proof (cases r)
    case (Inr s)
    then have "\<not> A x" "\<not> B x" using assms(1) [of x] by simp_all
    with Inr show ?thesis by (simp add: p returns_def)
  next
    case (Inl y)
    then have y: "A y \<or> B y" "A x \<or> B x \<longleftrightarrow> y = x" using assms(1) [of y] assms(1) [of x] by simp_all
    show ?thesis
    proof (cases "A y")
      case True
      then have "catchable y" "\<not> B y" using assms(2,3) by blast+
      with True y Inl show ?thesis by (auto simp: p caught_def)
    next
      case False
      then have "\<not> catchable y" "\<forall>n. y \<noteq> Exit_called n" using assms(3) y(1) by blast+
      then have "p = \<lparr>pe_status = Dies y, pe_printed = None\<rparr>"
        using Inl by (cases y) (simp_all add: p caught_def uncaught_def)
      with False y show ?thesis by auto
    qed
  qed
  then show "pe_printed p = Some x \<longleftrightarrow> A x" "pe_status p = Dies x \<longleftrightarrow> B x"
    "pe_printed p = None \<Longrightarrow> pe_status p = Exits 0 \<or> (\<exists>x. pe_status p = Dies x)" by blast+
qed

lemma app_fault:
  assumes "app_reachable a" "app_enabled a e"
  shows "app_step a e = Inl x \<longleftrightarrow>
    (\<exists>y. e = App_accept_done None (Inl y) \<and> srv_ec (app_server a) = None \<and> x = System_error y) \<or>
    (\<exists>i bytes. e = App_session i (Echo_read_done None bytes) \<and>
       echo_ec (snd (srv_sessions (app_server a) ! i)) \<noteq> None \<and> x = Assertion ''state_ == chatting'')"
proof (cases e)
  case (App_signal y)
  have "srv_map_ok (app_server a)" using app_reachable_inv [OF assms(1)] by (simp add: srv_inv_def)
  with App_signal show ?thesis by (simp add: app_handle_signal_def srv_handle_stop_spec)
next
  case (App_accept_done y sock)
  let ?s = "settle Async_accept (app_server a)"
  have "srv_handle_accept y sock ?s = Inl x \<longleftrightarrow>
      srv_ec ?s = None \<and> y = None \<and> (\<exists>z. sock = Inl z \<and> x = System_error z)"
  proof (cases "\<exists>x. srv_handle_accept y sock ?s = Inl x")
    case True
    then obtain z where "srv_ec ?s = None" "y = None" "sock = Inl z" unfolding srv_handle_accept_fault by blast
    then show ?thesis by (auto simp: srv_handle_accept_def)
  next
    case False
    then show ?thesis using srv_handle_accept_fault [of y sock ?s] by blast
  qed
  with App_accept_done show ?thesis by (auto simp: and_then_Inl)
next
  case (App_session i y)
  let ?c = "snd (srv_sessions (app_server a) ! i)"
  have i: "i < length (srv_sessions (app_server a))" "echo_enabled ?c y" using App_session assms(2) by simp_all
  note r = srv_session_reachable [OF assms(1) i(1)]
  have "app_step a e = Inl x \<longleftrightarrow> echo_step ?c y = Inl x"
    using App_session i(1) by (cases "srv_sessions (app_server a) ! i") (auto simp: srv_on_session_def and_then_Inl)
  also have "\<dots> \<longleftrightarrow> (\<exists>bytes. y = Echo_read_done None bytes \<and> echo_ec ?c \<noteq> None) \<and> x = Assertion ''state_ == chatting''"
    using echo_fault_iff [OF r i(2)] echo_handle_rx_fault(2) [OF echo_reachable_inv [OF r]] i(2)
    by (metis echo_enabled.simps(5))
  finally show ?thesis using App_session by auto
qed simp

lemma cc_fault:
  assumes "cc_inv c" "cc_enabled c e"
  shows "cc_step c e = Inl x \<longleftrightarrow>
    (\<exists>at bytes. e = Cc_read_done None at bytes \<and>
       (case at of Some y \<Rightarrow> x = System_error y | None \<Rightarrow> cc_ec c \<noteq> None \<and> x = Assertion ''!ec_''))"
proof (cases "\<exists>at bytes. e = Cc_read_done None at bytes \<and> (at \<noteq> None \<or> cc_ec c \<noteq> None)")
  case True
  then obtain at bytes where e: "e = Cc_read_done None at bytes" "at \<noteq> None \<or> cc_ec c \<noteq> None" by blast
  with assms(2) have "Read_op \<in> set (pending c)" by simp
  from cc_handle_rx_ok [OF assms(1) this, of None at bytes] e show ?thesis
    by (cases at) (auto simp del: cc_step.simps)
next
  case False
  with cc_step_ok [OF assms] obtain d where "cc_step c e = Inr d" by (auto simp only: if_False)
  with False show ?thesis by (auto split: option.splits)
qed

lemma ca_fault:
  assumes "ca_reachable a" "ca_enabled a e"
  shows "ca_step a e = Inl x \<longleftrightarrow>
    (\<exists>y. (e = Ca_run (Inl y) \<or> (\<exists>i bytes. e = Ca_session i (Cc_read_done None (Some y) bytes))) \<and> x = System_error y) \<or>
    (\<exists>i bytes. e = Ca_session i (Cc_read_done None None bytes) \<and>
       cc_ec (cp_sessions (ca_pool a) ! i) \<noteq> None \<and> x = Assertion ''!ec_'')"
proof (cases e)
  case (Ca_run sock)
  with assms(2) show ?thesis
    by (cases sock)
      (auto simp: ca_handle_run_def ca_initiate_console_def cp_handle_run_def cp_another_connection_def cc_construct_def
        con_async_run_def and_then_Inl)
next
  case (Ca_session i y)
  let ?c = "cp_sessions (ca_pool a) ! i"
  have en: "i < length (cp_sessions (ca_pool a))" "cc_enabled ?c y" using Ca_session assms(2) by simp_all
  have "cp_inv (ca_pool a)" using ca_reachable_inv [OF assms(1)] cp_reachable_inv by (simp add: ca_inv_def)
  with en(1) have inv: "cc_inv ?c" using cc_reachable_inv by (auto simp: cp_inv_def split: list.splits)
  have "ca_step a e = Inl x \<longleftrightarrow> cc_step ?c y = Inl x"
    using Ca_session by (auto simp: cp_on_session_def and_then_Inl)
  also note cc_fault [OF inv en(2)]
  finally show ?thesis using Ca_session by (auto split: option.splits)
qed (auto simp: ca_console_read_def and_then_Inl Let_def)

lemma ba_fault:
  assumes "ba_reachable parse serialize a" "ba_enabled a e"
  shows "ba_step parse serialize a e = Inl x \<longleftrightarrow>
    (\<exists>y sig. e = Ba_sigint (Sig_signal (Some y) sig) \<and> y \<noteq> operation_aborted \<and> x = Exit_called 100)"
proof (cases e)
  case Ba_start
  then show ?thesis
    using ba_start_ok [OF ba_reachable_inv [OF assms(1)], of parse serialize] assms(2) by auto
next
  case (Ba_sigint y)
  have "event_sigint u \<noteq> Inl x" for u
    by (cases "sig_state u") (simp_all add: event_sigint_def emit_signals_eq)
  with Ba_sigint assms(2) show ?thesis
    by (cases y) (auto simp: ba_on_sigint_def and_then_Inl handle_signal_def SIGINT_def)
next
  case (Ba_fmex y)
  with assms(2) have "fm_enabled (ba_fmex a) y" by (cases y) simp_all
  with fm_step_ok [of "ba_fmex a" y parse serialize] ba_reachable_inv [OF assms(1)] Ba_fmex show ?thesis
    by (auto simp: ba_inv_def ba_on_fmex_def and_then_Inl simp del: fm_step.simps)
qed

text \<open>
  The connections of the exchange client stay within their invariant; before the start there is none
  and no wait for a signal, and there is never more than one.
\<close>

definition fx_inv :: "fmex_app \<Rightarrow> bool" where
  "fx_inv a \<longleftrightarrow> list_all xc_inv (fx_connections a) \<and> fx_signal_waits a \<le> 1 \<and>
     (fx_connections a = [] \<longrightarrow> fx_signal_waits a = 0)"

abbreviation fx_reachable :: "xc_env \<Rightarrow> fmex_app \<Rightarrow> bool" where
  "fx_reachable v \<equiv> reachable fx_enabled (fx_step v) fx_construct"

lemma xc_start_ok: "\<exists>c. xc_start xc_construct = Inr c \<and> xc_inv c"
proof -
  have "xc_enabled xc_construct Xc_start" by (simp add: xc_construct_def)
  from xc_step_ok [OF xc_inv_construct this, of undefined] show ?thesis by simp
qed

lemma fx_step_ok:
  assumes "fx_inv a" "fx_enabled a e"
  shows "if \<exists>y sig. e = Fx_signal (Some y) sig \<and> y \<noteq> operation_aborted then fx_step v a e = Inl (Exit_called 100)
    else \<exists>b. fx_step v a e = Inr b \<and> fx_inv b"
proof (cases e)
  case Fx_start
  with assms xc_start_ok show ?thesis by (auto simp: fx_start_def fx_start_connections_def fx_inv_def)
next
  case (Fx_signal y sig)
  have "list_all xc_inv (map (xc_stop v) (fx_connections a))"
    using assms(1) xc_stop_inv by (auto simp: fx_inv_def list_all_iff)
  with Fx_signal assms show ?thesis
    by (auto simp: fx_on_signal_def fx_stop_connections_def fx_inv_def)
next
  case (Fx_connection i y)
  with assms have i: "i < length (fx_connections a)" "xc_enabled (fx_connections a ! i) y" by simp_all
  with assms(1) have "xc_inv (fx_connections a ! i)" by (simp add: fx_inv_def list_all_length)
  from xc_step_ok [OF this i(2), of v] obtain c where c: "xc_step v (fx_connections a ! i) y = Inr c" "xc_inv c" by blast
  have "list_all xc_inv ((fx_connections a)[i := c])"
    using assms(1) c(2) by (auto simp: fx_inv_def list_all_iff dest!: set_update_subset_insert [THEN subsetD])
  with c(1) Fx_connection assms(1) show ?thesis by (auto simp: fx_inv_def simp del: xc_step.simps)
qed

lemma fx_reachable_inv: "fx_reachable v a \<Longrightarrow> fx_inv a"
proof (induction rule: reachable_invariant)
  case start
  show ?case by (simp add: fx_inv_def fx_construct_def)
next
  case (step s e t)
  with fx_step_ok [of s e v] show ?case by (auto split: if_splits)
qed

lemma fx_fault:
  assumes "fx_reachable v a" "fx_enabled a e"
  shows "fx_step v a e = Inl x \<longleftrightarrow>
    (\<exists>y sig. e = Fx_signal (Some y) sig \<and> y \<noteq> operation_aborted \<and> x = Exit_called 100)"
  using fx_step_ok [OF fx_reachable_inv [OF assms(1)] assms(2), of v] by (auto split: if_splits)


lemma schedule_snoc:
  "schedule enabled step s (ds @ [e]) \<Longrightarrow> \<exists>t. run enabled step s ds = Some t \<and> enabled t e"
  by (induction ds arbitrary: s) (auto split: sum.splits if_splits)

text \<open>A run whose only faults are events described by \<open>F\<close>, all of them ending in \<open>y\<close>.\<close>

lemma exit_outcome:
  assumes sched: "schedule enabled step s0 es"
    and faults: "\<And>t e x. reachable enabled step s0 t \<Longrightarrow> enabled t e \<Longrightarrow> step t e = Inl x \<longleftrightarrow> F e \<and> x = y"
  shows "if \<exists>ds e. es = ds @ [e] \<and> F e then io_run step s0 es = Inl y else \<exists>t. io_run step s0 es = Inr t"
proof -
  have "\<exists>t. run enabled step s0 ds = Some t" if "es = ds @ [e]" for ds e
    using schedule_snoc [of enabled step s0 ds e] sched that by blast
  then have "io_run step s0 es = Inl x \<longleftrightarrow> (\<exists>ds e. es = ds @ [e] \<and> F e) \<and> x = y" for x
    using io_run_faulty [where faulty = "\<lambda>t e x. F e \<and> x = y" and x = x, OF sched faults] by auto
  then show ?thesis by (cases "io_run step s0 es") auto
qed

text \<open>
  A run whose faults are of two kinds: \<open>A\<close>, which \<^verbatim>\<open>main\<close> catches, and \<open>B\<close>, which it does not.
\<close>

lemma guarded_outcome:
  assumes sched: "schedule enabled step s0 es"
    and faults: "\<And>t e x. reachable enabled step s0 t \<Longrightarrow> enabled t e \<Longrightarrow> step t e = Inl x \<longleftrightarrow> A t e x \<or> B t e x"
    and kinds: "\<And>t e x. A t e x \<Longrightarrow> catchable x" "\<And>t e x. B t e x \<Longrightarrow> \<not> catchable x \<and> (\<forall>n. x \<noteq> Exit_called n)"
    and p: "p = (case io_run step s0 es of Inl x \<Rightarrow> caught n x | Inr _ \<Rightarrow> returns 0)"
  shows "pe_printed p = Some x \<longleftrightarrow> (\<exists>ds e t. es = ds @ [e] \<and> run enabled step s0 ds = Some t \<and> A t e x)"
    "pe_status p = Dies x \<longleftrightarrow> (\<exists>ds e t. es = ds @ [e] \<and> run enabled step s0 ds = Some t \<and> B t e x)"
    "pe_status p \<in> {Exits 0, Exits n} \<or> (\<exists>x. pe_status p = Dies x)"
proof -
  let ?at = "\<lambda>F x. \<exists>ds e t. es = ds @ [e] \<and> run enabled step s0 ds = Some t \<and> F t e x"
  have r: "io_run step s0 es = Inl x \<longleftrightarrow> ?at A x \<or> ?at B x" for x
    using io_run_faulty [where faulty = "\<lambda>t e x. A t e x \<or> B t e x" and x = x, OF sched faults] by auto
  have k: "\<And>x. ?at A x \<Longrightarrow> catchable x" "\<And>x. ?at B x \<Longrightarrow> \<not> catchable x \<and> (\<forall>n. x \<noteq> Exit_called n)"
    using kinds by blast+
  note e = caught_end [where A = "?at A" and B = "?at B", OF r k p]
  show "pe_printed p = Some x \<longleftrightarrow> ?at A x" by (rule e(1))
  show "pe_status p = Dies x \<longleftrightarrow> ?at B x" by (rule e(2))
  show "pe_status p \<in> {Exits 0, Exits n} \<or> (\<exists>x. pe_status p = Dies x)"
  proof (cases "io_run step s0 es")
    case (Inl y)
    then have "?at A y \<or> ?at B y" by (simp only: r [symmetric])
    then have "catchable y \<or> (\<forall>n. y \<noteq> Exit_called n)" using k by metis
    then show ?thesis using Inl by (cases y) (simp_all add: p caught_def uncaught_def)
  qed (simp add: p returns_def)
qed

fun is_fx_signal :: "fx_event \<Rightarrow> bool" where
  "is_fx_signal (Fx_signal y sig) = True"
| "is_fx_signal _ = False"

lemma fx_signals_bounded:
  "run fx_enabled (fx_step v) a es = Some b \<Longrightarrow>
     (fx_connections a = [] \<longrightarrow> fx_signal_waits a = 0) \<Longrightarrow>
     length (filter is_fx_signal es) + fx_signal_waits b \<le> (if fx_connections a = [] then 1 else fx_signal_waits a)"
proof (induction rule: run_induct)
  case (Cons a e es u)
  let ?left = "\<lambda>a. if fx_connections a = [] then 1 else fx_signal_waits a"
  from Cons.hyps(1,2) Cons.prems
  have u: "fx_connections u = [] \<longrightarrow> fx_signal_waits u = 0" "length (filter is_fx_signal [e]) + ?left u \<le> ?left a"
    by (cases e; auto simp: fx_start_def fx_start_connections_def fx_on_signal_def fx_stop_connections_def and_then_Inr
        split: if_splits)+
  have "length (filter is_fx_signal (e # es)) = length (filter is_fx_signal [e]) + length (filter is_fx_signal es)" by simp
  with Cons.IH [OF u(1)] u(2) show ?case by linarith
qed simp

section \<open>Properties\<close>

text \<open>
  C14. How the echo server ends. It prints an exception exactly when a connection is accepted whose
  peer is gone before its address is asked for, and it dies exactly of the assertion of a session
  whose read completes successfully after the session was stopped; otherwise, and after the
  exception it prints, its status is 0. When the port cannot be opened, the exception of the
  constructor is not caught at all.
\<close>

theorem echo_main_outcome:
  assumes "schedule app_enabled app_step app_start es"
  shows "(pe_printed (echo_main None es) = Some x \<longleftrightarrow>
      (\<exists>ds e t. es = ds @ [e] \<and> run app_enabled app_step app_start ds = Some t \<and>
         (\<exists>y. e = App_accept_done None (Inl y) \<and> srv_ec (app_server t) = None \<and> x = System_error y))) \<and>
    (pe_status (echo_main None es) = Dies x \<longleftrightarrow>
      (\<exists>ds e t. es = ds @ [e] \<and> run app_enabled app_step app_start ds = Some t \<and>
         (\<exists>i bytes. e = App_session i (Echo_read_done None bytes) \<and>
            echo_ec (snd (srv_sessions (app_server t) ! i)) \<noteq> None \<and> x = Assertion ''state_ == chatting''))) \<and>
    (pe_status (echo_main None es) = Exits 0 \<or> (\<exists>x. pe_status (echo_main None es) = Dies x)) \<and>
    echo_main (Some y) es = \<lparr>pe_status = Dies (System_error y), pe_printed = None\<rparr>"
proof -
  let ?A = "\<lambda>t e x. \<exists>y. e = App_accept_done None (Inl y) \<and> srv_ec (app_server t) = None \<and> x = System_error y"
  let ?B = "\<lambda>t e x. \<exists>i bytes. e = App_session i (Echo_read_done None bytes) \<and>
    echo_ec (snd (srv_sessions (app_server t) ! i)) \<noteq> None \<and> x = Assertion ''state_ == chatting''"
  have "app_construct None = Inr app_start" using app_construct_ok by blast
  then have main: "echo_main None es = (case io_run app_step app_start es of Inl x \<Rightarrow> caught 0 x | Inr _ \<Rightarrow> returns 0)"
    by (simp add: echo_main_def)
  note e = guarded_outcome [where A = ?A and B = ?B, OF assms app_fault _ _ main]
  have ports: "echo_main (Some y) es = \<lparr>pe_status = Dies (System_error y), pe_printed = None\<rparr>"
    by (simp add: echo_main_def app_construct_def srv_construct_def uncaught_def)
  have "pe_status (echo_main None es) \<in> {Exits 0, Exits 0} \<or> (\<exists>x. pe_status (echo_main None es) = Dies x)"
    by (rule e(3)) auto
  moreover have "pe_printed (echo_main None es) = Some x \<longleftrightarrow>
      (\<exists>ds e t. es = ds @ [e] \<and> run app_enabled app_step app_start ds = Some t \<and> ?A t e x)"
    by (rule e(1)) auto
  moreover have "pe_status (echo_main None es) = Dies x \<longleftrightarrow>
      (\<exists>ds e t. es = ds @ [e] \<and> run app_enabled app_step app_start ds = Some t \<and> ?B t e x)"
    by (rule e(2)) auto
  ultimately show ?thesis using ports by simp
qed


theorem echo_main_outcome_witness:
  "\<exists>t. schedule app_enabled app_step app_start [App_run, App_accept_done None (Inl connection_aborted)] \<and>
     pe_printed (echo_main None [App_run, App_accept_done None (Inl connection_aborted)]) =
       Some (System_error connection_aborted)"
proof -
  let ?es = "[App_run, App_accept_done None (Inl connection_aborted)]"
  have s: "schedule app_enabled app_step app_start ?es"
    by (simp add: app_start_def app_handle_run_def srv_handle_run_def srv_initiate_accept_def srv_handle_accept_def Let_def)
  obtain t where t: "run app_enabled app_step app_start [App_run] = Some t" "srv_ec (app_server t) = None"
    by (simp add: app_start_def app_handle_run_def srv_handle_run_def srv_initiate_accept_def)
  have "?es = [App_run] @ [App_accept_done None (Inl connection_aborted)]" by simp
  with echo_main_outcome [OF s, of "System_error connection_aborted"] s t show ?thesis by blast
qed

text \<open>
  C26. How the chatterbox ends. Once the application is constructed, it prints an exception exactly
  when its socket cannot be opened, bound or asked for its endpoint, at the start or when a message
  has been read; it dies exactly of the assertion of a connection whose read completes successfully
  after it was stopped, the endpoint still being known; and its status is 0 in every other case,
  those with an exception printed included. Nothing the user types makes it fail. When the signals
  cannot be registered or the standard input cannot be opened, the exception of the constructor is
  not caught at all. The calls of \<open>cancel\<close>, on timers, signal sets, the terminal and a socket that
  nothing has closed, are taken not to throw.
\<close>

theorem chat_main_outcome:
  assumes "schedule ca_enabled ca_step ca_construct es"
  shows "(pe_printed (chat_main None None es) = Some x \<longleftrightarrow>
      (\<exists>ds e t. es = ds @ [e] \<and> run ca_enabled ca_step ca_construct ds = Some t \<and>
         (\<exists>y. (e = Ca_run (Inl y) \<or> (\<exists>i bytes. e = Ca_session i (Cc_read_done None (Some y) bytes))) \<and>
            x = System_error y))) \<and>
    (pe_status (chat_main None None es) = Dies x \<longleftrightarrow>
      (\<exists>ds e t. es = ds @ [e] \<and> run ca_enabled ca_step ca_construct ds = Some t \<and>
         (\<exists>i bytes. e = Ca_session i (Cc_read_done None None bytes) \<and>
            cc_ec (cp_sessions (ca_pool t) ! i) \<noteq> None \<and> x = Assertion ''!ec_''))) \<and>
    (pe_status (chat_main None None es) = Exits 0 \<or> (\<exists>x. pe_status (chat_main None None es) = Dies x)) \<and>
    chat_main (Some y) fd es = \<lparr>pe_status = Dies (System_error y), pe_printed = None\<rparr> \<and>
    chat_main None (Some y) es = \<lparr>pe_status = Dies (System_error y), pe_printed = None\<rparr>"
proof -
  let ?A = "\<lambda>t e x. \<exists>y. (e = Ca_run (Inl y) \<or> (\<exists>i bytes. e = Ca_session i (Cc_read_done None (Some y) bytes))) \<and>
    x = System_error y"
  let ?B = "\<lambda>t e x. \<exists>i bytes. e = Ca_session i (Cc_read_done None None bytes) \<and>
    cc_ec (cp_sessions (ca_pool t) ! i) \<noteq> None \<and> x = Assertion ''!ec_''"
  have main: "chat_main None None es = (case io_run ca_step ca_construct es of Inl x \<Rightarrow> caught 0 x | Inr _ \<Rightarrow> returns 0)"
    by (simp add: chat_main_def ca_open_ok)
  note e = guarded_outcome [where A = ?A and B = ?B, OF assms ca_fault _ _ main]
  have "pe_printed (chat_main None None es) = Some x \<longleftrightarrow>
      (\<exists>ds e t. es = ds @ [e] \<and> run ca_enabled ca_step ca_construct ds = Some t \<and> ?A t e x)"
    by (rule e(1)) auto
  moreover have "pe_status (chat_main None None es) = Dies x \<longleftrightarrow>
      (\<exists>ds e t. es = ds @ [e] \<and> run ca_enabled ca_step ca_construct ds = Some t \<and> ?B t e x)"
    by (rule e(2)) auto
  moreover have "pe_status (chat_main None None es) \<in> {Exits 0, Exits 0} \<or> (\<exists>x. pe_status (chat_main None None es) = Dies x)"
    by (rule e(3)) auto
  moreover have "chat_main (Some y) fd es = \<lparr>pe_status = Dies (System_error y), pe_printed = None\<rparr>"
    "chat_main None (Some y) es = \<lparr>pe_status = Dies (System_error y), pe_printed = None\<rparr>"
    by (simp_all add: chat_main_def ca_open_def con_open_def uncaught_def)
  ultimately show ?thesis by simp
qed

text \<open>
  Three ends: no socket; a message read when the socket has been closed; and a message read after
  "quit", which the assertion stops.
\<close>

abbreviation chat_prologue :: "ca_event list" where
  "chat_prologue \<equiv> [Ca_run (Inr (''127.0.0.1'', 5000)), Ca_session 0 (Cc_connect_done None), Ca_session 0 (Cc_handshake_done None),
     Ca_read None (''quit'' @ [line_feed])]"

theorem chat_main_outcome_witness:
  "pe_printed (chat_main None None [Ca_run (Inl (other_error 98))]) = Some (System_error (other_error 98)) \<and>
   pe_printed (chat_main None None (chat_prologue @ [Ca_session 0 (Cc_read_done None (Some (other_error 9)) ''hi'')])) =
     Some (System_error (other_error 9)) \<and>
   pe_status (chat_main None None (chat_prologue @ [Ca_session 0 (Cc_read_done None None ''hi'')])) = Dies (Assertion ''!ec_'')"
proof (intro conjI)
  let ?es = "[Ca_run (Inl (other_error 98))]"
  have s: "schedule ca_enabled ca_step ca_construct ?es"
    by (simp add: ca_construct_def con_construct_def cp_construct_def ca_handle_run_def cp_handle_run_def
        cp_another_connection_def cc_construct_def)
  have "\<exists>ds e t. ?es = ds @ [e] \<and> run ca_enabled ca_step ca_construct ds = Some t \<and>
      (\<exists>y. (e = Ca_run (Inl y) \<or> (\<exists>i bytes. e = Ca_session i (Cc_read_done None (Some y) bytes))) \<and>
         System_error (other_error 98) = System_error y)"
    by (rule exI [of _ "[]"]) simp
  with chat_main_outcome [OF s, THEN conjunct1, THEN iffD2] show
    "pe_printed (chat_main None None ?es) = Some (System_error (other_error 98))" by simp
next
  obtain t where t: "run ca_enabled ca_step ca_construct chat_prologue = Some t"
    and c: "length (cp_sessions (ca_pool t)) = 1" "Read_op \<in> set (pending (cp_sessions (ca_pool t) ! 0))"
      "cc_ec (cp_sessions (ca_pool t) ! 0) \<noteq> None"
  proof -
    have "map_option (\<lambda>a. map (\<lambda>c. (pending c, cc_ec c)) (cp_sessions (ca_pool a))) (run ca_enabled ca_step ca_construct chat_prologue) =
        Some [([Read_op, Close_op (going_away, [])], Some operation_aborted)]"
      by code_simp
    with that show ?thesis by (auto simp: map_option_eq_Some simp del: run.simps)
  qed
  have s: "schedule ca_enabled ca_step ca_construct (chat_prologue @ [Ca_session 0 (Cc_read_done None at ''hi'')])" for at
    by (rule run_schedule [OF t]) (use c in simp)
  show "pe_printed (chat_main None None (chat_prologue @ [Ca_session 0 (Cc_read_done None (Some (other_error 9)) ''hi'')])) =
     Some (System_error (other_error 9))"
    by (rule chat_main_outcome [OF s, THEN conjunct1, THEN iffD2]) (use t in blast)
  show "pe_status (chat_main None None (chat_prologue @ [Ca_session 0 (Cc_read_done None None ''hi'')])) = Dies (Assertion ''!ec_'')"
    by (rule chat_main_outcome [OF s, THEN conjunct2, THEN conjunct1, THEN iffD2]) (use t c in blast)
qed

text \<open>
  How the coroutine server ends: once its port is open, it returns 0 without printing an
  exception, whatever its peers and the user do; the exceptions of its coroutines stay in them.
\<close>

theorem cx_main_outcome:
  assumes "schedule cxa_enabled cxa_step cxa_start es"
  shows "cx_main None es = returns 0 \<and>
    cx_main (Some y) es = \<lparr>pe_status = Dies (System_error y), pe_printed = None\<rparr>"
proof -
  have "io_run cxa_step cxa_start es \<noteq> Inl x" for x
    unfolding io_run_Inl [OF assms] using cxa_step_ok cxa_reachable_inv run_reachable by (metis Inl_Inr_False)
  then obtain t where "io_run cxa_step cxa_start es = Inr t" by (metis sum.exhaust)
  moreover have "cxa_construct None = Inr cxa_start" "cxa_construct (Some y) = Inl (System_error y)"
    by (simp_all add: cxa_construct_def cs_construct_def cxa_start_def)
  ultimately show ?thesis
    by (simp add: cx_main_def uncaught_def)
qed

theorem cx_main_outcome_witness:
  "schedule cxa_enabled cxa_step cxa_start [Cxa_run, Cxa_loop_begin, Cxa_accept_done None (Inl connection_aborted)] \<and>
     cx_main None [Cxa_run, Cxa_loop_begin, Cxa_accept_done None (Inl connection_aborted)] = returns 0"
proof -
  have s: "schedule cxa_enabled cxa_step cxa_start [Cxa_run, Cxa_loop_begin, Cxa_accept_done None (Inl connection_aborted)]"
    by (simp add: cxa_start_def cxa_construct_def cs_defs cxa_defs)
  from cx_main_outcome [OF s, THEN conjunct1] s show ?thesis by blast
qed

text \<open>
  C25. How the two clients of the exchange end: with status 100 exactly when the wait for a signal
  fails, which calls \<^verbatim>\<open>std::exit\<close>, and with 0 in every other case. No exception reaches \<^verbatim>\<open>main\<close>,
  whatever the exchange sends, so the handler of the first one's \<^verbatim>\<open>try\<close> is never entered and the
  second one does without.
\<close>

theorem client_mains_outcome:
  assumes "schedule ba_enabled (ba_step parse serialize) ba_construct es"
    and "schedule fx_enabled (fx_step v) fx_construct fs"
  shows "blog_main parse serialize es =
      returns (if \<exists>ds y sig. es = ds @ [Ba_sigint (Sig_signal (Some y) sig)] \<and> y \<noteq> operation_aborted then 100 else 0) \<and>
    fmex_main v fs =
      returns (if \<exists>ds y sig. fs = ds @ [Fx_signal (Some y) sig] \<and> y \<noteq> operation_aborted then 100 else 0)"
proof
  let ?F = "\<lambda>e. \<exists>y sig. e = Ba_sigint (Sig_signal (Some y) sig) \<and> y \<noteq> operation_aborted"
  have "if \<exists>ds e. es = ds @ [e] \<and> ?F e then io_run (ba_step parse serialize) ba_construct es = Inl (Exit_called 100)
      else \<exists>t. io_run (ba_step parse serialize) ba_construct es = Inr t"
    by (rule exit_outcome [OF assms(1)]) (use ba_fault in auto)
  then show "blog_main parse serialize es =
      returns (if \<exists>ds y sig. es = ds @ [Ba_sigint (Sig_signal (Some y) sig)] \<and> y \<noteq> operation_aborted then 100 else 0)"
    by (auto simp: blog_main_def program_end_defs split: if_splits)
  let ?G = "\<lambda>e. \<exists>y sig. e = Fx_signal (Some y) sig \<and> y \<noteq> operation_aborted"
  have "if \<exists>ds e. fs = ds @ [e] \<and> ?G e then io_run (fx_step v) fx_construct fs = Inl (Exit_called 100)
      else \<exists>t. io_run (fx_step v) fx_construct fs = Inr t"
    by (rule exit_outcome [OF assms(2)]) (use fx_fault in auto)
  then show "fmex_main v fs =
      returns (if \<exists>ds y sig. fs = ds @ [Fx_signal (Some y) sig] \<and> y \<noteq> operation_aborted then 100 else 0)"
    by (auto simp: fmex_main_def program_end_defs split: if_splits)
qed

theorem client_mains_outcome_witness:
  "schedule ba_enabled (ba_step (\<lambda>_. None) (\<lambda>_. [])) ba_construct [Ba_start, Ba_sigint (Sig_signal None 2)] \<and>
   blog_main (\<lambda>_. None) (\<lambda>_. []) [Ba_start, Ba_sigint (Sig_signal None 2)] = returns 0 \<and>
   fmex_main \<lparr>env_order = (\<lambda>m. m), env_parse = (\<lambda>_. None), env_dump = (\<lambda>_. [])\<rparr> [Fx_start, Fx_signal (Some basic_fault) 2] =
     returns 100"
proof -
  let ?v = "\<lparr>env_order = (\<lambda>m. m), env_parse = (\<lambda>_. None), env_dump = (\<lambda>_. [])\<rparr>"
  have b: "schedule ba_enabled (ba_step (\<lambda>_. None) (\<lambda>_. [])) ba_construct [Ba_start, Ba_sigint (Sig_signal None 2)]"
    by (simp add: ba_defs sig_defs wss_defs fm_defs)
  have f: "schedule fx_enabled (fx_step ?v) fx_construct [Fx_start, Fx_signal (Some basic_fault) 2]"
    by (simp add: fx_defs xc_defs sr_defs emplace_def erase_def Let_def)
  have "[Fx_start, Fx_signal (Some basic_fault) 2] = ds @ [e] \<longleftrightarrow> ds = [Fx_start] \<and> e = Fx_signal (Some basic_fault) 2" for ds e
    by (auto simp: Cons_eq_append_conv)
  moreover have "[Ba_start, Ba_sigint (Sig_signal None 2)] = ds @ [e] \<longleftrightarrow> ds = [Ba_start] \<and> e = Ba_sigint (Sig_signal None 2)" for ds e
    by (auto simp: Cons_eq_append_conv)
  ultimately show ?thesis using client_mains_outcome [OF b f] b by simp
qed


text \<open>
  The exchange client handles at most one interrupt: its wait for a signal is never renewed.
  Once it has handled one, no further signal reaches it, also when that interrupt was lost on a
  connection whose name was just being resolved.
\<close>

theorem fmex_one_interrupt:
  assumes "run fx_enabled (fx_step v) fx_construct es = Some a"
  shows "length (filter is_fx_signal es) \<le> 1 \<and>
    (filter is_fx_signal es \<noteq> [] \<longrightarrow> (\<forall>y sig. \<not> fx_enabled a (Fx_signal y sig)))"
proof -
  have "length (filter is_fx_signal es) + fx_signal_waits a \<le> 1"
    using fx_signals_bounded [OF assms] by (simp add: fx_construct_def)
  then show ?thesis by (cases "filter is_fx_signal es") auto
qed

theorem fmex_one_interrupt_witness:
  "\<exists>a. run fx_enabled (fx_step \<lparr>env_order = (\<lambda>m. m), env_parse = (\<lambda>_. None), env_dump = (\<lambda>_. [])\<rparr>) fx_construct
      [Fx_start, Fx_signal None 2, Fx_connection 0 (Xc_resolve_done None []), Fx_connection 0 (Xc_connect_done None None),
       Fx_connection 0 (Xc_tls_done None), Fx_connection 0 (Xc_handshake_done None)] = Some a \<and>
     Read_op \<in> set (pending (fx_connections a ! 0)) \<and> \<not> fx_enabled a (Fx_signal None 2)"
proof -
  let ?es = "[Fx_start, Fx_signal None 2, Fx_connection 0 (Xc_resolve_done None []), Fx_connection 0 (Xc_connect_done None None),
       Fx_connection 0 (Xc_tls_done None), Fx_connection 0 (Xc_handshake_done None)]"
  obtain a where r: "run fx_enabled (fx_step \<lparr>env_order = (\<lambda>m. m), env_parse = (\<lambda>_. None), env_dump = (\<lambda>_. [])\<rparr>) fx_construct ?es = Some a"
    and p: "Read_op \<in> set (pending (fx_connections a ! 0))"
    by (simp add: fx_defs xc_defs sr_defs SIGINT_def emplace_def erase_def Let_def)
  have "filter is_fx_signal ?es \<noteq> []" by simp
  with fmex_one_interrupt [OF r] r p show ?thesis by blast
qed

end
