(* ===== verification/Mime_Reader.thy ===== *)
theory Mime_Reader
  imports Console
begin

text \<open>
  \<^verbatim>\<open>pre-cxx20/mime_reader/main.cpp\<close>: writing a multipart document, splitting it into HTTP
  chunks, and the reader that looks for the boundaries of its parts. The HTTP parser is Beast's:
  a read is given to the model as the bytes it stored and its error code.
\<close>

section \<open>Text\<close>

definition crlf :: string where
  "crlf = [CHR 0x0D, CHR 0x0A]"

text \<open>\<^verbatim>\<open>std::string::find\<close>: the first position of \<open>pat\<close> in \<open>s\<close>.\<close>

fun find_sub :: "string \<Rightarrow> string \<Rightarrow> nat option" where
  "find_sub pat s =
     (if prefix pat s then Some 0
      else case s of [] \<Rightarrow> None | c # cs \<Rightarrow> map_option Suc (find_sub pat cs))"

declare find_sub.simps [simp del]

section \<open>The boundary parameter\<close>

text \<open>A prefix in any case of letters, and what follows it.\<close>

definition strip_prefix :: "string \<Rightarrow> string \<Rightarrow> string option" where
  "strip_prefix pre s =
     (if map to_lower pre = map to_lower (take (length pre) s) \<and> length pre \<le> length s
      then Some (drop (length pre) s) else None)"

text \<open>The captured group of the two regular expressions, quoted first.\<close>

definition boundary_value :: "string \<Rightarrow> string option" where
  "boundary_value v =
     (let q = CHR 0x22 in
      if 2 < length v \<and> hd v = q \<and> last v = q \<and> q \<notin> set (butlast (tl v)) then Some (butlast (tl v))
      else if v \<noteq> [] \<and> q \<notin> set v then Some v
      else None)"

definition deduce_boundary :: "string \<Rightarrow> string option" where
  "deduce_boundary content_type =
     Option.bind (strip_prefix ''multipart/x-mixed-replace'' content_type) (\<lambda>s.
     Option.bind (strip_prefix '';'' (dropWhile is_space s)) (\<lambda>s.
     Option.bind (strip_prefix ''boundary='' (dropWhile is_space s)) boundary_value))"

section \<open>Writing\<close>

definition mime_part :: "string \<Rightarrow> string \<Rightarrow> string" where
  "mime_part boundary doc =
     ''--'' @ boundary @ crlf @
     ''Content-Type: image/jpeg'' @ crlf @
     ''Content-Length: '' @ to_string (length doc) @ crlf @
     crlf @
     doc @ crlf"

definition mimeify :: "string \<Rightarrow> string list \<Rightarrow> string" where
  "mimeify boundary docs = concat (map (mime_part boundary) docs) @ ''--'' @ boundary @ ''--'' @ crlf"

text \<open>
  The loop of \<open>chunkify\<close>. With a chunk length of zero it makes no progress, and its value is
  \<open>None\<close>.
\<close>

partial_function (option) chunk_loop :: "nat \<Rightarrow> string \<Rightarrow> nat \<Rightarrow> string \<Rightarrow> string option" where
  "chunk_loop chunk_len input pos oss =
     (if pos < length input then
        let chunk = take chunk_len (drop pos input) in
        chunk_loop chunk_len input (pos + length chunk)
          (oss @ to_hex (length chunk) @ crlf @ chunk @ crlf)
      else Some oss)"

text \<open>
  The chunk length is computed in \<^verbatim>\<open>std::size_t\<close>, to which the \<^verbatim>\<open>int\<close> is converted.
\<close>

definition chunk_length :: "int \<Rightarrow> nat \<Rightarrow> nat" where
  "chunk_length chunks n =
     unat ((word_of_nat n + word_of_int (chunks - 1) :: 64 word) div word_of_int chunks)"

definition chunkify :: "int \<Rightarrow> string \<Rightarrow> string option result" where
  "chunkify chunks input =
     (if chunks = 0 then Inl (Undefined ''division by zero'')
      else Inr (map_option (\<lambda>oss. oss @ ''0'' @ crlf) (chunk_loop (chunk_length chunks (length input)) input 0 [])))"

section \<open>Reading\<close>

text \<open>
  The dynamic buffer over \<^verbatim>\<open>work_store\<close>. \<open>grow\<close> appends zero bytes; \<open>shrink\<close> drops bytes
  from the end, all of them when asked for more than there are.
\<close>

definition zeros :: "nat \<Rightarrow> string" where
  "zeros n = replicate n (CHR 0x00)"

definition grow :: "nat \<Rightarrow> string \<Rightarrow> string" where
  "grow n store = store @ zeros n"

definition shrink :: "nat \<Rightarrow> string \<Rightarrow> string" where
  "shrink n store = (if length store < n then [] else take (length store - n) store)"

text \<open>
  One read of at most 512 bytes: the parser writes \<open>bytes\<close> at the end of the store and leaves
  the number of bytes it did not use in \<^verbatim>\<open>body().size\<close>.
\<close>

definition mime_read :: "string \<Rightarrow> string \<Rightarrow> string" where
  "mime_read bytes store =
     (let filled = store @ take 512 bytes @ zeros (512 - length bytes);
          body_size = 512 - length bytes
      in shrink (512 - body_size) filled)"

datatype mime_phase = Next_boundary | Next_header

text \<open>
  What the reader returns: the result of \<open>test\<close>, or that a read it waits for never completes.
  The list are the parts it printed.
\<close>

datatype mime_end = Mime_return error_code | Mime_starved

definition boundary_line :: "string \<Rightarrow> string" where
  "boundary_line boundary = ''--'' @ boundary @ crlf"

definition end_line :: "string \<Rightarrow> string" where
  "end_line boundary = ''--'' @ boundary @ ''--'' @ crlf"

text \<open>The boundary found: its position, and whether it is the last one.\<close>

definition find_boundary :: "string \<Rightarrow> string \<Rightarrow> (nat \<times> string) option" where
  "find_boundary boundary store =
     (case find_sub (boundary_line boundary) store of
        Some p \<Rightarrow> Some (p, boundary_line boundary)
      | None \<Rightarrow> map_option (\<lambda>p. (p, end_line boundary)) (find_sub (end_line boundary) store))"

text \<open>
  \<^verbatim>\<open>work_store.substr(0, boundary_pos - 2)\<close>: the difference is taken in \<^verbatim>\<open>size_t\<close>, so a
  boundary less than two bytes into the store gives the whole of it.
\<close>

definition substr_front :: "nat \<Rightarrow> string \<Rightarrow> string" where
  "substr_front boundary_pos store = take (unat (word_of_nat boundary_pos - 2 :: 64 word)) store"

lemma find_sub_bound: "find_sub pat s = Some p \<Longrightarrow> p + length pat \<le> length s"
proof (induction s arbitrary: p)
  case Nil
  then show ?case by (auto simp: find_sub.simps [of pat "[]"] split: if_splits)
next
  case (Cons c s)
  then show ?case
    by (auto simp: find_sub.simps [of pat "c # s"] dest: prefix_length_le split: if_splits)
qed

lemma find_boundary_bound:
  "find_boundary b store = Some (p, l) \<Longrightarrow> p + length l \<le> length store \<and> length store - (p + length l) < length store"
  by (auto simp: find_boundary_def boundary_line_def end_line_def dest!: find_sub_bound split: option.splits)

function mime_scan :: "string \<Rightarrow> (string \<times> error_code) list \<Rightarrow> mime_phase \<Rightarrow> bool \<Rightarrow> string \<Rightarrow> mime_end \<times> string list" where
  "mime_scan boundary reads Next_boundary first_part store =
     (case find_boundary boundary store of
        None \<Rightarrow>
          (case reads of
             [] \<Rightarrow> (Mime_starved, [])
           | (bytes, e) # rest \<Rightarrow>
               if e \<noteq> None then (Mime_return e, [])
               else mime_scan boundary rest Next_boundary first_part (mime_read bytes store))
      | Some (pos, line) \<Rightarrow>
          let part = (if first_part then [] else [substr_front pos store]) in
          if line = end_line boundary then (Mime_return None, part)
          else (let (r, parts) = mime_scan boundary reads Next_header first_part (drop (pos + length line) store)
                in (r, part @ parts)))"
| "mime_scan boundary reads Next_header first_part store =
     (case find_sub crlf store of
        None \<Rightarrow>
          (case reads of
             [] \<Rightarrow> (Mime_starved, [])
           | (bytes, e) # rest \<Rightarrow>
               if e \<noteq> None then (Mime_return e, [])
               else mime_scan boundary rest Next_header first_part (mime_read bytes store))
      | Some hdr_pos \<Rightarrow>
          if hdr_pos = 0 then mime_scan boundary reads Next_boundary False store
          else mime_scan boundary reads Next_header first_part (drop (hdr_pos + 2) store))"
  by pat_completeness auto

termination
  by (relation "measures [\<lambda>(b, reads, ph, f, store). length reads, \<lambda>(b, reads, ph, f, store). length store,
      \<lambda>(b, reads, ph, f, store). case ph of Next_boundary \<Rightarrow> 0 | Next_header \<Rightarrow> 1]")
    (auto dest!: find_boundary_bound find_sub_bound simp: crlf_def diff_less_mono2)

text \<open>
  The whole of \<open>test\<close>: the header read of \<open>header_bytes\<close> bytes leaves the store with the
  zeros of \<open>grow(256)\<close> that \<open>shrink\<close> does not take away; the size it is told wraps around.
\<close>

definition mime_test :: "nat \<Rightarrow> error_code \<Rightarrow> string \<Rightarrow> (string \<times> error_code) list \<Rightarrow> mime_end \<times> string list" where
  "mime_test header_bytes header_ec content_type reads =
     (let work_store = shrink (unat (256 - word_of_nat header_bytes :: 64 word)) (grow 256 []) in
      if header_ec \<noteq> None then (Mime_return header_ec, [])
      else case deduce_boundary content_type of
          None \<Rightarrow> (Mime_return (Some protocol_error), [])
        | Some boundary \<Rightarrow> mime_scan boundary reads Next_boundary True work_store)"

lemmas mime_defs [model_defs] =
  crlf_def boundary_line_def end_line_def mime_read_def zeros_def grow_def shrink_def mime_test_def

section \<open>Searching\<close>

lemma find_sub_skip: "c \<notin> set xs \<Longrightarrow> find_sub (c # ps) (xs @ s) = map_option ((+) (length xs)) (find_sub (c # ps) s)"
proof (induction xs)
  case Nil
  then show ?case by (cases "find_sub (c # ps) s") auto
next
  case (Cons x xs)
  then show ?case
    by (cases "find_sub (c # ps) s") (auto simp: find_sub.simps [of "c # ps" "x # xs @ s"])
qed

lemma find_sub_here: "find_sub pat (pat @ s) = Some 0"
  by (simp add: find_sub.simps)

lemma find_sub_first: "c \<notin> set xs \<Longrightarrow> find_sub (c # ps) (xs @ (c # ps) @ s) = Some (length xs)"
  using find_sub_skip [of c xs ps "(c # ps) @ s"] find_sub_here [of "c # ps" s] by simp

lemma find_sub_absent: "c \<notin> set s \<Longrightarrow> find_sub (c # ps) s = None"
  using find_sub_skip [of c s ps "[]"] by (simp add: find_sub.simps [of _ "[]"])

lemma digit_char_code: "d < 16 \<Longrightarrow> 48 \<le> (of_char (digit_char d) :: nat)"
  by (simp add: digit_char_def)

text \<open>The digits of a number are no control characters and no punctuation below the digits.\<close>

lemma show_base_code:
  "2 \<le> b \<Longrightarrow> b \<le> 16 \<Longrightarrow> c \<in> set (show_base b n) \<Longrightarrow> 48 \<le> (of_char c :: nat)"
proof (induction b n rule: show_base.induct)
  case (1 b n)
  show ?case
  proof (cases "n < b")
    case True
    with "1.prems" digit_char_code [of n] show ?thesis by (auto simp: show_base.simps [of b n])
  next
    case False
    have "n mod b < 16" using "1.prems" mod_less_divisor [of b n] by linarith
    with False "1.prems" "1.IH" digit_char_code [of "n mod b"] show ?thesis
      by (auto simp: show_base.simps [of b n])
  qed
qed

lemma show_base_plain [simp]:
  assumes "2 \<le> b" "b \<le> 16"
  shows "CHR 0x0D \<notin> set (show_base b n)" "CHR 0x0A \<notin> set (show_base b n)" "CHR ''-'' \<notin> set (show_base b n)"
  using show_base_code [OF assms, of _ n] by fastforce+

section \<open>Chunks\<close>

text \<open>
  A decoder for the chunked transfer coding, as the HTTP specification describes it: a size in
  hexadecimal, a line end, that many bytes, a line end; a size of zero ends the body, and then
  \<open>trailer\<close> must follow, which the specification says is a line end (with no trailer fields).
\<close>

function dechunk :: "string \<Rightarrow> string \<Rightarrow> string option" where
  "dechunk trailer s =
     (case find_sub crlf s of
        None \<Rightarrow> None
      | Some p \<Rightarrow>
          let n = read_base 16 (take p s); rest = drop (p + 2) s in
          if n = 0 then (if rest = trailer then Some [] else None)
          else if prefix crlf (drop n rest) then map_option ((@) (take n rest)) (dechunk trailer (drop (n + 2) rest))
          else None)"
  by pat_completeness auto

termination
  by (relation "measure (\<lambda>(t, s). length s)") (auto simp: crlf_def dest!: find_sub_bound)

declare dechunk.simps [simp del]

lemma find_crlf_hex: "find_sub crlf (to_hex n @ crlf @ s) = Some (length (to_hex n))"
  using find_sub_first [of "CHR 0x0D" "to_hex n" "[CHR 0x0A]" s] show_base_plain [of 16 n] by (simp add: crlf_def)

lemma dechunk_end: "dechunk t (''0'' @ crlf @ rest) = (if rest = t then Some [] else None)"
proof -
  have "to_hex 0 = ''0''" by code_simp
  then have "find_sub crlf (''0'' @ crlf @ rest) = Some 1" using find_crlf_hex [of 0 rest] by simp
  moreover have "read_base 16 ''0'' = 0" by code_simp
  ultimately show ?thesis by (subst dechunk.simps) (simp add: crlf_def)
qed

lemma dechunk_chunk:
  assumes "chunk \<noteq> []"
  shows "dechunk t (to_hex (length chunk) @ crlf @ chunk @ crlf @ s) = map_option ((@) chunk) (dechunk t s)"
proof -
  have "read_base 16 (to_hex (length chunk)) = length chunk" by (rule read_show_base) simp_all
  then show ?thesis
    using assms by (subst dechunk.simps) (simp add: find_crlf_hex, simp add: crlf_def)
qed

lemma chunk_loop_decodes:
  assumes "0 < len"
  shows "\<exists>e. chunk_loop len input pos oss = Some (oss @ e) \<and>
    (\<forall>t tail. dechunk t (e @ ''0'' @ crlf @ tail) = (if tail = t then Some (drop pos input) else None))"
proof (induction "length input - pos" arbitrary: pos oss rule: less_induct)
  case less
  show ?case
  proof (cases "pos < length input")
    case True
    let ?chunk = "take len (drop pos input)"
    have ne: "?chunk \<noteq> []" using True assms by simp
    have "length input - (pos + length ?chunk) < length input - pos" using True assms by simp
    from less [OF this] obtain e where
      e: "chunk_loop len input (pos + length ?chunk) (oss @ to_hex (length ?chunk) @ crlf @ ?chunk @ crlf) =
          Some ((oss @ to_hex (length ?chunk) @ crlf @ ?chunk @ crlf) @ e)"
        "\<And>t tail. dechunk t (e @ ''0'' @ crlf @ tail) = (if tail = t then Some (drop (pos + length ?chunk) input) else None)"
      by blast
    have "chunk_loop len input pos oss = Some (oss @ (to_hex (length ?chunk) @ crlf @ ?chunk @ crlf @ e))"
      using e(1) True by (subst chunk_loop.simps) (simp add: Let_def)
    moreover have "?chunk @ drop (pos + length ?chunk) input = drop pos input"
      by (metis append_take_drop_id drop_drop add.commute length_take take_all_iff min_def drop_all nat_le_linear)
    ultimately show ?thesis
      using dechunk_chunk [OF ne] e(2) by (intro exI conjI) (assumption, simp)
  next
    case False
    then have "chunk_loop len input pos oss = Some (oss @ [])" by (subst chunk_loop.simps) simp
    with False dechunk_end show ?thesis by (intro exI [of _ "[]"]) simp
  qed
qed

lemma chunk_loop_returns:
  assumes "chunk_loop len input pos oss = Some out"
  shows "len \<noteq> 0 \<or> length input \<le> pos"
  by (rule chunk_loop.raw_induct [of "\<lambda>len input pos oss out. len \<noteq> 0 \<or> length input \<le> pos", OF _ assms])
    (fastforce simp: Let_def split: if_splits)

lemma chunk_length_eq:
  assumes "0 < k" "k < 2 ^ 31" "n < 2 ^ 63"
  shows "chunk_length (int k) n = (n + (k - 1)) div k"
proof -
  have k: "word_of_int (int k) = (word_of_nat k :: 64 word)" "int k - 1 = int (k - 1)"
    using assms(1) by (simp_all add: of_nat_diff)
  have small: "unat (word_of_nat m :: 64 word) = m" if "m < 2 ^ 64" for m
    using that by (simp add: unat_of_nat)
  have "(word_of_nat n + word_of_nat (k - 1) :: 64 word) = word_of_nat (n + (k - 1))"
    by (simp only: of_nat_add)
  moreover have "n + (k - 1) < 2 ^ 64" "k < 2 ^ 64" using assms by simp_all
  ultimately show ?thesis
    by (simp only: chunk_length_def k of_int_of_nat_eq unat_div_distrib small)
qed

section \<open>Parts\<close>

lemma find_sub_None: "find_sub pat s = None \<longleftrightarrow> \<not> sublist pat s"
proof (induction s)
  case Nil
  then show ?case by (simp add: find_sub.simps [of pat "[]"])
next
  case (Cons c s)
  then show ?case by (simp add: find_sub.simps [of pat "c # s"] sublist_Cons_right)
qed

text \<open>No occurrence of \<open>pat\<close> begins inside \<open>xs\<close> when \<open>s\<close> follows it.\<close>

definition skips :: "string \<Rightarrow> string \<Rightarrow> string \<Rightarrow> bool" where
  "skips pat xs s \<longleftrightarrow> (\<forall>i < length xs. \<not> prefix pat (drop i (xs @ s)))"

lemma skips_Nil [simp]: "skips pat [] s"
  by (simp add: skips_def)

lemma skips_Cons: "skips pat (x # xs) s \<longleftrightarrow> \<not> prefix pat (x # xs @ s) \<and> skips pat xs s"
  unfolding skips_def by (auto simp: less_Suc_eq_0_disj)

lemma skips_extend: "skips pat xs s \<Longrightarrow> skips (pat @ t) xs s"
  unfolding skips_def by (meson append_prefixD)

lemma skips_find: "skips pat xs s \<Longrightarrow> find_sub pat (xs @ s) = map_option ((+) (length xs)) (find_sub pat s)"
proof (induction xs)
  case Nil
  then show ?case by (cases "find_sub pat s") auto
next
  case (Cons x xs)
  then show ?case
    by (cases "find_sub pat s") (auto simp: skips_Cons find_sub.simps [of pat "x # xs @ s"])
qed

lemma skips_free: "c \<notin> set xs \<Longrightarrow> skips (c # ps) xs s"
  by (induction xs) (auto simp: skips_Cons)

text \<open>
  A pattern without the last character of \<open>xs\<close> that does not occur in \<open>xs\<close> does not begin in
  it either.
\<close>

lemma skips_closed:
  assumes "c \<notin> set pat" "\<not> sublist pat (xs @ [c])"
  shows "skips pat (xs @ [c]) s"
  using assms(2)
proof (induction xs)
  case Nil
  then show ?case using assms(1) by (cases pat) (auto simp: skips_def sublist_Cons_right)
next
  case (Cons x xs)
  have "\<not> prefix pat (x # xs @ [c] @ s)"
  proof
    assume p: "prefix pat (x # xs @ [c] @ s)"
    then have "prefix pat ((x # xs @ [c]) @ s)" by simp
    then consider "prefix pat (x # xs @ [c])" | zs where "pat = (x # xs @ [c]) @ zs"
      unfolding prefix_append by blast
    then show False
    proof cases
      case 1
      then show ?thesis using Cons.prems by (simp add: prefix_imp_sublist)
    next
      case 2
      then show ?thesis using assms(1) by simp
    qed
  qed
  with Cons show ?case by (simp add: skips_Cons sublist_Cons_right)
qed

lemma sublist_trim_right: "c \<notin> set pat \<Longrightarrow> pat \<noteq> [] \<Longrightarrow> sublist pat (xs @ [c]) \<Longrightarrow> sublist pat xs"
proof (induction xs)
  case Nil
  then show ?case by (cases pat) (auto simp: sublist_Cons_right)
next
  case (Cons x xs)
  then show ?case
    using prefix_snoc [of pat "x # xs" c] by (auto simp: sublist_Cons_right)
qed

lemma sublist_trim_left: "c \<notin> set pat \<Longrightarrow> pat \<noteq> [] \<Longrightarrow> sublist pat (c # xs) \<Longrightarrow> sublist pat xs"
  by (cases pat) (auto simp: sublist_Cons_right)

lemma pair_commute: "[a, a] @ b = b @ [a, a] \<Longrightarrow> set b \<subseteq> {a}"
proof (induction b rule: induct_list012)
  case 1
  show ?case by simp
next
  case (2 x)
  then show ?case unfolding append_Cons append_Nil list.inject list.set by blast
next
  case (3 x y zs)
  have "a = x \<and> a = y \<and> x # y # zs = zs @ [a, a]"
    using "3.prems" unfolding append_Cons append_Nil list.inject .
  then have "x = a \<and> y = a \<and> [a, a] @ zs = zs @ [a, a]" by (metis append_Cons append_Nil)
  with "3.IH"(1) show ?case by simp
qed

lemma dashes_commute: "''--'' @ b = b @ ''--'' \<Longrightarrow> set b \<subseteq> {CHR ''-''}"
  by (rule pair_commute)

text \<open>
  Boundaries the reader can tell apart: no line end in them, and not dashes only (with the
  boundary \<^verbatim>\<open>-\<close> the line that ends the document contains the line that begins a part).
\<close>

definition usable_boundary :: "string \<Rightarrow> bool" where
  "usable_boundary b \<longleftrightarrow> CHR 0x0D \<notin> set b \<and> CHR 0x0A \<notin> set b \<and> \<not> set b \<subseteq> {CHR ''-''}"

lemma no_line_in_end:
  assumes "usable_boundary b" "CHR 0x0D \<notin> set zs"
  shows "\<not> sublist (boundary_line b) (end_line b @ zs)"
proof
  assume "sublist (boundary_line b) (end_line b @ zs)"
  then obtain ps ss where "end_line b @ zs = ps @ boundary_line b @ ss" unfolding sublist_def by blast
  then have "(''--'' @ b @ ''--'') @ CHR 0x0D # (CHR 0x0A # zs) = (ps @ ''--'' @ b) @ CHR 0x0D # (CHR 0x0A # ss)"
    by (simp add: end_line_def boundary_line_def crlf_def)
  then have eq: "''--'' @ (b @ ''--'') = ps @ (''--'' @ b)"
    using assms by (subst (asm) append_Cons_eq_iff) (auto simp: usable_boundary_def)
  have "length ps = length ''--''" using arg_cong [OF eq, of length] by simp
  with eq have "b @ ''--'' = ''--'' @ b" by (metis append_eq_append_conv)
  with dashes_commute [of b] assms(1) show False by (simp add: usable_boundary_def)
qed

lemma skips_doc:
  assumes "usable_boundary b" "\<not> sublist (''--'' @ b) d"
  shows "skips (''--'' @ b) (crlf @ d @ crlf) s"
proof -
  have f: "CHR 0x0A \<notin> set (''--'' @ b)" "CHR 0x0D \<notin> set (''--'' @ b)" "''--'' @ b \<noteq> []"
    using assms(1) by (auto simp: usable_boundary_def)
  have "\<not> sublist (''--'' @ b) ((crlf @ d @ [CHR 0x0D]) @ [CHR 0x0A])"
    using assms(2) f sublist_trim_right [OF f(1,3)] sublist_trim_right [OF f(2,3)]
      sublist_trim_left [OF f(1,3)] sublist_trim_left [OF f(2,3)]
    by (metis append_Cons append_Nil append_assoc crlf_def)
  from skips_closed [OF f(1) this, of s] show ?thesis by (simp add: crlf_def)
qed

lemma find_boundary_part:
  assumes "skips (''--'' @ b) xs (boundary_line b @ s)"
  shows "find_boundary b (xs @ boundary_line b @ s) = Some (length xs, boundary_line b)"
  using skips_find [OF skips_extend [OF assms, of crlf]] find_sub_here [of "boundary_line b" s]
  by (simp add: find_boundary_def boundary_line_def)

lemma find_boundary_end:
  assumes "usable_boundary b" "CHR 0x0D \<notin> set zs" "skips (''--'' @ b) xs (end_line b @ zs)"
  shows "find_boundary b (xs @ end_line b @ zs) = Some (length xs, end_line b)"
proof -
  have "find_sub (boundary_line b) (xs @ end_line b @ zs) = None"
    using skips_find [OF skips_extend [OF assms(3), of crlf]] no_line_in_end [OF assms(1,2)]
    by (simp add: boundary_line_def find_sub_None)
  moreover have "find_sub (end_line b) (xs @ end_line b @ zs) = Some (length xs)"
    using skips_find [OF skips_extend [OF assms(3), of "''--'' @ crlf"]] find_sub_here [of "end_line b" zs]
    by (simp add: end_line_def)
  ultimately show ?thesis by (simp add: find_boundary_def)
qed

text \<open>The header lines of a part are skipped; the line end that follows them stays in the store.\<close>

lemma scan_header_line:
  "CHR 0x0D \<notin> set h \<Longrightarrow> h \<noteq> [] \<Longrightarrow>
    mime_scan b reads Next_header f (h @ crlf @ s) = mime_scan b reads Next_header f s"
  using find_sub_first [of "CHR 0x0D" h "[CHR 0x0A]" s] by (simp add: crlf_def)

lemma scan_header_end:
  "mime_scan b reads Next_header f (crlf @ s) = mime_scan b reads Next_boundary False (crlf @ s)"
  using find_sub_here [of crlf s] by (simp add: crlf_def)

lemma scan_part_headers:
  "mime_scan b reads Next_header f
     (''Content-Type: image/jpeg'' @ crlf @ ''Content-Length: '' @ to_string n @ crlf @ crlf @ s) =
   mime_scan b reads Next_boundary False (crlf @ s)"
proof -
  have "mime_scan b reads Next_header f
     (''Content-Type: image/jpeg'' @ crlf @ (''Content-Length: '' @ to_string n @ crlf @ crlf @ s)) =
     mime_scan b reads Next_header f ((''Content-Length: '' @ to_string n) @ crlf @ (crlf @ s))"
    by (subst scan_header_line) (simp_all del: mime_scan.simps)
  also have "\<dots> = mime_scan b reads Next_header f (crlf @ s)"
    by (rule scan_header_line) simp_all
  finally show ?thesis by (simp only: scan_header_end)
qed

lemma substr_front_eq:
  "2 \<le> p \<Longrightarrow> p < 2 ^ 64 \<Longrightarrow> substr_front p s = take (p - 2) s"
proof -
  assume p: "2 \<le> p" "p < 2 ^ 64"
  then have "word_of_nat p - 2 = (word_of_nat (p - 2) :: 64 word)" by (simp add: of_nat_diff)
  moreover have "unat (word_of_nat (p - 2) :: 64 word) = p - 2"
    using p(2) by (subst unat_of_nat) (rule mod_less, simp)
  ultimately show ?thesis by (simp only: substr_front_def)
qed

lemma boundary_line_not_end: "boundary_line b \<noteq> end_line b"
  by (simp add: boundary_line_def end_line_def crlf_def)

text \<open>
  From a store that holds a whole document the reader prints every part in order, each one
  preceded by the line end that follows its headers, and ends without an error.
\<close>

lemma scan_mimeify:
  assumes "usable_boundary b" "CHR 0x0D \<notin> set zs" "\<And>d. d \<in> set docs \<Longrightarrow> \<not> sublist (''--'' @ b) d"
    "skips (''--'' @ b) xs (mimeify b docs @ zs)" "f \<or> 2 \<le> length xs"
    "length xs + length (mimeify b docs) < 2 ^ 64"
  shows "mime_scan b reads Next_boundary f (xs @ mimeify b docs @ zs) =
    (Mime_return None, (if f then [] else [take (length xs - 2) xs]) @ map ((@) crlf) docs)"
  using assms(3-)
proof (induction docs arbitrary: xs f)
  case Nil
  then have "find_boundary b (xs @ end_line b @ zs) = Some (length xs, end_line b)"
    using find_boundary_end [OF assms(1,2)] by (simp add: mimeify_def end_line_def)
  with Nil show ?case by (auto simp: mimeify_def end_line_def substr_front_eq)
next
  case (Cons d docs)
  define h where "h = ''Content-Type: image/jpeg'' @ crlf @ ''Content-Length: '' @ to_string (length d) @ crlf @ crlf"
  have h: "mime_scan b reads Next_header f (h @ r) = mime_scan b reads Next_boundary False (crlf @ r)" for f r
    using scan_part_headers [of b reads f "length d" r] unfolding h_def append_assoc .
  let ?rest = "d @ crlf @ mimeify b docs @ zs"
  have m: "mimeify b (d # docs) @ zs = boundary_line b @ h @ ?rest"
    by (simp add: mimeify_def mime_part_def boundary_line_def h_def)
  have fb: "find_boundary b (xs @ boundary_line b @ h @ ?rest) = Some (length xs, boundary_line b)"
    by (rule find_boundary_part) (use Cons.prems(2) m in simp)
  have sub: "f \<or> substr_front (length xs) (xs @ boundary_line b @ h @ ?rest) = take (length xs - 2) xs"
    using Cons.prems(3,4) by (auto simp: substr_front_eq)
  have len: "length (crlf @ d @ crlf) + length (mimeify b docs) < 2 ^ 64"
    using Cons.prems(4) by (simp add: mimeify_def mime_part_def crlf_def)
  have "mime_scan b reads Next_boundary False (crlf @ d @ crlf @ mimeify b docs @ zs) =
      (Mime_return None, [take (length (crlf @ d @ crlf) - 2) (crlf @ d @ crlf)] @ map ((@) crlf) docs)"
    using Cons.IH [of "crlf @ d @ crlf" False] Cons.prems(1) skips_doc [OF assms(1)] len
    by (simp add: crlf_def)
  moreover have "take (length (crlf @ d @ crlf) - 2) (crlf @ d @ crlf) = crlf @ d" by (simp add: crlf_def)
  ultimately have "mime_scan b reads Next_header f (h @ ?rest) = (Mime_return None, map ((@) crlf) (d # docs))"
    by (simp only: h) simp
  with sub boundary_line_not_end [of b] show ?case
    unfolding m by (subst mime_scan.simps) (auto simp: fb simp del: mime_scan.simps)
qed

lemma chunk_length_negative:
  assumes "chunks < 0" "- (2 ^ 31) \<le> chunks" "- chunks < int n" "n < 2 ^ 63"
  shows "chunk_length chunks n = 0"
proof -
  have "(word_of_nat n + word_of_int (chunks - 1) :: 64 word) = word_of_int (int n + (chunks - 1))" by simp
  moreover have "(int n + (chunks - 1)) mod 2 ^ 64 = int n + (chunks - 1)" using assms by (intro mod_pos_pos_trivial) auto
  ultimately have "uint (word_of_nat n + word_of_int (chunks - 1) :: 64 word) = int n + (chunks - 1)"
    by (simp only: uint_word_of_int) simp
  moreover have "chunks mod 2 ^ 64 = chunks + 2 ^ 64" using assms(1,2) by (subst mod_add_self2 [symmetric], intro mod_pos_pos_trivial) auto
  then have "uint (word_of_int chunks :: 64 word) = chunks + 2 ^ 64" by (simp only: uint_word_of_int) simp
  ultimately have "(word_of_nat n + word_of_int (chunks - 1) :: 64 word) < word_of_int chunks"
    using assms by (simp only: word_less_def) simp
  then show ?thesis by (simp only: chunk_length_def word_div_no unat_div_distrib) (simp add: word_less_nat_alt)
qed

lemma header_store: "\<exists>k \<le> 256. shrink n (grow 256 []) = zeros k"
proof (cases "256 < n")
  case True
  then show ?thesis by (intro exI [of _ 0]) (simp add: shrink_def grow_def zeros_def)
next
  case False
  then show ?thesis by (intro exI [of _ "256 - n"]) (simp add: shrink_def grow_def zeros_def)
qed

lemma zeros_plain [simp]: "CHR 0x0D \<notin> set (zeros k)" "CHR ''-'' \<notin> set (zeros k)"
  by (simp_all add: zeros_def)

lemma find_boundary_zeros: "find_boundary b (zeros k) = None"
  using find_sub_absent [of "CHR ''-''" "zeros k"] by (simp add: find_boundary_def boundary_line_def end_line_def)

lemma strip_prefix_append [simp]: "strip_prefix pre (pre @ s) = Some s"
  by (simp add: strip_prefix_def)

text \<open>A document that arrives in one read.\<close>

lemma mime_test_single_read:
  assumes "deduce_boundary content_type = Some b" "usable_boundary b"
    "\<forall>d \<in> set docs. \<not> sublist (''--'' @ b) d" "length (mimeify b docs) \<le> 256"
  shows "mime_test header_bytes None content_type [(mimeify b docs, None)] =
    (Mime_return None, map ((@) crlf) docs)"
proof -
  let ?m = "mimeify b docs"
  obtain k where k: "k \<le> 256" "shrink (unat (256 - word_of_nat header_bytes :: 64 word)) (grow 256 []) = zeros k"
    using header_store by blast
  define zs where "zs = zeros (512 - 2 * length ?m)"
  have "mime_read ?m (zeros k) = zeros k @ ?m @ zs"
    using assms(4) by (simp add: zs_def mime_read_def shrink_def zeros_def Let_def)
  then have "mime_test header_bytes None content_type [(?m, None)] =
      mime_scan b [] Next_boundary True (zeros k @ ?m @ zs)"
    by (simp add: mime_test_def Let_def k assms(1) find_boundary_zeros)
  also have "\<dots> = (Mime_return None, map ((@) crlf) docs)"
    using scan_mimeify [OF assms(2), of zs docs "zeros k" True "[]"]
      skips_free [of "CHR ''-''" "zeros k" "CHR ''-'' # b" "?m @ zs"] assms(3,4) k(1)
    by (simp add: zs_def del: mime_scan.simps) (simp add: zeros_def del: mime_scan.simps)
  finally show ?thesis .
qed

section \<open>Properties\<close>

text \<open>
  C31. Chunked coding round trip. For a positive number of chunks \<open>chunkify\<close> returns, and a
  decoder of the chunked transfer coding reads the input back from what it wrote, provided it
  accepts the end of the body without the final line end; a decoder that insists on the line end
  the HTTP specification requires after the last chunk rejects every output of \<open>chunkify\<close>.
\<close>

theorem chunkify_roundtrip:
  assumes "0 < chunks" "chunks < 2 ^ 31" "length input < 2 ^ 63"
  shows "\<exists>out. chunkify chunks input = Inr (Some out) \<and> dechunk [] out = Some input \<and> dechunk crlf out = None"
proof (cases "input = []")
  case True
  then have "chunkify chunks input = Inr (Some (''0'' @ crlf))"
    using assms(1) by (simp add: chunkify_def chunk_loop.simps)
  then show ?thesis using True dechunk_end [of _ "[]"] by (simp add: crlf_def)
next
  case False
  define k where "k = nat chunks"
  with assms(1,2) have k: "chunks = int k" "0 < k" "k < 2 ^ 31" by simp_all
  have "k \<le> length input + (k - 1)" using False k(2) by (cases input) simp_all
  then have "0 < chunk_length chunks (length input)"
    using k assms(3) chunk_length_eq [of k "length input"] by (simp add: div_greater_zero_iff)
  then obtain e where e: "chunk_loop (chunk_length chunks (length input)) input 0 [] = Some ([] @ e)"
      "\<And>t tail. dechunk t (e @ ''0'' @ crlf @ tail) = (if tail = t then Some (drop 0 input) else None)"
    using chunk_loop_decodes by blast
  then show ?thesis using assms(1) e(2) [of _ "[]"] by (simp add: chunkify_def crlf_def)
qed

theorem chunkify_roundtrip_witness:
  "\<exists>out. chunkify 4 ''abcdef'' = Inr (Some out) \<and> dechunk [] out = Some ''abcdef'' \<and> dechunk crlf out = None"
  by (rule chunkify_roundtrip) simp_all

text \<open>
  A read keeps exactly the bytes it received only when there are 256 of them: the store is
  cut by the number of bytes read instead of the number of bytes left unused, so a longer read
  loses its last bytes and a shorter one leaves zero bytes behind it.
\<close>

theorem mime_read_exact:
  assumes "length bytes \<le> 512"
  shows "mime_read bytes store =
    (if length bytes \<le> 256 then store @ bytes @ zeros (512 - 2 * length bytes)
     else store @ take (512 - length bytes) bytes)"
  using assms by (auto simp: mime_read_def shrink_def zeros_def Let_def)

theorem mime_read_exact_witness:
  "mime_read (replicate 500 (CHR ''x'')) ''ab'' = ''ab'' @ replicate 12 (CHR ''x'')"
  using mime_read_exact [of "replicate 500 (CHR ''x'')" "''ab''"] by simp

text \<open>
  With a negative number of chunks and an input longer than its absolute value, the chunk
  length computed in \<^verbatim>\<open>size_t\<close> is zero and the loop of \<open>chunkify\<close> never ends.
\<close>

theorem chunkify_negative_hangs:
  assumes "chunks < 0" "- (2 ^ 31) \<le> chunks" "- chunks < int (length input)" "length input < 2 ^ 63"
  shows "chunkify chunks input = Inr None"
proof -
  have "0 < length input" using assms(1,3) by linarith
  then have "chunk_loop 0 input 0 [] = None"
    using chunk_loop_returns [of 0 input 0 "[]"] by (cases "chunk_loop 0 input 0 []") auto
  with assms(1) show ?thesis by (simp add: chunkify_def chunk_length_negative [OF assms])
qed

theorem chunkify_negative_hangs_witness:
  "chunkify (- 1) ''abc'' = Inr None"
  by (rule chunkify_negative_hangs) simp_all

text \<open>
  C30. Reading back what \<open>mimeify\<close> writes. For a usable boundary, parts that do not contain it
  and a document that fits in one read of at most 256 bytes, the reader ends without an error
  having printed every part once and in order, each with the line end before it.
\<close>

theorem mime_test_reads_parts:
  assumes "deduce_boundary content_type = Some b" "usable_boundary b"
    "\<forall>d \<in> set docs. \<not> sublist (''--'' @ b) d" "length (mimeify b docs) \<le> 256"
  shows "mime_test header_bytes None content_type [(mimeify b docs, None)] =
    (Mime_return None, map ((@) crlf) docs)"
  using assms by (rule mime_test_single_read)

theorem mime_test_reads_parts_witness:
  "mime_test 40 None ''multipart/x-mixed-replace;boundary=FrameSeparator''
     [(mimeify ''FrameSeparator'' [''abc'', ''def''], None)] = (Mime_return None, map ((@) crlf) [''abc'', ''def''])"
proof (rule mime_test_reads_parts)
  show "deduce_boundary ''multipart/x-mixed-replace;boundary=FrameSeparator'' = Some ''FrameSeparator''" by code_simp
  show "usable_boundary ''FrameSeparator''" by code_simp
  show "\<forall>d \<in> set [''abc'', ''def'']. \<not> sublist (''--'' @ ''FrameSeparator'') d" by code_simp
  show "length (mimeify ''FrameSeparator'' [''abc'', ''def'']) \<le> 256" by code_simp
qed

text \<open>
  The boundary parameter of a content type is found whether it is quoted or not.
\<close>

theorem deduce_boundary_finds:
  assumes "b \<noteq> []" "CHR 0x22 \<notin> set b"
  shows "deduce_boundary (''multipart/x-mixed-replace'' @ '';'' @ ''boundary='' @ b) = Some b \<and>
    deduce_boundary (''multipart/x-mixed-replace'' @ '';'' @ ''boundary='' @ [CHR 0x22] @ b @ [CHR 0x22]) = Some b"
proof -
  have "deduce_boundary (''multipart/x-mixed-replace'' @ '';'' @ ''boundary='' @ v) = boundary_value v" for v
  proof -
    have sp: "dropWhile is_space ('';'' @ s) = '';'' @ s" "dropWhile is_space (''boundary='' @ s) = ''boundary='' @ s" for s
      by (simp_all add: is_space_def)
    show ?thesis unfolding deduce_boundary_def strip_prefix_append bind.bind_lunit sp by (rule refl)
  qed
  moreover have "boundary_value b = Some b" using assms by (cases b) (auto simp: boundary_value_def)
  moreover have "boundary_value ([CHR 0x22] @ b @ [CHR 0x22]) = Some b"
    using assms by (simp add: boundary_value_def Let_def)
  ultimately show ?thesis by simp
qed

end
