(* ===== verification/Mime_Main.thy ===== *)
theory Mime_Main
  imports Mime_Reader
begin

text \<open>
  \<^verbatim>\<open>main\<close> of \<^verbatim>\<open>pre-cxx20/mime_reader/main.cpp\<close>: the sample document of two parts, its chunked and
  its plain transfer, and what the program prints for them. The HTTP parser of Beast is a parameter;
  the property names what it relies on. The first section says where a marker is found in a store
  that has gaps of zero bytes in it, as the reader's buffer handling leaves them.
\<close>

section \<open>Stores with gaps\<close>

lemma find_sub_gap:
  assumes "c \<notin> set pat" "pat \<noteq> []"
  shows "find_sub pat (xs @ c # ys) =
    (case find_sub pat xs of Some p \<Rightarrow> Some p | None \<Rightarrow> map_option (\<lambda>p. Suc (length xs) + p) (find_sub pat ys))"
proof (induction xs)
  case Nil
  from assms obtain a ps where "pat = a # ps" "c \<noteq> a" by (cases pat) auto
  then show ?case
    by (cases "find_sub (a # ps) ys") (simp_all add: find_sub.simps [of "a # ps" "[]"] find_sub.simps [of "a # ps" "c # ys"])
next
  case (Cons x xs)
  have "prefix pat (zs @ c # ys) \<longleftrightarrow> prefix pat zs" for zs
    using assms(1) by (induction zs arbitrary: pat) (auto simp: prefix_Cons prefix_append)
  from this [of "x # xs"] have p: "prefix pat (x # xs @ c # ys) \<longleftrightarrow> prefix pat (x # xs)" by simp
  show ?case
    using Cons.IH p
    by (cases "find_sub pat ys") (simp_all add: find_sub.simps [of pat "x # xs @ c # ys"] find_sub.simps [of pat "x # xs"] option.map_comp o_def
        split: option.splits)
qed

lemma find_sub_zeros:
  assumes "CHR 0x00 \<notin> set pat" "pat \<noteq> []"
  shows "find_sub pat (zeros k @ ys) = map_option ((+) k) (find_sub pat ys)"
proof (induction k)
  case 0
  then show ?case by (simp add: zeros_def option.map_ident_strong)
next
  case (Suc k)
  from assms(2) have "find_sub pat [] = None" by (simp add: find_sub.simps)
  with find_sub_gap [OF assms, of "[]" "zeros k @ ys"] Suc show ?case
    by (simp add: zeros_def option.map_comp o_def)
qed

lemma find_sub_between:
  assumes "CHR 0x00 \<notin> set pat" "pat \<noteq> []" "0 < k"
  shows "find_sub pat (xs @ zeros k @ ys) =
    (case find_sub pat xs of Some p \<Rightarrow> Some p | None \<Rightarrow> map_option (\<lambda>p. length xs + k + p) (find_sub pat ys))"
proof -
  from assms(3) have "zeros k = CHR 0x00 # zeros (k - 1)" by (cases k) (simp_all add: zeros_def)
  with find_sub_gap [OF assms(1,2), of xs "zeros (k - 1) @ ys"] find_sub_zeros [OF assms(1,2), of "k - 1" ys] assms(3)
  show ?thesis by (cases "find_sub pat ys") (simp_all split: option.splits)
qed

lemma find_sub_padded:
  assumes "CHR 0x00 \<notin> set pat" "pat \<noteq> []"
  shows "find_sub pat (xs @ zeros k) = find_sub pat xs"
proof (cases "k = 0")
  case False
  with find_sub_between [OF assms, of k xs "[]"] assms(2) show ?thesis
    by (simp add: find_sub.simps [of pat "[]"] split: option.splits)
qed (simp add: zeros_def)

text \<open>Reads that bring no bytes leave 512 zeros each; one of at most 256 bytes leaves its bytes, padded.\<close>

lemma mime_read_Nil: "mime_read [] store = store @ zeros 512"
  by (simp add: mime_read_def shrink_def zeros_def)

lemma mime_read_short: "length bs \<le> 256 \<Longrightarrow> mime_read bs store = store @ bs @ zeros (512 - 2 * length bs)"
  by (simp add: mime_read_def shrink_def zeros_def Let_def)

lemma zeros_add: "zeros j @ zeros k = zeros (j + k)"
  by (simp add: zeros_def replicate_add)

lemma scan_empty_reads:
  assumes "CHR 0x00 \<notin> set b"
  shows "find_boundary b store = None \<Longrightarrow>
      mime_scan b (replicate m ([], None) @ reads) Next_boundary f store = mime_scan b reads Next_boundary f (store @ zeros (512 * m))"
    and "find_sub crlf store = None \<Longrightarrow>
      mime_scan b (replicate m ([], None) @ reads) Next_header f store = mime_scan b reads Next_header f (store @ zeros (512 * m))"
proof -
  have z: "CHR 0x00 \<notin> set (boundary_line b)" "boundary_line b \<noteq> []" "CHR 0x00 \<notin> set (end_line b)" "end_line b \<noteq> []"
    "CHR 0x00 \<notin> set crlf" "crlf \<noteq> []"
    using assms by (simp_all add: boundary_line_def end_line_def crlf_def)
  have b: "find_boundary b (store @ zeros k) = find_boundary b store" for store k
    by (simp add: find_boundary_def find_sub_padded [OF z(1,2)] find_sub_padded [OF z(3,4)] split: option.splits)
  show "find_boundary b store = None \<Longrightarrow>
      mime_scan b (replicate m ([], None) @ reads) Next_boundary f store = mime_scan b reads Next_boundary f (store @ zeros (512 * m))"
    by (induction m arbitrary: store) (simp_all add: zeros_add mime_read_Nil b del: mime_scan.simps add: mime_scan.simps(1) [of b "_ # _"], simp add: zeros_def)
  show "find_sub crlf store = None \<Longrightarrow>
      mime_scan b (replicate m ([], None) @ reads) Next_header f store = mime_scan b reads Next_header f (store @ zeros (512 * m))"
    by (induction m arbitrary: store) (simp_all add: zeros_add mime_read_Nil find_sub_padded [OF z(5,6)] del: mime_scan.simps add: mime_scan.simps(2) [of b "_ # _"], simp add: zeros_def)
qed

section \<open>The program\<close>

definition mime_docs :: "string list" where
  "mime_docs = [''abc'', ''def'']"

definition mime_payload1 :: string where
  "mime_payload1 = mimeify ''FrameSeparator'' mime_docs"

definition mime_payload2 :: "string option result" where
  "mime_payload2 = chunkify 4 mime_payload1"

definition mime_content_type :: string where
  "mime_content_type = ''multipart/x-mixed-replace;boundary='' @ [CHR 0x22] @ ''FrameSeparator'' @ [CHR 0x22]"

definition mime_unchunked :: string where
  "mime_unchunked =
     ''HTTP/1.1 200 OK'' @ crlf @
     ''Date: Thu, 22 Oct 2020 20:26:01 GMT'' @ crlf @
     ''Content-Type: '' @ mime_content_type @ crlf @
     crlf @ mime_payload1"

definition mime_chunked :: "string \<Rightarrow> string" where
  "mime_chunked payload2 =
     ''HTTP/1.1 200 OK'' @ crlf @
     ''Date: Thu, 22 Oct 2020 20:26:01 GMT'' @ crlf @
     ''Content-Type: '' @ mime_content_type @ crlf @
     ''Transfer-Encoding: chunked'' @ crlf @
     crlf @ payload2"

text \<open>
  What the HTTP parser makes of the bytes of a sample: the number of bytes of the header and its
  error, the content type, and the bodies of the reads that follow.
\<close>

type_synonym http_parser = "string \<Rightarrow> nat \<times> error_code \<times> string \<times> (string \<times> error_code) list"

definition mime_run :: "http_parser \<Rightarrow> string \<Rightarrow> mime_end \<times> string list" where
  "mime_run parser sample = (case parser sample of (n, e, content_type, reads) \<Rightarrow> mime_test n e content_type reads)"

definition mime_print :: "string list \<Rightarrow> string" where
  "mime_print parts = concat (map (\<lambda>part. ''***HERE IS A PART: '' @ part @ newline) parts)"

text \<open>
  What the program writes to \<^verbatim>\<open>std::cout\<close>, if it ends. The lines it logs with \<^verbatim>\<open>spdlog::info\<close> (the
  boundary found, the end of a stream, the header of a part), which go to the standard output too
  unless the logger is told otherwise, are left out.
\<close>

definition mime_main :: "http_parser \<Rightarrow> string option result" where
  "mime_main parser =
     and_then mime_payload2 (\<lambda>payload2.
       Inr (Option.bind payload2 (\<lambda>payload2.
         let (end1, parts1) = mime_run parser (mime_chunked payload2);
             (end2, parts2) = mime_run parser mime_unchunked in
         if end1 = Mime_starved \<or> end2 = Mime_starved then None
         else Some (''Test CHUNKED'' @ newline @ ''============'' @ newline @ newline @
           mime_print parts1 @
           newline @ ''Test NOT CHUNKED'' @ newline @ ''================'' @ newline @ newline @
           mime_print parts2))))"

section \<open>The chunked sample\<close>

text \<open>The payload in the four chunks \<open>chunkify\<close> makes of it.\<close>

definition mime_chunk :: "nat \<Rightarrow> string" where
  "mime_chunk i = take 40 (drop (40 * i) mime_payload1)"

lemma mime_chunk_eq:
  "mime_chunk 0 = ''--FrameSeparator'' @ crlf @ ''Content-Type: image/jp''"
  "mime_chunk 1 = ''eg'' @ crlf @ ''Content-Length: 3'' @ crlf @ crlf @ ''abc'' @ crlf @ ''--FrameSep''"
  "mime_chunk 2 = ''arator'' @ crlf @ ''Content-Type: image/jpeg'' @ crlf @ ''Conten''"
  "mime_chunk 3 = ''t-Length: 3'' @ crlf @ crlf @ ''def'' @ crlf @ ''--FrameSeparator--'' @ crlf"
  by code_simp+

lemma mime_payload1_length: "length mime_payload1 = 160"
  by code_simp

lemma mime_payload2_eq:
  "mime_payload2 = Inr (Some (concat (map (\<lambda>i. ''28'' @ crlf @ mime_chunk i @ crlf) [0, 1, 2, 3]) @ ''0'' @ crlf))"
proof -
  have n: "chunk_length 4 160 = 40" using chunk_length_eq [of 4 160] by simp
  have h: "to_hex 40 = ''28''" by code_simp
  show ?thesis
    by (simp add: mime_payload2_def chunkify_def mime_payload1_length n chunk_loop.simps mime_chunk_def h Let_def)
qed


text \<open>
  What the parser delivers, by its documentation: the header and its content type; then, not being
  eager, the body of the chunked sample chunk by chunk, where reads that end with the header of a
  chunk bring no byte of the body, and the body of the other sample in one read.
\<close>

definition chunk_reads :: "nat list \<Rightarrow> (string \<times> error_code) list" where
  "chunk_reads ms = concat (map (\<lambda>(m, i). replicate m ([], None) @ [(mime_chunk i, None)]) (zip ms [0, 1, 2, 3]))"

lemma scan_read_boundary:
  assumes "find_boundary b store = None" "length bs \<le> 256"
  shows "mime_scan b ((bs, None) # reads) Next_boundary f store =
    mime_scan b reads Next_boundary f (store @ bs @ zeros (512 - 2 * length bs))"
  using assms by (simp add: mime_scan.simps(1) [of b "(bs, None) # reads"] mime_read_short del: mime_scan.simps)

lemma scan_read_header:
  assumes "find_sub crlf store = None" "length bs \<le> 256"
  shows "mime_scan b ((bs, None) # reads) Next_header f store =
    mime_scan b reads Next_header f (store @ bs @ zeros (512 - 2 * length bs))"
  using assms by (simp add: mime_scan.simps(2) [of b "(bs, None) # reads"] mime_read_short del: mime_scan.simps)

lemma scan_line:
  assumes "find_sub crlf store = Some p" "0 < p"
  shows "mime_scan b reads Next_header f store = mime_scan b reads Next_header f (drop (p + 2) store)"
  using assms by (simp add: mime_scan.simps(2) [of b reads f store] del: mime_scan.simps)

lemma scan_last_header:
  assumes "find_sub crlf store = Some 0"
  shows "mime_scan b reads Next_header f store = mime_scan b reads Next_boundary False store"
  using assms by (simp add: mime_scan.simps(2) [of b reads f store] del: mime_scan.simps)

lemma marker_facts:
  "CHR 0x00 \<notin> set (boundary_line ''FrameSeparator'')" "boundary_line ''FrameSeparator'' \<noteq> []"
  "CHR 0x00 \<notin> set (end_line ''FrameSeparator'')" "end_line ''FrameSeparator'' \<noteq> []"
  "CHR 0x00 \<notin> set crlf" "crlf \<noteq> []"
  by (simp_all add: boundary_line_def end_line_def crlf_def)

lemmas find_gaps =
  find_sub_between [OF marker_facts(1,2)] find_sub_between [OF marker_facts(3,4)] find_sub_between [OF marker_facts(5,6)]
  find_sub_padded [OF marker_facts(1,2)] find_sub_padded [OF marker_facts(3,4)] find_sub_padded [OF marker_facts(5,6)]
  find_sub_zeros [OF marker_facts(1,2)] find_sub_zeros [OF marker_facts(3,4)]

text \<open>A chunk with the empty reads before it, where a boundary or the end of a line is sought.\<close>

lemma scan_chunk:
  assumes "length bs = 40"
  shows "find_boundary ''FrameSeparator'' store = None \<Longrightarrow>
      mime_scan ''FrameSeparator'' (replicate m ([], None) @ (bs, None) # reads) Next_boundary f store =
      mime_scan ''FrameSeparator'' reads Next_boundary f (store @ zeros (512 * m) @ bs @ zeros 432)"
    and "find_sub crlf store = None \<Longrightarrow>
      mime_scan ''FrameSeparator'' (replicate m ([], None) @ (bs, None) # reads) Next_header f store =
      mime_scan ''FrameSeparator'' reads Next_header f (store @ zeros (512 * m) @ bs @ zeros 432)"
proof -
  have nul: "CHR 0x00 \<notin> set ''FrameSeparator''" by simp
  show "find_boundary ''FrameSeparator'' store = None \<Longrightarrow>
      mime_scan ''FrameSeparator'' (replicate m ([], None) @ (bs, None) # reads) Next_boundary f store =
      mime_scan ''FrameSeparator'' reads Next_boundary f (store @ zeros (512 * m) @ bs @ zeros 432)"
    using scan_read_boundary [of "''FrameSeparator''" "store @ zeros (512 * m)" bs reads f] assms
    by (simp add: scan_empty_reads(1) [OF nul] find_boundary_def find_gaps split: option.splits del: mime_scan.simps)
  show "find_sub crlf store = None \<Longrightarrow>
      mime_scan ''FrameSeparator'' (replicate m ([], None) @ (bs, None) # reads) Next_header f store =
      mime_scan ''FrameSeparator'' reads Next_header f (store @ zeros (512 * m) @ bs @ zeros 432)"
    using scan_read_header [of "store @ zeros (512 * m)" bs "''FrameSeparator''" reads f] assms
    by (simp add: scan_empty_reads(2) [OF nul] find_gaps del: mime_scan.simps)
qed

lemma scan_chunked_sample:
  assumes m: "m3 + m4 < 2 ^ 32"
  shows "mime_scan ''FrameSeparator'' (chunk_reads [m1, m2, m3, m4]) Next_boundary True (zeros k) =
    (Mime_return None, [crlf @ ''abc'' @ crlf @ ''--FrameSep'' @ zeros (432 + 512 * m3) @
       mime_chunk 2 @ zeros (432 + 512 * m4) @ ''t-Length: 3'' @ crlf @ crlf @ ''def''])"
proof -
  let ?b = "''FrameSeparator''" and ?line = "boundary_line ''FrameSeparator''" and ?last = "end_line ''FrameSeparator''"
  define r1 where "r1 = ''Content-Type: image/jp''"
  define l2 where "l2 = ''Content-Length: 3''"
  define r2 where "r2 = crlf @ ''abc'' @ crlf @ ''--FrameSep''"
  define c0 where "c0 = mime_chunk 0"
  define c1 where "c1 = mime_chunk 1"
  define c2 where "c2 = mime_chunk 2"
  define c3 where "c3 = mime_chunk 3"
  have len: "length c0 = 40" "length c1 = 40" "length c2 = 40" "length c3 = 40" "length r1 = 22" "length l2 = 17"
    "length r2 = 17" "length ?line = 18" "length crlf = 2"
    unfolding c0_def c1_def c2_def c3_def r1_def l2_def r2_def by code_simp+
  have f: "find_sub ?line c0 = Some 0" "find_sub ?line c2 = None" "find_sub ?line c3 = None"
    "find_sub ?last c2 = None" "find_sub ?last c3 = Some 20" "find_sub crlf r1 = None"
    "find_sub crlf c1 = Some 2" "find_sub ?line r2 = None" "find_sub ?last r2 = None"
    "find_sub crlf (l2 @ crlf @ r2) = Some 17" "find_sub crlf r2 = Some 0"
    "drop 18 c0 = r1" "drop 4 c1 = l2 @ crlf @ r2"
    "take 18 c3 = ''t-Length: 3'' @ crlf @ crlf @ ''def''" "?line \<noteq> ?last"
    unfolding c0_def c1_def c2_def c3_def r1_def l2_def r2_def by code_simp+
  define rest3 where "rest3 = replicate m4 ([], None :: error_code) @ [(c3, None)]"
  define rest2 where "rest2 = replicate m3 ([], None) @ (c2, None) # rest3"
  define rest1 where "rest1 = replicate m2 ([], None) @ (c1, None) # rest2"
  let ?S2 = "r2 @ zeros (432 + 512 * m3) @ c2 @ zeros (432 + 512 * m4) @ c3 @ zeros 432"
  let ?p = "17 + (432 + 512 * m3) + (40 + (432 + 512 * m4) + 20)"
  have "mime_scan ?b (chunk_reads [m1, m2, m3, m4]) Next_boundary True (zeros k) =
      mime_scan ?b rest1 Next_boundary True (zeros (k + 512 * m1) @ c0 @ zeros 432)"
    using scan_chunk(1) [of c0 "zeros k" m1] len
    by (simp add: chunk_reads_def c0_def c1_def c2_def c3_def find_boundary_zeros zeros_add [symmetric] rest1_def rest2_def rest3_def del: mime_scan.simps)
  also have "\<dots> = mime_scan ?b rest1 Next_header True (r1 @ zeros 432)"
  proof -
    let ?s = "zeros (k + 512 * m1) @ c0 @ zeros 432"
    have "find_boundary ?b ?s = Some (k + 512 * m1, ?line)" by (simp add: find_boundary_def find_gaps f)
    moreover have "drop (k + 512 * m1 + length ?line) ?s = r1 @ zeros 432"
      using len  by (simp add: f drop_append zeros_def)
    ultimately show ?thesis
      by (simp add: mime_scan.simps(1) [of ?b rest1 True ?s] f case_prod_beta del: mime_scan.simps)
  qed
  also have "\<dots> = mime_scan ?b rest2 Next_header True (r1 @ zeros (432 + 512 * m2) @ c1 @ zeros 432)"
    using scan_chunk(2) [of "c1" "r1 @ zeros 432" m2] len
    by (simp add: rest1_def find_gaps f zeros_add [symmetric] del: mime_scan.simps)
  also have "\<dots> = mime_scan ?b rest2 Next_header True ((l2 @ crlf @ r2) @ zeros 432)"
  proof -
    let ?s = "r1 @ zeros (432 + 512 * m2) @ c1 @ zeros 432" and ?q = "22 + (432 + 512 * m2) + 2"
    have "find_sub crlf ?s = Some ?q" using len by (simp add: find_gaps f)
    moreover have "drop (?q + 2) ?s = (l2 @ crlf @ r2) @ zeros 432"
      unfolding f(13) [symmetric] using len by (simp add: drop_append zeros_def)
    ultimately show ?thesis using scan_line [of ?s ?q ?b rest2 True] by simp
  qed
  also have "\<dots> = mime_scan ?b rest2 Next_header True (r2 @ zeros 432)"
  proof -
    have "find_sub crlf ((l2 @ crlf @ r2) @ zeros 432) = Some 17" unfolding find_gaps f ..
    moreover have "drop (17 + 2) ((l2 @ crlf @ r2) @ zeros 432) = r2 @ zeros 432" using len by (simp add: drop_append)
    ultimately show ?thesis using scan_line [of "(l2 @ crlf @ r2) @ zeros 432" 17 ?b rest2 True] by simp
  qed
  also have "\<dots> = mime_scan ?b rest2 Next_boundary False (r2 @ zeros 432)"
    using scan_last_header [of "r2 @ zeros 432"] by (simp only: find_gaps f)
  also have "\<dots> = mime_scan ?b rest3 Next_boundary False (r2 @ zeros (432 + 512 * m3) @ c2 @ zeros 432)"
    using scan_chunk(1) [of "c2" "r2 @ zeros 432" m3] len
    by (simp add: rest2_def find_boundary_def find_gaps f zeros_add [symmetric] del: mime_scan.simps)
  also have "\<dots> = mime_scan ?b [] Next_boundary False ?S2"
    using scan_chunk(1) [of "c3" "r2 @ zeros (432 + 512 * m3) @ c2 @ zeros 432" m4 "[]"] len
    by (simp add: rest3_def find_boundary_def find_gaps f zeros_add [symmetric] del: mime_scan.simps)
  also have "\<dots> = (Mime_return None, [substr_front ?p ?S2])"
  proof -
    have "find_boundary ?b ?S2 = Some (?p, ?last)" using len by (simp only: find_boundary_def find_gaps f) simp
    then show ?thesis by (simp add: mime_scan.simps(1) [of ?b "[]" False ?S2] del: mime_scan.simps)
  qed
  also have "substr_front ?p ?S2 = r2 @ zeros (432 + 512 * m3) @ c2 @ zeros (432 + 512 * m4) @ take 18 c3"
    using m len by (simp add: substr_front_eq f take_append zeros_def)
  finally show ?thesis by (simp add: f r2_def c2_def)
qed


section \<open>Properties\<close>

text \<open>
  C29. What the program writes to \<^verbatim>\<open>std::cout\<close> for its two samples, its log lines left out, with a
  parser that behaves as documented. The
  sample that is not chunked gives its two parts, each with a line end before it. Of the chunked
  sample, which carries the same document, only one part is printed: it runs from the first part to
  the last boundary, with the boundary between the two parts in pieces and hundreds of zero bytes
  where the reads meet, since the store is shrunk by the number of bytes read instead of the number
  left unused.
\<close>

theorem mime_main_output:
  assumes "parser (mime_chunked (the (projr mime_payload2))) = (n1, None, mime_content_type, chunk_reads [m1, m2, m3, m4])"
    and "parser mime_unchunked = (n2, None, mime_content_type, [(mime_payload1, None)])"
    and "m3 + m4 < 2 ^ 32"
  shows "mime_main parser = Inr (Some
    (''Test CHUNKED'' @ newline @ ''============'' @ newline @ newline @
     ''***HERE IS A PART: '' @ crlf @ ''abc'' @ crlf @ ''--FrameSep'' @ zeros (432 + 512 * m3) @
       ''arator'' @ crlf @ ''Content-Type: image/jpeg'' @ crlf @ ''Conten'' @ zeros (432 + 512 * m4) @
       ''t-Length: 3'' @ crlf @ crlf @ ''def'' @ newline @
     newline @ ''Test NOT CHUNKED'' @ newline @ ''================'' @ newline @ newline @
     ''***HERE IS A PART: '' @ crlf @ ''abc'' @ newline @
     ''***HERE IS A PART: '' @ crlf @ ''def'' @ newline))"
proof -
  have ct: "deduce_boundary mime_content_type = Some ''FrameSeparator''" by code_simp
  obtain k where k: "shrink (unat (256 - word_of_nat n1 :: 64 word)) (grow 256 []) = zeros k"
    using header_store by blast
  have "mime_run parser (mime_chunked (the (projr mime_payload2))) =
      mime_scan ''FrameSeparator'' (chunk_reads [m1, m2, m3, m4]) Next_boundary True (zeros k)"
    by (simp add: mime_run_def assms(1) mime_test_def ct k del: mime_scan.simps)
  note chunked = this [unfolded scan_chunked_sample [OF assms(3)]]
  have "usable_boundary ''FrameSeparator''" "\<forall>d \<in> set mime_docs. \<not> sublist (''--'' @ ''FrameSeparator'') d"
    by code_simp+
  then have "mime_test n2 None mime_content_type [(mime_payload1, None)] = (Mime_return None, map ((@) crlf) mime_docs)"
    unfolding mime_payload1_def
    by (intro mime_test_single_read [OF ct]) (simp_all add: mime_payload1_length [unfolded mime_payload1_def])
  then have "mime_run parser mime_unchunked = (Mime_return None, [crlf @ ''abc'', crlf @ ''def''])"
    by (simp add: mime_run_def assms(2) mime_docs_def)
  with chunked show ?thesis
    by (simp add: mime_main_def mime_payload2_eq mime_print_def mime_chunk_eq)
qed

definition sample_parser :: http_parser where
  "sample_parser sample =
     (149, None, mime_content_type,
      if sample = mime_unchunked then [(mime_payload1, None)] else chunk_reads [1, 1, 1, 1])"

theorem mime_main_output_witness:
  "\<exists>out. mime_main sample_parser = Inr (Some out) \<and> suffix (''***HERE IS A PART: '' @ crlf @ ''def'' @ newline) out"
proof -
  have "mime_chunked (the (projr mime_payload2)) \<noteq> mime_unchunked"
    by (simp add: mime_chunked_def mime_unchunked_def mime_content_type_def crlf_def)
  then have p: "sample_parser (mime_chunked (the (projr mime_payload2))) = (149, None, mime_content_type, chunk_reads [1, 1, 1, 1])"
      "sample_parser mime_unchunked = (149, None, mime_content_type, [(mime_payload1, None)])"
    by (simp_all add: sample_parser_def)
  have "(1 :: nat) + 1 < 2 ^ 32" by simp
  from mime_main_output [OF p this] show ?thesis by (auto simp: suffix_def)
qed

end
