(* ===== verification/Memory_Test.thy ===== *)
theory Memory_Test
  imports Send_Region
begin

text \<open>
  \<^verbatim>\<open>pre-cxx20/memory-test/server.cpp\<close> and \<^verbatim>\<open>client.cpp\<close>: a listener whose sessions read
  one message, write it back and read the next, and the client that opens thirty thousand
  connections to it. The session has no queue: its one buffer is both what is read into and what
  is written from.
\<close>

section \<open>The session\<close>

datatype ms_option = Suggested_timeout | Server_decorator | Permessage_deflate

text \<open>
  \<open>ms_text\<close> is the mode the stream writes in (\<^verbatim>\<open>ws_.text(...)\<close>), \<open>ms_fails\<close> what \<^verbatim>\<open>fail\<close>
  printed.
\<close>

record mem_session = "ws_op io" +
  ms_options :: "ms_option list"
  ms_buffer :: string
  ms_text :: bool
  ms_fails :: "(error \<times> string) list"

definition ms_construct :: mem_session where
  "ms_construct = \<lparr>pending = [], started = [], ms_options = [], ms_buffer = [], ms_text = True, ms_fails = []\<rparr>"

definition ms_fail :: "error \<Rightarrow> string \<Rightarrow> mem_session \<Rightarrow> mem_session" where
  "ms_fail e what s = s\<lparr>ms_fails := ms_fails s @ [(e, what)]\<rparr>"

definition ms_run :: "mem_session \<Rightarrow> mem_session" where
  "ms_run s = initiate Accept_op
     (s\<lparr>ms_options := ms_options s @ [Suggested_timeout, Server_decorator, Permessage_deflate]\<rparr>)"

definition ms_do_read :: "mem_session \<Rightarrow> mem_session" where
  "ms_do_read s = initiate Read_op s"

definition ms_on_accept :: "error_code \<Rightarrow> mem_session \<Rightarrow> mem_session" where
  "ms_on_accept ec s = (case ec of Some e \<Rightarrow> ms_fail e ''accept'' s | None \<Rightarrow> ms_do_read s)"

text \<open>An error other than \<^verbatim>\<open>closed\<close> is reported, and the handler goes on.\<close>

definition ms_on_read :: "error_code \<Rightarrow> bool \<Rightarrow> mem_session \<Rightarrow> mem_session" where
  "ms_on_read ec got_text s =
     (if ec = Some websocket_closed then s
      else let s1 = (case ec of Some e \<Rightarrow> ms_fail e ''read'' s | None \<Rightarrow> s);
               s2 = s1\<lparr>ms_text := got_text\<rparr>
           in initiate (Write_op (ms_buffer s2)) s2)"

definition ms_on_write :: "error_code \<Rightarrow> mem_session \<Rightarrow> mem_session" where
  "ms_on_write ec s =
     (case ec of
        Some e \<Rightarrow> ms_fail e ''write'' s
      | None \<Rightarrow> ms_do_read (s\<lparr>ms_buffer := drop (length (ms_buffer s)) (ms_buffer s)\<rparr>))"

text \<open>
  The call of \<open>run\<close> and the completions. A read completes with the bytes it appended to the
  buffer and the kind of the message.
\<close>

datatype ms_event =
    Ms_run
  | Ms_accept_done error_code
  | Ms_read_done error_code string bool
  | Ms_write_done error_code string

fun ms_step :: "mem_session \<Rightarrow> ms_event \<Rightarrow> mem_session result" where
  "ms_step s Ms_run = Inr (ms_run s)"
| "ms_step s (Ms_accept_done e) = Inr (ms_on_accept e (settle Accept_op s))"
| "ms_step s (Ms_read_done e bytes got_text) =
     Inr (ms_on_read e got_text ((settle Read_op s)\<lparr>ms_buffer := ms_buffer s @ bytes\<rparr>))"
| "ms_step s (Ms_write_done e m) = Inr (ms_on_write e (settle (Write_op m) s))"

fun ms_enabled :: "mem_session \<Rightarrow> ms_event \<Rightarrow> bool" where
  "ms_enabled s Ms_run \<longleftrightarrow> started s = []"
| "ms_enabled s (Ms_accept_done e) \<longleftrightarrow> Accept_op \<in> set (pending s)"
| "ms_enabled s (Ms_read_done e bytes got_text) \<longleftrightarrow> Read_op \<in> set (pending s)"
| "ms_enabled s (Ms_write_done e m) \<longleftrightarrow> Write_op m \<in> set (pending s)"

lemmas ms_defs [model_defs] =
  ms_construct_def ms_fail_def ms_run_def ms_do_read_def ms_on_accept_def ms_on_read_def ms_on_write_def

section \<open>The specification of a session\<close>

text \<open>
  What a session promises, without buffers and completion handlers: it waits for the handshake,
  then alternates between waiting for a message and having one to send back, and ends.
\<close>

datatype ms_spec = Sp_new | Sp_handshake | Sp_receiving | Sp_replying string | Sp_over

fun sp_step :: "ms_spec \<Rightarrow> ms_event \<Rightarrow> ms_spec option" where
  "sp_step Sp_new Ms_run = Some Sp_handshake"
| "sp_step Sp_handshake (Ms_accept_done e) = Some (if e = None then Sp_receiving else Sp_over)"
| "sp_step Sp_receiving (Ms_read_done e bytes t) =
     Some (if e = Some websocket_closed then Sp_over else Sp_replying bytes)"
| "sp_step (Sp_replying m) (Ms_write_done e n) =
     (if n = m then Some (if e = None then Sp_receiving else Sp_over) else None)"
| "sp_step _ _ = None"

fun sp_run :: "ms_spec \<Rightarrow> ms_event list \<Rightarrow> ms_spec option" where
  "sp_run s [] = Some s"
| "sp_run s (e # es) = Option.bind (sp_step s e) (\<lambda>t. sp_run t es)"

text \<open>The abstraction: what is outstanding tells the phase.\<close>

definition ms_abs :: "mem_session \<Rightarrow> ms_spec" where
  "ms_abs s =
     (if started s = [] then Sp_new
      else case pending s of
          [] \<Rightarrow> Sp_over
        | Accept_op # _ \<Rightarrow> Sp_handshake
        | Read_op # _ \<Rightarrow> Sp_receiving
        | Write_op m # _ \<Rightarrow> Sp_replying m
        | _ \<Rightarrow> Sp_over)"

definition ms_inv :: "mem_session \<Rightarrow> bool" where
  "ms_inv s \<longleftrightarrow>
     (started s = [] \<and> pending s = [] \<and> ms_buffer s = []) \<or>
     (started s \<noteq> [] \<and>
       (pending s = [] \<or> (pending s = [Accept_op] \<and> ms_buffer s = []) \<or>
        (pending s = [Read_op] \<and> ms_buffer s = []) \<or> pending s = [Write_op (ms_buffer s)]))"

lemma ms_inv_construct: "ms_inv ms_construct" "ms_abs ms_construct = Sp_new"
  by (simp_all add: ms_inv_def ms_abs_def ms_construct_def)

text \<open>One step of the code is one step of the specification, and both allow the same events.\<close>

lemma ms_inv_cases [consumes 1, case_names new over handshake receiving replying]:
  assumes "ms_inv s"
  obtains "started s = []" "pending s = []" "ms_buffer s = []"
  | "started s \<noteq> []" "pending s = []"
  | "started s \<noteq> []" "pending s = [Accept_op]" "ms_buffer s = []"
  | "started s \<noteq> []" "pending s = [Read_op]" "ms_buffer s = []"
  | "started s \<noteq> []" "pending s = [Write_op (ms_buffer s)]"
  using assms unfolding ms_inv_def by blast

lemma ms_inv_step: "ms_inv s \<Longrightarrow> ms_enabled s e \<Longrightarrow> ms_step s e = Inr t \<Longrightarrow> ms_inv t"
  by (cases s rule: ms_inv_cases, assumption; cases e)
    (simp_all add: ms_defs Let_def split: option.splits if_splits,
      (hypsubst, simp add: ms_inv_def initiate_def settle_def)+)

lemma ms_simulates:
  "ms_inv s \<Longrightarrow> ms_enabled s e \<Longrightarrow> ms_step s e = Inr t \<Longrightarrow> sp_step (ms_abs s) e = Some (ms_abs t)"
  by (cases s rule: ms_inv_cases, assumption; cases e)
    (simp_all add: ms_defs Let_def split: option.splits if_splits,
      (hypsubst, simp add: ms_abs_def initiate_def settle_def)+)

lemma ms_enabled_iff: "ms_inv s \<Longrightarrow> ms_enabled s e \<longleftrightarrow> sp_step (ms_abs s) e \<noteq> None"
  by (cases s rule: ms_inv_cases, assumption; cases e) (auto simp: ms_abs_def split: if_splits)

lemma ms_step_total: "\<exists>t. ms_step s e = Inr t"
  by (cases e) auto

lemma ms_refines_from: "ms_inv s \<Longrightarrow> map_option ms_abs (run ms_enabled ms_step s es) = sp_run (ms_abs s) es"
proof (induction es arbitrary: s)
  case Nil
  then show ?case by simp
next
  case (Cons e es)
  obtain t where t: "ms_step s e = Inr t" using ms_step_total by blast
  show ?case
  proof (cases "ms_enabled s e")
    case True
    with Cons t ms_simulates [OF Cons.prems True t] ms_inv_step [OF Cons.prems True t] show ?thesis by simp
  next
    case False
    with ms_enabled_iff [OF Cons.prems, of e] show ?thesis by simp
  qed
qed

lemma ms_reachable_inv: "reachable ms_enabled ms_step ms_construct s \<Longrightarrow> ms_inv s"
  by (induction rule: reachable_invariant) (auto intro: ms_inv_construct ms_inv_step)

text \<open>The messages received, in order: what the completed reads delivered, the closing one excepted.\<close>

fun ms_received :: "mem_session \<Rightarrow> ms_event \<Rightarrow> string list" where
  "ms_received s (Ms_read_done e bytes t) = (if e = Some websocket_closed then [] else [bytes])"
| "ms_received s _ = []"

abbreviation ms_written :: "mem_session \<Rightarrow> string list" where
  "ms_written s \<equiv> writes (started s)"

text \<open>The session is a send region that never has a backlog.\<close>

lemma ms_flow:
  "ms_inv s \<Longrightarrow> ms_enabled s e \<Longrightarrow> ms_step s e = Inr t \<Longrightarrow> ms_written t = ms_written s @ ms_received s e"
  by (cases e) (auto simp: ms_inv_def ms_defs Let_def split: option.splits)

interpretation ms: prompt_send_region ms_enabled ms_step ms_construct ms_written "\<lambda>s. writes (pending s)"
  "\<lambda>s. []" ms_received "\<lambda>s. True"
proof unfold_locales
  fix s assume "reachable ms_enabled ms_step ms_construct s"
  from ms_reachable_inv [OF this] show "length (writes (pending s)) \<le> 1" by (auto simp: ms_inv_def)
qed (simp_all add: ms_flow [OF ms_reachable_inv], simp add: ms_construct_def)

section \<open>The listener\<close>

text \<open>
  \<open>ml_open\<close> says that the constructor reached its end. The sessions are the objects
  \<open>on_accept\<close> created; each runs on its own strand.
\<close>

datatype listener_op = Listener_accept

record mem_listener = "listener_op io" +
  ml_open :: bool
  ml_sessions :: "mem_session list"
  ml_fails :: "(error \<times> string) list"

definition ml_fail :: "error \<Rightarrow> string \<Rightarrow> mem_listener \<Rightarrow> mem_listener" where
  "ml_fail e what l = l\<lparr>ml_fails := ml_fails l @ [(e, what)]\<rparr>"

text \<open>The four calls of the constructor and their error codes; the first error ends it.\<close>

definition ml_construct :: "error_code \<Rightarrow> error_code \<Rightarrow> error_code \<Rightarrow> error_code \<Rightarrow> mem_listener" where
  "ml_construct open_ec option_ec bind_ec listen_ec =
     (let l = \<lparr>pending = [], started = [], ml_open = False, ml_sessions = [], ml_fails = []\<rparr> in
      case open_ec of Some e \<Rightarrow> ml_fail e ''open'' l
    | None \<Rightarrow> (case option_ec of Some e \<Rightarrow> ml_fail e ''set_option'' l
    | None \<Rightarrow> (case bind_ec of Some e \<Rightarrow> ml_fail e ''bind'' l
    | None \<Rightarrow> (case listen_ec of Some e \<Rightarrow> ml_fail e ''listen'' l
    | None \<Rightarrow> l\<lparr>ml_open := True\<rparr>))))"

definition ml_do_accept :: "mem_listener \<Rightarrow> mem_listener" where
  "ml_do_accept l = initiate Listener_accept l"

definition ml_run :: "mem_listener \<Rightarrow> mem_listener" where
  "ml_run l = ml_do_accept l"

definition ml_on_accept :: "error_code \<Rightarrow> mem_listener \<Rightarrow> mem_listener" where
  "ml_on_accept ec l =
     ml_do_accept
       (case ec of
          Some e \<Rightarrow> ml_fail e ''accept'' l
        | None \<Rightarrow> l\<lparr>ml_sessions := ml_sessions l @ [ms_run ms_construct]\<rparr>)"

datatype ml_event = Ml_accept_done error_code | Ml_session nat ms_event

fun ml_step :: "mem_listener \<Rightarrow> ml_event \<Rightarrow> mem_listener result" where
  "ml_step l (Ml_accept_done e) = Inr (ml_on_accept e (settle Listener_accept l))"
| "ml_step l (Ml_session i e) =
     (if i < length (ml_sessions l) then
        and_then (ms_step (ml_sessions l ! i) e) (\<lambda>t. Inr (l\<lparr>ml_sessions := (ml_sessions l)[i := t]\<rparr>))
      else Inl (Undefined ''no such session''))"

text \<open>
  A closed acceptor completes every accept with an error; an open one completes it either way.
\<close>

fun ml_enabled :: "mem_listener \<Rightarrow> ml_event \<Rightarrow> bool" where
  "ml_enabled l (Ml_accept_done e) \<longleftrightarrow> Listener_accept \<in> set (pending l) \<and> (ml_open l \<or> e \<noteq> None)"
| "ml_enabled l (Ml_session i e) \<longleftrightarrow>
     i < length (ml_sessions l) \<and> e \<noteq> Ms_run \<and> ms_enabled (ml_sessions l ! i) e"

text \<open>The program of \<^verbatim>\<open>main\<close>: the listener is made and run, and one thread runs the handlers.\<close>

definition mem_main :: "error_code \<Rightarrow> error_code \<Rightarrow> error_code \<Rightarrow> error_code \<Rightarrow> mem_listener" where
  "mem_main open_ec option_ec bind_ec listen_ec = ml_run (ml_construct open_ec option_ec bind_ec listen_ec)"

lemmas ml_defs [model_defs] =
  ml_fail_def ml_construct_def ml_do_accept_def ml_run_def ml_on_accept_def mem_main_def

definition ml_session_ok :: "mem_session \<Rightarrow> bool" where
  "ml_session_ok s \<longleftrightarrow> reachable ms_enabled ms_step ms_construct s \<and> started s \<noteq> []"

lemma ml_session_start: "ml_session_ok (ms_run ms_construct)"
  unfolding ml_session_ok_def
  using reachable_step [OF reachable_start, of ms_enabled ms_construct Ms_run ms_step]
  by (simp add: ms_construct_def ms_run_def)

lemma ms_step_started: "ms_step s e = Inr t \<Longrightarrow> started s \<noteq> [] \<Longrightarrow> started t \<noteq> []"
  by (cases e) (auto simp: ms_defs Let_def split: option.splits if_splits)

lemma ml_session_step:
  "ml_session_ok s \<Longrightarrow> ms_enabled s e \<Longrightarrow> ms_step s e = Inr t \<Longrightarrow> ml_session_ok t"
  unfolding ml_session_ok_def using reachable_step [of ms_enabled ms_step ms_construct s e t] ms_step_started [of s e t] by blast

definition ml_inv :: "mem_listener \<Rightarrow> bool" where
  "ml_inv l \<longleftrightarrow> pending l = [Listener_accept] \<and> (\<forall>s \<in> set (ml_sessions l). ml_session_ok s)"

lemma ml_inv_main: "ml_inv (mem_main a b c d)"
  by (simp add: ml_inv_def ml_defs Let_def initiate_def split: option.splits)

lemma ml_inv_step:
  assumes "ml_inv l" "ml_enabled l e"
  shows "\<exists>l'. ml_step l e = Inr l' \<and> ml_inv l' \<and> ml_open l' = ml_open l \<and>
    length (ml_sessions l') = length (ml_sessions l) + (if e = Ml_accept_done None then 1 else 0)"
proof (cases e)
  case (Ml_accept_done x)
  with assms show ?thesis
    by (auto simp: ml_inv_def ml_defs ml_session_start initiate_def settle_def split: option.splits)
next
  case (Ml_session i ev)
  with assms obtain t where "i < length (ml_sessions l)" "ms_step (ml_sessions l ! i) ev = Inr t"
      "ms_enabled (ml_sessions l ! i) ev"
    using ms_step_total by auto
  moreover from this have "ml_session_ok t"
    using assms(1) ml_session_step [of "ml_sessions l ! i" ev t] by (auto simp: ml_inv_def)
  ultimately show ?thesis
    using assms(1) Ml_session by (auto simp: ml_inv_def dest!: set_update_subset_insert [THEN subsetD])
qed

lemma ml_run_inv:
  "run ml_enabled ml_step l es = Some l' \<Longrightarrow> ml_inv l \<Longrightarrow>
    ml_inv l' \<and> ml_open l' = ml_open l \<and>
    length (ml_sessions l') = length (ml_sessions l) + count_list es (Ml_accept_done None)"
proof (induction rule: run_induct)
  case (Cons l e es m)
  with ml_inv_step [OF Cons.prems Cons.hyps(1)] show ?case by auto
qed simp

section \<open>The client\<close>

datatype exit_code = EXIT_SUCCESS | EXIT_FAILURE

datatype client_op =
    Client_resolve string string
  | Client_connect
  | Client_handshake string
  | Client_write string

definition client_text :: string where
  "client_text = ''a8aunpw39rvu0a9p8weufvpoaidsjfkav8w39unfvapwo9ep8UPAOISUNDPVIOUPN(*&Np98unp938upoiuoivasdfliJNASDOIVp028upn9v8upsoinjun:OIASJDVN''"

text \<open>
  The loop that waits for \<open>finished\<close>: \<open>reads\<close> are the values the flag has when the thread looks
  at it, one per second or so; while it has only read false the thread is still there.
\<close>

fun client_wait :: "bool list \<Rightarrow> bool" where
  "client_wait [] = False"
| "client_wait (b # bs) = (b \<or> client_wait bs)"

text \<open>
  One thread: the calls it makes on its stream with the error each of them throws, the endpoint
  the connection was made to, and what it returns, \<open>None\<close> while it waits.
\<close>

definition client_thread ::
    "error_code \<Rightarrow> error_code \<Rightarrow> nat \<Rightarrow> error_code \<Rightarrow> error_code \<Rightarrow> bool list \<Rightarrow> client_op list \<times> exit_code option" where
  "client_thread resolve_ec connect_ec port handshake_ec write_ec reads =
     (let ops = [Client_resolve ''192.168.0.55'' ''6761''] in
      if resolve_ec \<noteq> None then (ops, Some EXIT_FAILURE)
      else let ops = ops @ [Client_connect] in
      if connect_ec \<noteq> None then (ops, Some EXIT_FAILURE)
      else let ops = ops @ [Client_handshake (''192.168.0.55'' @ '':'' @ to_string port)] in
      if handshake_ec \<noteq> None then (ops, Some EXIT_FAILURE)
      else let ops = ops @ [Client_write client_text] in
      if write_ec \<noteq> None then (ops, Some EXIT_FAILURE)
      else (ops, if client_wait reads then Some EXIT_FAILURE else None))"

text \<open>
  The loop of \<^verbatim>\<open>main\<close> that spawns the threads: the lines it prints and the number of threads;
  after it the flag is set, and \<^verbatim>\<open>main\<close> sleeps for ever.
\<close>

fun client_spawn :: "nat \<Rightarrow> nat \<Rightarrow> string list \<times> nat" where
  "client_spawn 0 i = ([], 0)"
| "client_spawn (Suc n) i =
     (let (prints, threads) = client_spawn n (i + 1)
      in ((if i mod 1000 = 0 then [''Thread spawn '' @ to_string i] else []) @ prints, Suc threads))"

definition client_main :: "string list \<times> nat" where
  "client_main = (let (prints, threads) = client_spawn 30000 0 in (prints @ [''Finished''], threads))"

lemma client_spawn_eq:
  "client_spawn n i = (map (\<lambda>j. ''Thread spawn '' @ to_string j) (filter (\<lambda>j. j mod 1000 = 0) [i..<i + n]), n)"
proof (induction n arbitrary: i)
  case 0
  then show ?case by simp
next
  case (Suc n)
  have "[i..<i + Suc n] = i # [i + 1..<i + 1 + n]" by (simp add: upt_rec)
  with Suc [of "i + 1"] show ?case by simp
qed

text \<open>Whatever happens to it, a client thread reports failure, and it never closes its connection.\<close>

lemma client_thread_fails: "snd (client_thread r c p h w reads) \<in> {None, Some EXIT_FAILURE}"
  by (simp add: client_thread_def Let_def)

lemma client_writes_once:
  "filter (\<lambda>x. x = Client_write client_text) (fst (client_thread r c p h w reads)) =
     (if r = None \<and> c = None \<and> h = None then [Client_write client_text] else [])"
  by (simp add: client_thread_def Let_def)

section \<open>Properties\<close>

text \<open>
  C33. The session implements its specification: for every sequence of events, the code allows it
  exactly when the specification does and both end in the same phase; every message received is
  written back exactly once, in order, before the next one is read.
\<close>

theorem ms_refines_spec:
  "map_option ms_abs (run ms_enabled ms_step ms_construct es) = sp_run Sp_new es"
  using ms_refines_from [OF ms_inv_construct(1), of es] by (simp add: ms_inv_construct)

text \<open>
  What a session writes is what it received, in order and nothing else, with at most one
  operation outstanding at any time.
\<close>

theorem ms_echoes_all:
  assumes "run ms_enabled ms_step ms_construct es = Some s"
  shows "ms_written s = taken ms_step ms_received ms_construct es \<and> length (pending s) \<le> 1"
  using ms.ready_all_written [OF assms] ms_reachable_inv [OF run_reachable [OF assms]] by (auto simp: ms_inv_def)

theorem ms_echoes_all_witness:
  "\<exists>s. run ms_enabled ms_step ms_construct [Ms_run, Ms_accept_done None, Ms_read_done None ''hi'' True] = Some s \<and>
     ms_written s = [''hi''] \<and> length (pending s) \<le> 1"
proof -
  obtain s where r: "run ms_enabled ms_step ms_construct [Ms_run, Ms_accept_done None, Ms_read_done None ''hi'' True] = Some s"
    by (simp add: ms_defs Let_def)
  have "taken ms_step ms_received ms_construct [Ms_run, Ms_accept_done None, Ms_read_done None ''hi'' True] = [''hi'']" by simp
  with ms_echoes_all [OF r] r show ?thesis by auto
qed

text \<open>
  The listener never gives up: whatever completes, exactly one accept is outstanding and there
  is one session for each connection accepted. This holds for a listener whose constructor failed
  too, although it will never have a session: it accepts, fails and reports for ever.
\<close>

theorem ml_listens_for_ever:
  assumes "run ml_enabled ml_step (mem_main a b c d) es = Some l"
  shows "pending l = [Listener_accept] \<and> length (ml_sessions l) = count_list es (Ml_accept_done None) \<and>
    (ml_open l \<longleftrightarrow> a = None \<and> b = None \<and> c = None \<and> d = None) \<and>
    (\<forall>x. \<exists>l'. ml_step l (Ml_accept_done (Some x)) = Inr l' \<and> pending l' = [Listener_accept])"
proof -
  have "ml_open (mem_main a b c d) \<longleftrightarrow> a = None \<and> b = None \<and> c = None \<and> d = None" "ml_sessions (mem_main a b c d) = []"
    by (simp_all add: ml_defs Let_def initiate_def split: option.splits)
  with ml_run_inv [OF assms ml_inv_main] show ?thesis
    by (simp add: ml_inv_def ml_on_accept_def ml_do_accept_def ml_fail_def settle_def initiate_def)
qed

theorem ml_listens_for_ever_witness:
  "\<exists>l. run ml_enabled ml_step (mem_main None None None None) [Ml_accept_done None, Ml_session 0 (Ms_accept_done None)] = Some l \<and>
     pending l = [Listener_accept]"
proof -
  obtain l where r: "run ml_enabled ml_step (mem_main None None None None)
      [Ml_accept_done None, Ml_session 0 (Ms_accept_done None)] = Some l"
    by (simp add: ml_defs ms_defs Let_def initiate_def settle_def)
  with ml_listens_for_ever [OF r] show ?thesis by blast
qed

end
