(* ===== verification/Spec2Isabelle.thy ===== *)
theory Spec2Isabelle
  imports Unit_Tests Tx_Channel Queue_Lifetime Chat_Talk Dialling Endpoint_Map Programs Mime_Main Memory_Test
begin

text \<open>
  A verification development for the repository's Boost.Beast example programs: echo servers and
  clients for WebSockets in C++17 (\<^verbatim>\<open>pre-cxx20\<close>) and with coroutines (\<^verbatim>\<open>cxx20\<close>), and the
  utility library they share (\<^verbatim>\<open>lib/util\<close>).

  \<^bold>\<open>How the programs are modelled.\<close> Every class is a record with its data members, every member
  function a definition of nearly the same name with a short prefix for its class, and every error
  path a value: a handler returns \<open>Inl\<close> of a \<open>fault\<close> (a failed assertion, an exception, undefined
  behaviour) or \<open>Inr\<close> of the new state. Asio and Beast are not in the repository; an I/O object is
  seen through a ledger (record \<open>io\<close> in Prelude) of the operations started on it and those whose
  handler has not run yet. A component is a state machine: its events are the calls of its public
  functions and the completions of its operations, \<open>step\<close> is the code that runs for an event, and
  \<open>enabled\<close> says which events can be delivered: a completion only for an outstanding operation,
  once, in any order and with any result. \<open>reachable\<close> and \<open>run\<close> quantify over all such sequences.
  The programs run their handlers on one thread; where code may run on another thread
  (\<open>async_pop\<close>) the interleaving is modelled too.

  \<^bold>\<open>Theories, in the order of the code.\<close>

  \<^item> Prelude: error codes, faults, the ledger, runs and reachable states, numbers as text.
  \<^item> Poly_Handler (\<^verbatim>\<open>lib/util/poly_handler.hpp\<close>): the small-buffer function object, its two vtables and
    the lifetimes of what it stores; locale \<open>one_shot_function\<close>.
  \<^item> Async_Queue (\<^verbatim>\<open>lib/util/async_queue.hpp\<close>, \<^verbatim>\<open>detail/async_queue_impl.hpp\<close>): the asynchronous queue,
    its executor as a task list, and its owning handle. Tx_Channel: the channel such a queue
    implements, as a locale \<open>channel_queue\<close> its clients use, and the channel the comments of
    \<^verbatim>\<open>async_queue.hpp\<close> promise, with what the queue keeps of it. Queue_Lifetime: the
    queues with their reference counts, their owning handles, and the functions that keep them alive.
  \<^item> Handler_Queue: the two put together, with the handler stored in a function object that is moved
    into the posted task, and each task on the executor of its consumer. Unit_Tests: the
    repository's tests \<^verbatim>\<open>poly_handler.spec.cpp\<close> and \<^verbatim>\<open>async_queue.spec.cpp\<close>, run on the model.
  \<^item> Stop_Source (\<^verbatim>\<open>lib/util/st\<close>) and Stop_Register (\<^verbatim>\<open>fmex_client/stop_register\<close>): registries of
    callbacks that may call back into the registry while they run; locale \<open>slot_registry\<close>. Callbacks
    are finite trees of calls, and in the register also names, whose callbacks may register themselves.
  \<^item> Send_Region: the operations of a WebSocket stream, and the locales \<open>send_region\<close> and
    \<open>prompt_send_region\<close>, which state what the sending half of every connection class promises.
  \<^item> Echo_Connection, Echo_Server (\<^verbatim>\<open>echo_server\<close>): the session, the acceptor and the application.
    Endpoint_Map: the hasher of endpoints (the same in \<^verbatim>\<open>echo_server/server.hpp\<close>, \<^verbatim>\<open>cxx20/server.hpp\<close>
    and \<^verbatim>\<open>chatterbox/connection_pool.hpp\<close>) and the hash table, an instance with the association
    list of the servers' models of the locale \<open>endpoint_map\<close>.
  \<^item> Sigint_State, Wss_Transport, Blog_Client (\<^verbatim>\<open>blog-2020-09\<close>): the double-interrupt state machine,
    the TLS WebSocket transport with its virtual functions as a record of functions, and the exchange
    client built from them. Fmex_Client (\<^verbatim>\<open>fmex_client\<close>): the later client, on the stop register. Dialling: what
    the connect operations of both ask of the resolver and of the layers of the stream.
  \<^item> Chat_Connection, Chatterbox, Console (\<^verbatim>\<open>chatterbox\<close>): the client connection, the pool, and the
    console and application. Mime_Reader (\<^verbatim>\<open>mime_reader\<close>): writing, chunking and scanning of multipart
    documents; Mime_Main: its \<^verbatim>\<open>main\<close> with the two samples. Memory_Test (\<^verbatim>\<open>memory-test\<close>): the bare echo server and its client.
  \<^item> Cxx20_Chat, Cxx20_Server (\<^verbatim>\<open>cxx20\<close>): the session made of three coroutines, each modelled by the
    points it can be suspended at, and the coroutine server and application.
  \<^item> Conversation: two ends of one stream put together, and the locales \<open>echoing_peer\<close> and
    \<open>conversation\<close>. Chat_Talk: the chatterbox connected to a session of the echo server and to one of
    the coroutine server, which listen on the same port.
  \<^item> Programs: \<^verbatim>\<open>main\<close> of the five networked programs, as the exit status and the exception printed for
    a list of events.

  \<^bold>\<open>How they interact.\<close> The C++17 echo connection and the chatterbox connection queue messages
  themselves; the coroutine session gives its messages to an asynchronous queue, and its proofs use
  that queue through \<open>channel_queue\<close> only. Servers and pools hold the heap of their connections and
  call their public functions; an application passes signals and console input on to them. Every
  connection class is shown to be a send region by an interpretation on its own step function; the
  two servers' sessions and the chatterbox connection also to be ends that send back what they read,
  and what holds of two such ends on one stream is derived from that alone.

  \<^bold>\<open>What the lemmas show.\<close> For each component: an invariant of every reachable state, from which
  follows which handlers can fail and when (exactly, where some can); that messages are written in
  the order they were sent, one at a time, and that no sender stalls; that stopping is final and
  reaches every connection, or where it does not; and that what is started is completed once. The
  queue and the function object are also compared with specifications: the queue keeps to its documented
  channel up to the first aborted request, and not beyond; the function object is equivalent to a
  plain optional except for a filled one moved into itself; the memory-test session refines a
  protocol; the queue over stored function objects refines the abstract queue. A queue is deleted
  exactly when neither a handle nor a queued function refers to it, and destroying it posts the
  handler of its consumer. For a server and a client together: no message is lost between them, they never fall
  silent, and the client hears the greeting over and over again. For whole programs: their exit
  status for every schedule of events. For the text code: chunking and a decoder of the chunked coding are inverse, the reader
  prints what the writer wrote.

  \<^bold>\<open>Bounds and termination.\<close> Integers keep their width where it matters: the ids of slots and
  callbacks are 64-bit words, as are the sizes \<open>chunkify\<close> and the reader compute. There is no fuel:
  re-entrant callbacks that are trees terminate by the weight of the slots they may still connect, the
  scanner by the reads left and the length of its store. What may not end is a partial function into
  options: the loop of \<open>chunkify\<close>, the polling of an \<^verbatim>\<open>io_context\<close>, and \<open>notify_all\<close> over named callbacks,
  which is shown to end when callbacks register only callbacks of lower rank, and not to end for one
  that registers itself and notifies.

  \<^bold>\<open>Not modelled.\<close> The libraries (Boost, fmt, spdlog, the JSON library) are parameters or seen
  through the ledger; a JSON parser, an HTTP parser and \<^verbatim>\<open>boost::hash_combine\<close> are arbitrary functions,
  and a property that needs more of one says so in a hypothesis. Between two ends a WebSocket stream
  is taken to keep the order of the messages and their boundaries; that they may be delayed for ever
  is allowed for. Whether the executor an asynchronous queue keeps for its last consumer counts as
  outstanding work of that consumer's context is Asio's affair; the model of the unit test takes it as
  an argument. The calls of \<open>cancel\<close> on timers, sockets, signal sets and descriptors are taken not to
  throw. Log output (also where the logger writes to the standard output), the option values set on streams, TLS certificates, the configuration headers and the test framework are left out, as are
  the declarations the classes repeat (class bodies whose member functions are defined elsewhere, type
  aliases, accessors such as \<open>get_executor\<close>) and the two further copies of the endpoint hasher: what
  the sources have beyond the theories is of these kinds. Several threads running one \<^verbatim>\<open>io_context\<close> are not modelled,
  except inside \<open>async_pop\<close>; every program of the repository runs its context on one thread.
\<close>

end
